(* ===== verification/Odyssey_Prelude.thy ===== *)
theory Odyssey_Prelude
  imports Main "HOL-Library.Word"
begin

text \<open>
  Shared vocabulary of the development: the kernel's machine integer types as
  words of their width, the \<open>NTSTATUS\<close> codes the modelled routines return, and
  the generic lemmas on words, bits and transition systems that the component
  theories use.

  Three collections carry the automation: \<open>unat_word\<close> turns word arithmetic
  into arithmetic on natural numbers, \<open>word_bits\<close> describes single bits of word
  expressions, and \<open>status_simps\<close> decides \<open>NT_SUCCESS\<close> on the status constants.
\<close>

unbundle bit_operations_syntax

section \<open>Machine integers\<close>

type_synonym UCHAR = "8 word"
type_synonym USHORT = "16 word"
type_synonym ULONG = "32 word"
type_synonym ULONGLONG = "64 word"
type_synonym NTSTATUS = "32 word"
type_synonym ACCESS_MASK = "32 word"

abbreviation (input) MAXULONG :: ULONG where
  "MAXULONG \<equiv> 0xFFFFFFFF"

abbreviation (input) MAXULONGLONG :: ULONGLONG where
  "MAXULONGLONG \<equiv> 0xFFFFFFFFFFFFFFFF"

section \<open>Status codes\<close>

abbreviation (input) STATUS_SUCCESS :: NTSTATUS where
  "STATUS_SUCCESS \<equiv> 0"

abbreviation (input) STATUS_NO_MORE_ENTRIES :: NTSTATUS where
  "STATUS_NO_MORE_ENTRIES \<equiv> 0x8000001A"

abbreviation (input) STATUS_UNSUCCESSFUL :: NTSTATUS where
  "STATUS_UNSUCCESSFUL \<equiv> 0xC0000001"

abbreviation (input) STATUS_INVALID_PARAMETER :: NTSTATUS where
  "STATUS_INVALID_PARAMETER \<equiv> 0xC000000D"

abbreviation (input) STATUS_INSUFFICIENT_RESOURCES :: NTSTATUS where
  "STATUS_INSUFFICIENT_RESOURCES \<equiv> 0xC000009A"

abbreviation (input) STATUS_RANGE_NOT_FOUND :: NTSTATUS where
  "STATUS_RANGE_NOT_FOUND \<equiv> 0xC000028C"

abbreviation (input) STATUS_NO_MEMORY :: NTSTATUS where
  "STATUS_NO_MEMORY \<equiv> 0xC0000017"

abbreviation (input) STATUS_BUFFER_TOO_SMALL :: NTSTATUS where
  "STATUS_BUFFER_TOO_SMALL \<equiv> 0xC0000023"

abbreviation (input) STATUS_INVALID_INFO_CLASS :: NTSTATUS where
  "STATUS_INVALID_INFO_CLASS \<equiv> 0xC0000003"

abbreviation (input) STATUS_ACCESS_DENIED :: NTSTATUS where
  "STATUS_ACCESS_DENIED \<equiv> 0xC0000022"

abbreviation (input) STATUS_UNKNOWN_REVISION :: NTSTATUS where
  "STATUS_UNKNOWN_REVISION \<equiv> 0xC0000058"

abbreviation (input) STATUS_NO_IMPERSONATION_TOKEN :: NTSTATUS where
  "STATUS_NO_IMPERSONATION_TOKEN \<equiv> 0xC000005C"

abbreviation (input) STATUS_PRIVILEGE_NOT_HELD :: NTSTATUS where
  "STATUS_PRIVILEGE_NOT_HELD \<equiv> 0xC0000061"

abbreviation (input) STATUS_INVALID_ACL :: NTSTATUS where
  "STATUS_INVALID_ACL \<equiv> 0xC0000077"

abbreviation (input) STATUS_INVALID_SID :: NTSTATUS where
  "STATUS_INVALID_SID \<equiv> 0xC0000078"

abbreviation (input) STATUS_ALLOTTED_SPACE_EXCEEDED :: NTSTATUS where
  "STATUS_ALLOTTED_SPACE_EXCEEDED \<equiv> 0xC0000099"

abbreviation (input) STATUS_BAD_DESCRIPTOR_FORMAT :: NTSTATUS where
  "STATUS_BAD_DESCRIPTOR_FORMAT \<equiv> 0xC00000E7"

abbreviation (input) STATUS_INVALID_SECURITY_DESCR :: NTSTATUS where
  "STATUS_INVALID_SECURITY_DESCR \<equiv> 0xC0000079"

abbreviation (input) STATUS_BAD_IMPERSONATION_LEVEL :: NTSTATUS where
  "STATUS_BAD_IMPERSONATION_LEVEL \<equiv> 0xC00000A5"

abbreviation (input) STATUS_GENERIC_NOT_MAPPED :: NTSTATUS where
  "STATUS_GENERIC_NOT_MAPPED \<equiv> 0xC00000E6"

abbreviation (input) STATUS_INVALID_PARAMETER_1 :: NTSTATUS where
  "STATUS_INVALID_PARAMETER_1 \<equiv> 0xC00000EF"

abbreviation (input) STATUS_INVALID_PARAMETER_2 :: NTSTATUS where
  "STATUS_INVALID_PARAMETER_2 \<equiv> 0xC00000F0"

text \<open>\<open>NT_SUCCESS(Status)\<close> is \<open>(NTSTATUS)(Status) >= 0\<close> on a signed 32-bit value.\<close>

definition NT_SUCCESS :: "NTSTATUS \<Rightarrow> bool" where
  "NT_SUCCESS s \<longleftrightarrow> 0 \<le> sint s"

named_theorems status_simps \<open>success or failure of the status constants\<close>

lemma NT_SUCCESS_STATUS_SUCCESS [status_simps, simp]: "NT_SUCCESS STATUS_SUCCESS"
  by (simp add: NT_SUCCESS_def)

lemma NT_SUCCESS_failures [status_simps, simp]:
  "\<not> NT_SUCCESS STATUS_NO_MORE_ENTRIES"
  "\<not> NT_SUCCESS STATUS_UNSUCCESSFUL"
  "\<not> NT_SUCCESS STATUS_INVALID_PARAMETER"
  "\<not> NT_SUCCESS STATUS_INSUFFICIENT_RESOURCES"
  "\<not> NT_SUCCESS STATUS_RANGE_NOT_FOUND"
  "\<not> NT_SUCCESS STATUS_NO_MEMORY"
  "\<not> NT_SUCCESS STATUS_BUFFER_TOO_SMALL"
  "\<not> NT_SUCCESS STATUS_INVALID_INFO_CLASS"
  "\<not> NT_SUCCESS STATUS_ACCESS_DENIED"
  "\<not> NT_SUCCESS STATUS_UNKNOWN_REVISION"
  "\<not> NT_SUCCESS STATUS_NO_IMPERSONATION_TOKEN"
  "\<not> NT_SUCCESS STATUS_PRIVILEGE_NOT_HELD"
  "\<not> NT_SUCCESS STATUS_INVALID_ACL"
  "\<not> NT_SUCCESS STATUS_INVALID_SID"
  "\<not> NT_SUCCESS STATUS_ALLOTTED_SPACE_EXCEEDED"
  "\<not> NT_SUCCESS STATUS_BAD_DESCRIPTOR_FORMAT"
  "\<not> NT_SUCCESS STATUS_INVALID_SECURITY_DESCR"
  "\<not> NT_SUCCESS STATUS_BAD_IMPERSONATION_LEVEL"
  "\<not> NT_SUCCESS STATUS_GENERIC_NOT_MAPPED"
  "\<not> NT_SUCCESS STATUS_INVALID_PARAMETER_1"
  "\<not> NT_SUCCESS STATUS_INVALID_PARAMETER_2"
  by (simp_all add: NT_SUCCESS_def)

section \<open>Words as natural numbers\<close>

named_theorems unat_word \<open>word operations read as natural numbers\<close>

lemma unat_less_2p32 [simp]: "unat (x :: ULONG) < 4294967296"
  using unsigned_less [of x] by simp

lemma unat_less_2p64: "unat (x :: ULONGLONG) < 18446744073709551616"
  using unsigned_less [of x] by simp

lemma unat_div_32 [unat_word]: "unat ((x :: ULONG) div 32) = unat x div 32"
  by (simp add: unat_div)

lemma unat_div_8 [unat_word]: "unat ((x :: ULONG) div 8) = unat x div 8"
  by (simp add: unat_div)

lemma unat_drop_bit_5 [unat_word]: "unat (drop_bit 5 (x :: ULONG)) = unat x div 32"
  by (simp add: drop_bit_eq_div unat_div_32)

lemma unat_drop_bit_3 [unat_word]: "unat (drop_bit 3 (x :: ULONG)) = unat x div 8"
  by (simp add: drop_bit_eq_div unat_div_8)

lemma unat_and_31 [unat_word]: "unat ((x :: ULONG) AND 31) = unat x mod 32"
proof -
  have "x AND 31 = take_bit 5 x"
    by (simp add: take_bit_eq_mask mask_eq_exp_minus_1)
  then show ?thesis
    by (simp add: take_bit_eq_mod unat_mod)
qed

lemma unat_add_small:
  "unat (x :: ULONG) + unat y < 4294967296 \<Longrightarrow> unat (x + y) = unat x + unat y"
  by (simp add: unat_word_ariths)

lemma unat_sub_small:
  "unat (y :: ULONG) \<le> unat x \<Longrightarrow> unat (x - y) = unat x - unat y"
  by (simp add: unat_sub word_le_nat_alt)

lemma unat_min_word [unat_word]: "unat (min (x :: 'a::len word) y) = min (unat x) (unat y)"
  by (simp add: min_def word_le_nat_alt)

section \<open>Single bits\<close>

named_theorems word_bits \<open>single bits of word expressions\<close>

lemma bit_0xFFFFFFFF_int [word_bits, simp]: "bit (0xFFFFFFFF :: int) n \<longleftrightarrow> n < 32"
proof -
  have "(0xFFFFFFFF :: int) = mask 32"
    by (simp add: mask_eq_exp_minus_1)
  then show ?thesis
    by (simp only: bit_mask_iff) simp
qed

lemma bit_high_mask [word_bits]:
  "n < 32 \<Longrightarrow> bit (push_bit b MAXULONG) n \<longleftrightarrow> b \<le> n"
  by (auto simp: bit_push_bit_iff)

lemma bit_mid_mask [word_bits]:
  "n < 32 \<Longrightarrow> bit (drop_bit c (push_bit c (push_bit b MAXULONG))) n \<longleftrightarrow> b \<le> n \<and> n + c < 32"
  by (auto simp: bit_drop_bit_eq bit_push_bit_iff)

lemma bit_align_low [word_bits]:
  "n < 32 \<Longrightarrow> bit (push_bit b (drop_bit b (v :: ULONG))) n \<longleftrightarrow> b \<le> n \<and> bit v n"
  by (auto simp: bit_push_bit_iff bit_drop_bit_eq)

declare bit_or_iff [word_bits] bit_and_iff [word_bits]

lemma bit_NOT_ULONG [word_bits]: "n < 32 \<Longrightarrow> bit (NOT (v :: ULONG)) n \<longleftrightarrow> \<not> bit v n"
  by (simp add: bit_not_iff)

lemma ULONG_eq_0_iff: "(v :: ULONG) = 0 \<longleftrightarrow> (\<forall>n<32. \<not> bit v n)"
  by (auto simp: bit_eq_iff dest: bit_imp_le_length)

lemma split_32: "p = 32 * (p div 32) + p mod 32" for p :: nat
  by simp

section \<open>Searching in ranges of indices\<close>

lemma find_upt_None: "find P [0..<n] = None \<longleftrightarrow> (\<forall>i<n. \<not> P i)"
  by (auto simp: find_None_iff)

lemma find_upt_Some: "find P [0..<n] = Some p \<longleftrightarrow> p < n \<and> P p \<and> (\<forall>q<p. \<not> P q)"
  by (auto simp: find_Some_iff)

lemma find_rev_upt_None: "find P (rev [0..<n]) = None \<longleftrightarrow> (\<forall>i<n. \<not> P i)"
  by (auto simp: find_None_iff)

lemma find_rev_upt_Some:
  "find P (rev [0..<n]) = Some p \<longleftrightarrow> p < n \<and> P p \<and> (\<forall>q. p < q \<and> q < n \<longrightarrow> \<not> P q)"
  by (induction n) (auto simp: less_Suc_eq)

section \<open>Transition systems\<close>

text \<open>
  Reachability from initial states, and the rule that an inductive invariant
  holds in every reachable state. Concurrent components interpret \<open>invariant_rule\<close>
  with their own step relation.
\<close>

inductive reachable :: "('s \<Rightarrow> bool) \<Rightarrow> ('s \<Rightarrow> 's \<Rightarrow> bool) \<Rightarrow> 's \<Rightarrow> bool" for init step where
  reachable_init: "init s \<Longrightarrow> reachable init step s"
| reachable_step: "reachable init step s \<Longrightarrow> step s s' \<Longrightarrow> reachable init step s'"

locale invariant_rule =
  fixes init :: "'s \<Rightarrow> bool" and step :: "'s \<Rightarrow> 's \<Rightarrow> bool" and inv :: "'s \<Rightarrow> bool"
  assumes init_inv: "init s \<Longrightarrow> inv s"
    and step_inv: "inv s \<Longrightarrow> step s s' \<Longrightarrow> inv s'"
begin

lemma reachable_inv: "reachable init step s \<Longrightarrow> inv s"
  by (induction rule: reachable.induct) (auto intro: init_inv step_inv)

end

section \<open>Sums over updated lists\<close>

lemma sum_list_map_update:
  fixes f :: "'a \<Rightarrow> nat"
  assumes "i < length xs"
  shows "sum_list (map f (xs[i := y])) + f (xs ! i) = sum_list (map f xs) + f y"
  using assms
proof (induction xs arbitrary: i)
  case (Cons x xs)
  then show ?case by (cases i) auto
qed simp

end
