(* ===== verification/Rtl_Memory.thy ===== *)
theory Rtl_Memory
  imports Odyssey_Prelude
begin

text \<open>
  The memory routines of \<open>lib/rtl/mem.c\<close>. Memory is seen from a base pointer
  upwards: a block of \<open>ULONG\<close>s is a function from the index of a word to the
  word, a block of bytes a function from the byte offset to the byte. The
  functions are total, so what lies past the end of an object is whatever the
  memory holds there.
\<close>

type_synonym ulongs = "nat \<Rightarrow> ULONG"
type_synonym bytes = "nat \<Rightarrow> UCHAR"

section \<open>Filling and comparing\<close>

fun fill_ulong_loop :: "ulongs \<Rightarrow> nat \<Rightarrow> nat \<Rightarrow> ULONG \<Rightarrow> ulongs" where
  "fill_ulong_loop buf Dest 0 Fill = buf"
| "fill_ulong_loop buf Dest (Suc Count) Fill =
     fill_ulong_loop (buf(Dest := Fill)) (Suc Dest) Count Fill"

definition RtlFillMemoryUlong :: "ulongs \<Rightarrow> nat \<Rightarrow> ULONG \<Rightarrow> ULONG \<Rightarrow> ulongs" where
  "RtlFillMemoryUlong buf Destination Length Fill =
     fill_ulong_loop buf Destination (unat (Length div 4)) Fill"

text \<open>
  \<open>RtlCompareMemory\<close> returns the number of leading bytes that agree; the loop
  index is the number of bytes left to compare.
\<close>

fun compare_memory_loop :: "bytes \<Rightarrow> nat \<Rightarrow> bytes \<Rightarrow> nat \<Rightarrow> nat \<Rightarrow> nat \<Rightarrow> nat" where
  "compare_memory_loop m1 p1 m2 p2 i 0 = i"
| "compare_memory_loop m1 p1 m2 p2 i (Suc left) =
     (if m1 (p1 + i) = m2 (p2 + i) then compare_memory_loop m1 p1 m2 p2 (Suc i) left else i)"

definition RtlCompareMemory :: "bytes \<Rightarrow> nat \<Rightarrow> bytes \<Rightarrow> nat \<Rightarrow> nat \<Rightarrow> nat" where
  "RtlCompareMemory m1 Source1 m2 Source2 Length =
     compare_memory_loop m1 Source1 m2 Source2 0 Length"

section \<open>What they do\<close>

lemma fill_ulong_loop_eq:
  "fill_ulong_loop buf d n v k = (if d \<le> k \<and> k < d + n then v else buf k)"
  by (induction n arbitrary: buf d) auto

lemma RtlFillMemoryUlong_eq:
  "RtlFillMemoryUlong buf d len v k =
     (if d \<le> k \<and> k < d + unat len div 4 then v else buf k)"
  by (simp add: RtlFillMemoryUlong_def fill_ulong_loop_eq unat_div)

lemma compare_memory_loop_le: "compare_memory_loop m1 p1 m2 p2 i n \<le> i + n"
  by (induction m1 p1 m2 p2 i n rule: compare_memory_loop.induct) auto

lemma compare_memory_loop_full:
  "compare_memory_loop m1 p1 m2 p2 i n = i + n \<longleftrightarrow>
     (\<forall>k. i \<le> k \<and> k < i + n \<longrightarrow> m1 (p1 + k) = m2 (p2 + k))"
proof (induction m1 p1 m2 p2 i n rule: compare_memory_loop.induct)
  case (2 m1 p1 m2 p2 i left)
  show ?case
  proof (cases "m1 (p1 + i) = m2 (p2 + i)")
    case True
    then have "compare_memory_loop m1 p1 m2 p2 i (Suc left) = i + Suc left \<longleftrightarrow>
      (\<forall>k. Suc i \<le> k \<and> k < Suc i + left \<longrightarrow> m1 (p1 + k) = m2 (p2 + k))"
      using 2 by simp
    also have "\<dots> \<longleftrightarrow> (\<forall>k. i \<le> k \<and> k < i + Suc left \<longrightarrow> m1 (p1 + k) = m2 (p2 + k))"
      using True by (metis Suc_leI Suc_leD add_Suc add_Suc_right le_neq_implies_less)
    finally show ?thesis .
  qed auto
qed auto

lemma RtlCompareMemory_full:
  "RtlCompareMemory m1 p1 m2 p2 n = n \<longleftrightarrow> (\<forall>k<n. m1 (p1 + k) = m2 (p2 + k))"
  using compare_memory_loop_full [of m1 p1 m2 p2 0 n] by (auto simp: RtlCompareMemory_def)

end
