(* ===== verification/Rtl_Bitmap.thy ===== *)
theory Rtl_Bitmap
  imports Rtl_Memory
begin

text \<open>
  The bitmap package of \<open>lib/rtl/bitmap.c\<close>: setting and clearing ranges of
  bits, measuring runs of equal bits, and searching for runs of clear or set
  bits. An \<open>RTL_BITMAP\<close> is its size in bits and the memory its \<open>Buffer\<close> points
  to; \<open>bitmap_bit\<close> reads single bits and is the abstraction all properties
  speak about.
\<close>

section \<open>Data\<close>

record RTL_BITMAP =
  SizeOfBitMap :: ULONG
  Buffer :: ulongs

record RTL_BITMAP_RUN =
  StartingIndex :: ULONG
  NumberOfBits :: ULONG

definition BitCountTable :: "nat list" where
  "BitCountTable =
     [0, 1, 1, 2, 1, 2, 2, 3, 1, 2, 2, 3, 2, 3, 3, 4,
      1, 2, 2, 3, 2, 3, 3, 4, 2, 3, 3, 4, 3, 4, 4, 5,
      1, 2, 2, 3, 2, 3, 3, 4, 2, 3, 3, 4, 3, 4, 4, 5,
      2, 3, 3, 4, 3, 4, 4, 5, 3, 4, 4, 5, 4, 5, 5, 6,
      1, 2, 2, 3, 2, 3, 3, 4, 2, 3, 3, 4, 3, 4, 4, 5,
      2, 3, 3, 4, 3, 4, 4, 5, 3, 4, 4, 5, 4, 5, 5, 6,
      2, 3, 3, 4, 3, 4, 4, 5, 3, 4, 4, 5, 4, 5, 5, 6,
      3, 4, 4, 5, 4, 5, 5, 6, 4, 5, 5, 6, 5, 6, 6, 7,
      1, 2, 2, 3, 2, 3, 3, 4, 2, 3, 3, 4, 3, 4, 4, 5,
      2, 3, 3, 4, 3, 4, 4, 5, 3, 4, 4, 5, 4, 5, 5, 6,
      2, 3, 3, 4, 3, 4, 4, 5, 3, 4, 4, 5, 4, 5, 5, 6,
      3, 4, 4, 5, 4, 5, 5, 6, 4, 5, 5, 6, 5, 6, 6, 7,
      2, 3, 3, 4, 3, 4, 4, 5, 3, 4, 4, 5, 4, 5, 5, 6,
      3, 4, 4, 5, 4, 5, 5, 6, 4, 5, 5, 6, 5, 6, 6, 7,
      3, 4, 4, 5, 4, 5, 5, 6, 4, 5, 5, 6, 5, 6, 6, 7,
      4, 5, 5, 6, 5, 6, 6, 7, 5, 6, 6, 7, 6, 7, 7, 8]"

text \<open>The bit-scan intrinsics: the position of the lowest and of the highest set bit.\<close>

definition BitScanForward :: "ULONG \<Rightarrow> nat option" where
  "BitScanForward v = find (bit v) [0..<32]"

definition BitScanReverse :: "ULONG \<Rightarrow> nat option" where
  "BitScanReverse v = find (bit v) (rev [0..<32])"

section \<open>Run lengths\<close>

text \<open>
  The loops that skip whole words: \<open>Value\<close> is the word in hand, \<open>i\<close> the index
  \<open>Buffer\<close> has advanced to, \<open>MaxBuffer\<close> the index to stop at. \<open>rd\<close> reads a word,
  complemented for runs of set bits.
\<close>

function skip_ulongs :: "(nat \<Rightarrow> ULONG) \<Rightarrow> nat \<Rightarrow> nat \<Rightarrow> ULONG \<Rightarrow> ULONG \<times> nat" where
  "skip_ulongs rd i MaxBuffer Value =
     (if Value = 0 \<and> i < MaxBuffer then skip_ulongs rd (Suc i) MaxBuffer (rd i) else (Value, i))"
  by pat_completeness auto
termination
  by (relation "measure (\<lambda>(rd, i, MaxBuffer, Value). MaxBuffer - i)") auto

declare skip_ulongs.simps [simp del]

definition RtlpGetLengthOfRunClear :: "RTL_BITMAP \<Rightarrow> ULONG \<Rightarrow> ULONG \<Rightarrow> ULONG" where
  "RtlpGetLengthOfRunClear BitMapHeader Start MaxLength =
     (let Buf = unat (Start div 32);
          BitPos = Start AND 31;
          MaxLength = min MaxLength (SizeOfBitMap BitMapHeader - Start);
          MaxBuffer = Buf + unat ((BitPos + MaxLength + 31) div 32);
          Value = push_bit (unat BitPos) (drop_bit (unat BitPos) (Buffer BitMapHeader Buf));
          (Value, Buf) = skip_ulongs (Buffer BitMapHeader) (Suc Buf) MaxBuffer Value
      in case BitScanForward Value of
           None \<Rightarrow> MaxLength
         | Some pos \<Rightarrow>
             let Length = of_nat Buf * 32 - Start;
                 Length = Length + (of_nat pos - 32)
             in if Length > SizeOfBitMap BitMapHeader - Start
                then SizeOfBitMap BitMapHeader - Start else Length)"

definition RtlpGetLengthOfRunSet :: "RTL_BITMAP \<Rightarrow> ULONG \<Rightarrow> ULONG \<Rightarrow> ULONG" where
  "RtlpGetLengthOfRunSet BitMapHeader Start MaxLength =
     (let Buf = unat (Start div 32);
          BitPos = Start AND 31;
          MaxLength = min MaxLength (SizeOfBitMap BitMapHeader - Start);
          MaxBuffer = Buf + unat ((BitPos + MaxLength + 31) div 32);
          InvValue = push_bit (unat BitPos) (drop_bit (unat BitPos) (NOT (Buffer BitMapHeader Buf)));
          (InvValue, Buf) =
             skip_ulongs (\<lambda>i. NOT (Buffer BitMapHeader i)) (Suc Buf) MaxBuffer InvValue
      in case BitScanForward InvValue of
           None \<Rightarrow> MaxLength
         | Some pos \<Rightarrow>
             let Length = of_nat Buf * 32 - Start;
                 Length = Length + (of_nat pos - 32)
             in if Length > SizeOfBitMap BitMapHeader - Start
                then SizeOfBitMap BitMapHeader - Start else Length)"

section \<open>Single bits and ranges of bits\<close>

definition RtlFindMostSignificantBit :: "ULONGLONG \<Rightarrow> int" where
  "RtlFindMostSignificantBit Value =
     (case BitScanReverse (ucast (drop_bit 32 Value)) of
        Some Position \<Rightarrow> int Position + 32
      | None \<Rightarrow>
          (case BitScanReverse (ucast Value) of
             Some Position \<Rightarrow> int Position
           | None \<Rightarrow> -1))"

definition RtlFindLeastSignificantBit :: "ULONGLONG \<Rightarrow> int" where
  "RtlFindLeastSignificantBit Value =
     (case BitScanForward (ucast Value) of
        Some Position \<Rightarrow> int Position
      | None \<Rightarrow>
          (case BitScanForward (ucast (drop_bit 32 Value)) of
             Some Position \<Rightarrow> int Position + 32
           | None \<Rightarrow> -1))"

definition RtlInitializeBitMap :: "ulongs \<Rightarrow> ULONG \<Rightarrow> RTL_BITMAP" where
  "RtlInitializeBitMap BitMapBuffer Size = \<lparr>SizeOfBitMap = Size, Buffer = BitMapBuffer\<rparr>"

definition RtlClearAllBits :: "RTL_BITMAP \<Rightarrow> RTL_BITMAP" where
  "RtlClearAllBits BitMapHeader =
     (let LengthInUlongs = drop_bit 5 (SizeOfBitMap BitMapHeader + 31)
      in BitMapHeader\<lparr>Buffer :=
           RtlFillMemoryUlong (Buffer BitMapHeader) 0 (push_bit 2 LengthInUlongs) 0\<rparr>)"

definition RtlSetAllBits :: "RTL_BITMAP \<Rightarrow> RTL_BITMAP" where
  "RtlSetAllBits BitMapHeader =
     (let LengthInUlongs = drop_bit 5 (SizeOfBitMap BitMapHeader + 31)
      in BitMapHeader\<lparr>Buffer :=
           RtlFillMemoryUlong (Buffer BitMapHeader) 0 (push_bit 2 LengthInUlongs) (NOT 0)\<rparr>)"

text \<open>\<open>update_ulong\<close> is a read-modify-write of one word of the buffer.\<close>

definition update_ulong :: "RTL_BITMAP \<Rightarrow> nat \<Rightarrow> (ULONG \<Rightarrow> ULONG) \<Rightarrow> RTL_BITMAP" where
  "update_ulong BitMapHeader i f =
     BitMapHeader\<lparr>Buffer := (Buffer BitMapHeader)(i := f (Buffer BitMapHeader i))\<rparr>"

definition RtlClearBit :: "RTL_BITMAP \<Rightarrow> ULONG \<Rightarrow> RTL_BITMAP" where
  "RtlClearBit BitMapHeader BitNumber =
     update_ulong BitMapHeader (unat (drop_bit 5 BitNumber))
       (\<lambda>w. w AND NOT (push_bit (unat (BitNumber AND 31)) 1))"

definition RtlSetBit :: "RTL_BITMAP \<Rightarrow> ULONG \<Rightarrow> RTL_BITMAP" where
  "RtlSetBit BitMapHeader BitNumber =
     update_ulong BitMapHeader (unat (drop_bit 5 BitNumber))
       (\<lambda>w. w OR push_bit (unat (BitNumber AND 31)) 1)"

text \<open>
  The part of \<open>RtlClearBits\<close> and \<open>RtlSetBits\<close> after the unaligned head: \<open>Buf\<close> is
  the index of the first whole word, \<open>n\<close> the number of bits left.
\<close>

definition clear_aligned :: "RTL_BITMAP \<Rightarrow> nat \<Rightarrow> ULONG \<Rightarrow> RTL_BITMAP" where
  "clear_aligned BitMapHeader Buf n =
     (let bm = BitMapHeader\<lparr>Buffer := RtlFillMemoryUlong (Buffer BitMapHeader) Buf (drop_bit 3 n) 0\<rparr>;
          Buf = Buf + unat (drop_bit 5 n);
          n = n AND 31;
          Mask = push_bit (unat n) MAXULONG
      in update_ulong bm Buf (\<lambda>w. w AND Mask))"

definition set_aligned :: "RTL_BITMAP \<Rightarrow> nat \<Rightarrow> ULONG \<Rightarrow> RTL_BITMAP" where
  "set_aligned BitMapHeader Buf n =
     (let bm = BitMapHeader\<lparr>Buffer := RtlFillMemoryUlong (Buffer BitMapHeader) Buf (drop_bit 3 n) MAXULONG\<rparr>;
          Buf = Buf + unat (drop_bit 5 n);
          n = n AND 31;
          Mask = push_bit (unat n) MAXULONG
      in update_ulong bm Buf (\<lambda>w. w OR NOT Mask))"

definition RtlClearBits :: "RTL_BITMAP \<Rightarrow> ULONG \<Rightarrow> ULONG \<Rightarrow> RTL_BITMAP" where
  "RtlClearBits BitMapHeader Start NumberToClear =
     (let Buf = unat (drop_bit 5 Start); Bits = Start AND 31
      in if Bits \<noteq> 0 then
           (let Mask = push_bit (unat Bits) MAXULONG; Bits = 32 - Bits
            in if NumberToClear < Bits then
                 (let Bits = Bits - NumberToClear;
                      Mask = drop_bit (unat Bits) (push_bit (unat Bits) Mask)
                  in update_ulong BitMapHeader Buf (\<lambda>w. w AND NOT Mask))
               else
                 clear_aligned (update_ulong BitMapHeader Buf (\<lambda>w. w AND NOT Mask))
                   (Suc Buf) (NumberToClear - Bits))
         else clear_aligned BitMapHeader Buf NumberToClear)"

definition RtlSetBits :: "RTL_BITMAP \<Rightarrow> ULONG \<Rightarrow> ULONG \<Rightarrow> RTL_BITMAP" where
  "RtlSetBits BitMapHeader Start NumberToSet =
     (let Buf = unat (drop_bit 5 Start); Bits = Start AND 31
      in if Bits \<noteq> 0 then
           (let Mask = push_bit (unat Bits) MAXULONG; Bits = 32 - Bits
            in if NumberToSet < Bits then
                 (let Bits = Bits - NumberToSet;
                      Mask = drop_bit (unat Bits) (push_bit (unat Bits) Mask)
                  in update_ulong BitMapHeader Buf (\<lambda>w. w OR Mask))
               else
                 set_aligned (update_ulong BitMapHeader Buf (\<lambda>w. w OR Mask))
                   (Suc Buf) (NumberToSet - Bits))
         else set_aligned BitMapHeader Buf NumberToSet)"

definition RtlTestBit :: "RTL_BITMAP \<Rightarrow> ULONG \<Rightarrow> bool" where
  "RtlTestBit BitMapHeader BitNumber \<longleftrightarrow>
     drop_bit (unat (BitNumber AND 31)) (Buffer BitMapHeader (unat (drop_bit 5 BitNumber))) AND 1 \<noteq> 0"

definition RtlAreBitsClear :: "RTL_BITMAP \<Rightarrow> ULONG \<Rightarrow> ULONG \<Rightarrow> bool" where
  "RtlAreBitsClear BitMapHeader Start Length \<longleftrightarrow>
     RtlpGetLengthOfRunClear BitMapHeader Start Length \<ge> Length"

definition RtlAreBitsSet :: "RTL_BITMAP \<Rightarrow> ULONG \<Rightarrow> ULONG \<Rightarrow> bool" where
  "RtlAreBitsSet BitMapHeader Start Length \<longleftrightarrow>
     RtlpGetLengthOfRunSet BitMapHeader Start Length \<ge> Length"

section \<open>Counting\<close>

text \<open>The buffer read as bytes through a \<open>PUCHAR\<close>, little-endian.\<close>

definition bitmap_byte :: "RTL_BITMAP \<Rightarrow> nat \<Rightarrow> UCHAR" where
  "bitmap_byte BitMapHeader k = ucast (drop_bit (8 * (k mod 4)) (Buffer BitMapHeader (k div 4)))"

text \<open>
  \<open>do { BitCount += BitCountTable[*Byte++]; } while (Byte <= MaxByte);\<close> with
  \<open>Byte\<close> and \<open>MaxByte\<close> as offsets from the start of the buffer.
\<close>

function count_bytes :: "RTL_BITMAP \<Rightarrow> nat \<Rightarrow> nat \<Rightarrow> ULONG \<Rightarrow> ULONG" where
  "count_bytes BitMapHeader Byte MaxByte BitCount =
     (let BitCount = BitCount + of_nat (BitCountTable ! unat (bitmap_byte BitMapHeader Byte))
      in if Suc Byte \<le> MaxByte then count_bytes BitMapHeader (Suc Byte) MaxByte BitCount
         else BitCount)"
  by pat_completeness auto
termination
  by (relation "measure (\<lambda>(bm, Byte, MaxByte, BitCount). MaxByte - Byte)") auto

declare count_bytes.simps [simp del]

definition RtlNumberOfSetBits :: "RTL_BITMAP \<Rightarrow> ULONG" where
  "RtlNumberOfSetBits BitMapHeader =
     count_bytes BitMapHeader 0 (unat ((SizeOfBitMap BitMapHeader + 7) div 8)) 0"

definition RtlNumberOfClearBits :: "RTL_BITMAP \<Rightarrow> ULONG" where
  "RtlNumberOfClearBits BitMapHeader =
     SizeOfBitMap BitMapHeader - RtlNumberOfSetBits BitMapHeader"

section \<open>Searching for runs\<close>

text \<open>
  The search loop that \<open>RtlFindClearBits\<close> and \<open>RtlFindSetBits\<close> share: \<open>guard\<close>
  compares \<open>CurrentBit + NumberToFind\<close> with \<open>Margin\<close>, \<open>skip\<close> measures a run of
  the other colour, \<open>run\<close> one of the wanted colour. The outer \<open>None\<close> is a loop
  that never ends, \<open>Some None\<close> a loop that ends without a hit.
\<close>

partial_function (option) find_bits_loop ::
  "(ULONG \<Rightarrow> ULONG \<Rightarrow> bool) \<Rightarrow> (ULONG \<Rightarrow> ULONG \<Rightarrow> ULONG) \<Rightarrow> (ULONG \<Rightarrow> ULONG \<Rightarrow> ULONG) \<Rightarrow>
     ULONG \<Rightarrow> ULONG \<Rightarrow> ULONG \<Rightarrow> ULONG option option" where
  "find_bits_loop guard skip run NumberToFind Margin CurrentBit =
     (if guard (CurrentBit + NumberToFind) Margin then
        (let CurrentBit = CurrentBit + skip CurrentBit MAXULONG;
             CurrentLength = run CurrentBit NumberToFind
         in if CurrentLength \<ge> NumberToFind then Some (Some CurrentBit)
            else find_bits_loop guard skip run NumberToFind Margin (CurrentBit + CurrentLength))
      else Some None)"

definition RtlFindClearBits :: "RTL_BITMAP option \<Rightarrow> ULONG \<Rightarrow> ULONG \<Rightarrow> ULONG option" where
  "RtlFindClearBits BitMapHeader NumberToFind HintIndex =
     (case BitMapHeader of
        None \<Rightarrow> Some MAXULONG
      | Some bm \<Rightarrow>
          if NumberToFind > SizeOfBitMap bm then Some MAXULONG
          else if NumberToFind = 0 then Some HintIndex
          else
            (let loop = find_bits_loop (<) (RtlpGetLengthOfRunSet bm) (RtlpGetLengthOfRunClear bm)
                          NumberToFind
             in case loop (SizeOfBitMap bm) HintIndex of
                  None \<Rightarrow> None
                | Some (Some CurrentBit) \<Rightarrow> Some CurrentBit
                | Some None \<Rightarrow>
                    if HintIndex \<noteq> 0 then
                      (case loop (min (HintIndex + NumberToFind) (SizeOfBitMap bm)) 0 of
                         None \<Rightarrow> None
                       | Some (Some CurrentBit) \<Rightarrow> Some CurrentBit
                       | Some None \<Rightarrow> Some MAXULONG)
                    else Some MAXULONG))"

definition RtlFindSetBits :: "RTL_BITMAP option \<Rightarrow> ULONG \<Rightarrow> ULONG \<Rightarrow> ULONG option" where
  "RtlFindSetBits BitMapHeader NumberToFind HintIndex =
     (case BitMapHeader of
        None \<Rightarrow> Some MAXULONG
      | Some bm \<Rightarrow>
          if NumberToFind > SizeOfBitMap bm then Some MAXULONG
          else if NumberToFind = 0 then Some HintIndex
          else
            (let loop = find_bits_loop (\<le>) (RtlpGetLengthOfRunClear bm) (RtlpGetLengthOfRunSet bm)
                          NumberToFind
             in case loop (SizeOfBitMap bm) HintIndex of
                  None \<Rightarrow> None
                | Some (Some CurrentBit) \<Rightarrow> Some CurrentBit
                | Some None \<Rightarrow>
                    if HintIndex \<noteq> 0 then
                      (case loop (min (HintIndex + NumberToFind) (SizeOfBitMap bm)) 0 of
                         None \<Rightarrow> None
                       | Some (Some CurrentBit) \<Rightarrow> Some CurrentBit
                       | Some None \<Rightarrow> Some MAXULONG)
                    else Some MAXULONG))"

text \<open>The combined operations return the bitmap after the call with the position.\<close>

definition RtlFindClearBitsAndSet ::
  "RTL_BITMAP option \<Rightarrow> ULONG \<Rightarrow> ULONG \<Rightarrow> (RTL_BITMAP option \<times> ULONG) option" where
  "RtlFindClearBitsAndSet BitMapHeader NumberToFind HintIndex =
     (case RtlFindClearBits BitMapHeader NumberToFind HintIndex of
        None \<Rightarrow> None
      | Some Position \<Rightarrow>
          Some (if Position \<noteq> MAXULONG
                then map_option (\<lambda>bm. RtlSetBits bm Position NumberToFind) BitMapHeader
                else BitMapHeader, Position))"

definition RtlFindSetBitsAndClear ::
  "RTL_BITMAP option \<Rightarrow> ULONG \<Rightarrow> ULONG \<Rightarrow> (RTL_BITMAP option \<times> ULONG) option" where
  "RtlFindSetBitsAndClear BitMapHeader NumberToFind HintIndex =
     (case RtlFindSetBits BitMapHeader NumberToFind HintIndex of
        None \<Rightarrow> None
      | Some Position \<Rightarrow>
          Some (if Position \<noteq> MAXULONG
                then map_option (\<lambda>bm. RtlClearBits bm Position NumberToFind) BitMapHeader
                else BitMapHeader, Position))"

text \<open>
  The run enumerators return the length of the run and, in place of the
  \<open>StartingRunIndex\<close> out parameter, its start.
\<close>

definition RtlFindNextForwardRunClear :: "RTL_BITMAP \<Rightarrow> ULONG \<Rightarrow> ULONG \<times> ULONG" where
  "RtlFindNextForwardRunClear BitMapHeader FromIndex =
     (let Length = RtlpGetLengthOfRunSet BitMapHeader FromIndex MAXULONG
      in (RtlpGetLengthOfRunClear BitMapHeader (FromIndex + Length) MAXULONG, FromIndex + Length))"

definition RtlFindNextForwardRunSet :: "RTL_BITMAP \<Rightarrow> ULONG \<Rightarrow> ULONG \<times> ULONG" where
  "RtlFindNextForwardRunSet BitMapHeader FromIndex =
     (let Length = RtlpGetLengthOfRunClear BitMapHeader FromIndex MAXULONG
      in (RtlpGetLengthOfRunSet BitMapHeader FromIndex MAXULONG, FromIndex + Length))"

definition RtlFindFirstRunClear :: "RTL_BITMAP \<Rightarrow> ULONG \<times> ULONG" where
  "RtlFindFirstRunClear BitMapHeader = RtlFindNextForwardRunClear BitMapHeader 0"

text \<open>
  \<open>RtlFindClearRuns\<close>: the loop that fills the array in order, the loop that
  replaces the smallest run by longer ones, and the routine. \<open>RunArray\<close> is the
  caller's memory. The first loop returns the array, \<open>Run\<close>, \<open>FromIndex\<close> and
  \<open>SmallestRun\<close>.
\<close>

fun find_runs_fill ::
  "RTL_BITMAP \<Rightarrow> nat \<Rightarrow> (nat \<Rightarrow> RTL_BITMAP_RUN) \<Rightarrow> nat \<Rightarrow> ULONG \<Rightarrow> nat \<Rightarrow>
     (nat \<Rightarrow> RTL_BITMAP_RUN) \<times> nat \<times> ULONG \<times> nat" where
  "find_runs_fill BitMapHeader 0 RunArray Run FromIndex SmallestRun =
     (RunArray, Run, FromIndex, SmallestRun)"
| "find_runs_fill BitMapHeader (Suc left) RunArray Run FromIndex SmallestRun =
     (let (Number, Start) = RtlFindNextForwardRunClear BitMapHeader FromIndex
      in if Number = 0 then (RunArray, Run, FromIndex, SmallestRun)
         else
           (let RunArray = RunArray(Run := \<lparr>StartingIndex = Start, NumberOfBits = Number\<rparr>);
                SmallestRun = (if Number < NumberOfBits (RunArray SmallestRun) then Run
                               else SmallestRun)
            in find_runs_fill BitMapHeader left RunArray (Suc Run) (Start + Number) SmallestRun))"

fun find_smallest_run :: "(nat \<Rightarrow> RTL_BITMAP_RUN) \<Rightarrow> ULONG \<Rightarrow> nat list \<Rightarrow> nat \<Rightarrow> nat" where
  "find_smallest_run RunArray Number [] SmallestRun = SmallestRun"
| "find_smallest_run RunArray Number (Run # Runs) SmallestRun =
     find_smallest_run RunArray Number Runs
       (if Number < NumberOfBits (RunArray SmallestRun) then Run else SmallestRun)"

partial_function (option) find_runs_replace ::
  "RTL_BITMAP \<Rightarrow> nat \<Rightarrow> (nat \<Rightarrow> RTL_BITMAP_RUN) \<Rightarrow> nat \<Rightarrow> ULONG \<Rightarrow> nat \<Rightarrow>
     ((nat \<Rightarrow> RTL_BITMAP_RUN) \<times> nat) option" where
  "find_runs_replace BitMapHeader SizeOfRunArray RunArray Run FromIndex SmallestRun =
     (let (Number, Start) = RtlFindNextForwardRunClear BitMapHeader FromIndex
      in if Number = 0 then Some (RunArray, Run)
         else if Number > NumberOfBits (RunArray SmallestRun) then
           (let RunArray = RunArray(SmallestRun := \<lparr>StartingIndex = Start, NumberOfBits = Number\<rparr>);
                SmallestRun = find_smallest_run RunArray Number [0..<SizeOfRunArray] SmallestRun
            in find_runs_replace BitMapHeader SizeOfRunArray RunArray SizeOfRunArray
                 (FromIndex + Number) SmallestRun)
         else
           find_runs_replace BitMapHeader SizeOfRunArray RunArray Run
             (FromIndex + Number) SmallestRun)"

definition RtlFindClearRuns ::
  "RTL_BITMAP \<Rightarrow> (nat \<Rightarrow> RTL_BITMAP_RUN) \<Rightarrow> ULONG \<Rightarrow> bool \<Rightarrow>
     ((nat \<Rightarrow> RTL_BITMAP_RUN) \<times> nat) option" where
  "RtlFindClearRuns BitMapHeader RunArray SizeOfRunArray LocateLongestRuns =
     (let (RunArray, Run, FromIndex, SmallestRun) =
            find_runs_fill BitMapHeader (unat SizeOfRunArray) RunArray 0 0 0
      in if Run < unat SizeOfRunArray \<or> \<not> LocateLongestRuns then Some (RunArray, Run)
         else find_runs_replace BitMapHeader (unat SizeOfRunArray) RunArray Run FromIndex SmallestRun)"

text \<open>
  The longest-run loops; \<open>next_run\<close> is the enumerator of the wanted colour. The
  result is the length and the value of \<open>*StartingIndex\<close>, which keeps what the
  caller had stored when no run is found.
\<close>

partial_function (option) longest_run_loop ::
  "(ULONG \<Rightarrow> ULONG \<times> ULONG) \<Rightarrow> ULONG \<Rightarrow> ULONG \<Rightarrow> ULONG \<Rightarrow> (ULONG \<times> ULONG) option" where
  "longest_run_loop next_run MaxNumberOfBits Start FromIndex =
     (let (Number, Index) = next_run FromIndex
      in if Number = 0 then Some (MaxNumberOfBits, Start)
         else if Number > MaxNumberOfBits then
           longest_run_loop next_run Number Index (FromIndex + Number)
         else longest_run_loop next_run MaxNumberOfBits Start (FromIndex + Number))"

definition RtlFindLongestRunClear :: "RTL_BITMAP \<Rightarrow> ULONG \<Rightarrow> (ULONG \<times> ULONG) option" where
  "RtlFindLongestRunClear BitMapHeader Start =
     longest_run_loop (RtlFindNextForwardRunClear BitMapHeader) 0 Start 0"

definition RtlFindLongestRunSet :: "RTL_BITMAP \<Rightarrow> ULONG \<Rightarrow> (ULONG \<times> ULONG) option" where
  "RtlFindLongestRunSet BitMapHeader Start =
     longest_run_loop (RtlFindNextForwardRunSet BitMapHeader) 0 Start 0"

section \<open>The bits of a bitmap\<close>

text \<open>
  \<open>bitmap_bit\<close> is bit \<open>i\<close> of the bitmap. \<open>bitmap_ok\<close> bounds the size at
  \<open>2 ^ 31\<close> bits (256 megabytes of bitmap), below which no index computation of
  the package wraps around.
\<close>

definition bitmap_bit :: "RTL_BITMAP \<Rightarrow> nat \<Rightarrow> bool" where
  "bitmap_bit bm i \<longleftrightarrow> bit (Buffer bm (i div 32)) (i mod 32)"

definition bitmap_ok :: "RTL_BITMAP \<Rightarrow> bool" where
  "bitmap_ok bm \<longleftrightarrow> unat (SizeOfBitMap bm) < 2147483648"

subsection \<open>Writing ranges\<close>

lemma bitmap_bit_update_ulong:
  "bitmap_bit (update_ulong bm k f) i =
     (if i div 32 = k then bit (f (Buffer bm k)) (i mod 32) else bitmap_bit bm i)"
  by (simp add: bitmap_bit_def update_ulong_def)

lemma SizeOfBitMap_update_ulong [simp]: "SizeOfBitMap (update_ulong bm k f) = SizeOfBitMap bm"
  by (simp add: update_ulong_def)

lemma bitmap_bit_fill:
  "bitmap_bit (bm\<lparr>Buffer := RtlFillMemoryUlong (Buffer bm) B (drop_bit 3 n) v\<rparr>) i =
     (if B \<le> i div 32 \<and> i div 32 < B + unat n div 32 then bit v (i mod 32) else bitmap_bit bm i)"
  by (simp add: bitmap_bit_def RtlFillMemoryUlong_eq unat_drop_bit_3 div_mult2_eq [symmetric])

lemma in_aligned_range:
  "32 * B \<le> i \<and> i < 32 * B + n \<longleftrightarrow>
     (B \<le> i div 32 \<and> i div 32 < B + n div 32 \<or> i div 32 = B + n div 32 \<and> i mod 32 < n mod 32)"
  for i B n :: nat
proof -
  have n: "n = 32 * (n div 32) + n mod 32" and i: "i = 32 * (i div 32) + i mod 32"
    and m: "n mod 32 < 32" "i mod 32 < 32"
    by simp_all
  define N I c d where "N = n div 32" and "I = i div 32" and "c = n mod 32" and "d = i mod 32"
  have "n = 32 * N + c" "i = 32 * I + d" "c < 32" "d < 32"
    using n i m by (simp_all add: N_def I_def c_def d_def)
  then show ?thesis
    unfolding N_def [symmetric] I_def [symmetric] c_def [symmetric] d_def [symmetric] by auto
qed

lemma bitmap_bit_set_aligned:
  "bitmap_bit (set_aligned bm B n) i \<longleftrightarrow> bitmap_bit bm i \<or> 32 * B \<le> i \<and> i < 32 * B + unat n"
  unfolding in_aligned_range
  by (auto simp: set_aligned_def Let_def bitmap_bit_update_ulong unat_drop_bit_5 unat_and_31
      word_bits bitmap_bit_fill RtlFillMemoryUlong_eq unat_drop_bit_3 div_mult2_eq [symmetric])
    (auto simp: bitmap_bit_def)

lemma bitmap_bit_clear_aligned:
  "bitmap_bit (clear_aligned bm B n) i \<longleftrightarrow> bitmap_bit bm i \<and> \<not> (32 * B \<le> i \<and> i < 32 * B + unat n)"
  unfolding in_aligned_range
  by (auto simp: clear_aligned_def Let_def bitmap_bit_update_ulong unat_drop_bit_5 unat_and_31
      word_bits bitmap_bit_fill RtlFillMemoryUlong_eq unat_drop_bit_3 div_mult2_eq [symmetric])
    (auto simp: bitmap_bit_def)

lemma unat_32_minus: "unat (32 - (s AND 31) :: ULONG) = 32 - unat s mod 32"
  by (simp add: unat_sub_small unat_and_31 less_imp_le)

lemma unaligned_iff: "(s AND 31 :: ULONG) \<noteq> 0 \<longleftrightarrow> unat s mod 32 \<noteq> 0"
  by (simp add: unat_and_31 unat_eq_zero [symmetric] del: unat_eq_zero)

lemma in_unaligned_range:
  fixes s n i :: nat
  assumes "n < 32 - s mod 32"
  shows "s \<le> i \<and> i < s + n \<longleftrightarrow> i div 32 = s div 32 \<and> s mod 32 \<le> i mod 32 \<and>
    i mod 32 + (32 - s mod 32 - n) < 32"
proof -
  define S I c d where "S = s div 32" and "I = i div 32" and "c = s mod 32" and "d = i mod 32"
  have "s = 32 * S + c" "i = 32 * I + d" "c < 32" "d < 32"
    by (simp_all add: S_def I_def c_def d_def)
  then show ?thesis
    using assms unfolding S_def [symmetric] I_def [symmetric] c_def [symmetric] d_def [symmetric]
    by (cases S I rule: linorder_cases) auto
qed

lemma in_head_range:
  fixes s n i :: nat
  assumes "32 - s mod 32 \<le> n"
  shows "s \<le> i \<and> i < s + n \<longleftrightarrow> i div 32 = s div 32 \<and> s mod 32 \<le> i mod 32 \<or>
    32 * Suc (s div 32) \<le> i \<and> i < 32 * Suc (s div 32) + (n - (32 - s mod 32))"
proof -
  define S I c d where "S = s div 32" and "I = i div 32" and "c = s mod 32" and "d = i mod 32"
  have "s = 32 * S + c" "i = 32 * I + d" "c < 32" "d < 32"
    by (simp_all add: S_def I_def c_def d_def)
  then show ?thesis
    using assms unfolding S_def [symmetric] I_def [symmetric] c_def [symmetric] d_def [symmetric]
    by (cases S I rule: linorder_cases) auto
qed

lemma bitmap_bit_RtlSetBits:
  "bitmap_bit (RtlSetBits bm s n) i \<longleftrightarrow> bitmap_bit bm i \<or> unat s \<le> i \<and> i < unat s + unat n"
proof (cases "unat s mod 32 = 0")
  case True
  then have "32 * (unat s div 32) = unat s" by auto
  with True show ?thesis
    by (simp add: RtlSetBits_def Let_def unaligned_iff bitmap_bit_set_aligned unat_drop_bit_5)
next
  case False
  note lets = RtlSetBits_def Let_def unaligned_iff unat_drop_bit_5 bitmap_bit_update_ulong
    unat_and_31 word_bits word_less_nat_alt unat_32_minus
  show ?thesis
  proof (cases "unat n < 32 - unat s mod 32")
    case True
    with False show ?thesis
      unfolding in_unaligned_range [OF True]
      by (auto simp: lets unat_sub_small diff_diff_left [symmetric]
          simp del: push_bit_push_bit diff_diff_left) (auto simp: bitmap_bit_def)
  next
    case ge: False
    then have "32 - unat s mod 32 \<le> unat n" by simp
    from False ge show ?thesis
      unfolding in_head_range [OF \<open>32 - unat s mod 32 \<le> unat n\<close>]
      by (auto simp: lets unat_sub_small bitmap_bit_set_aligned) (auto simp: bitmap_bit_def)
  qed
qed

lemma bitmap_bit_RtlClearBits:
  "bitmap_bit (RtlClearBits bm s n) i \<longleftrightarrow> bitmap_bit bm i \<and> \<not> (unat s \<le> i \<and> i < unat s + unat n)"
proof (cases "unat s mod 32 = 0")
  case True
  then have "32 * (unat s div 32) = unat s" by auto
  with True show ?thesis
    by (simp add: RtlClearBits_def Let_def unaligned_iff bitmap_bit_clear_aligned unat_drop_bit_5)
next
  case False
  note lets = RtlClearBits_def Let_def unaligned_iff unat_drop_bit_5 bitmap_bit_update_ulong
    unat_and_31 word_bits word_less_nat_alt unat_32_minus
  show ?thesis
  proof (cases "unat n < 32 - unat s mod 32")
    case True
    with False show ?thesis
      unfolding in_unaligned_range [OF True]
      by (auto simp: lets unat_sub_small diff_diff_left [symmetric]
          simp del: push_bit_push_bit diff_diff_left) (auto simp: bitmap_bit_def)
  next
    case ge: False
    then have "32 - unat s mod 32 \<le> unat n" by simp
    from False ge show ?thesis
      unfolding in_head_range [OF \<open>32 - unat s mod 32 \<le> unat n\<close>]
      by (auto simp: lets unat_sub_small bitmap_bit_clear_aligned) (auto simp: bitmap_bit_def)
  qed
qed

subsection \<open>Measuring runs\<close>

lemma BitScanForward_None: "BitScanForward v = None \<longleftrightarrow> v = 0"
  unfolding BitScanForward_def find_upt_None ULONG_eq_0_iff ..

lemma BitScanForward_Some:
  "BitScanForward v = Some p \<longleftrightarrow> p < 32 \<and> bit v p \<and> (\<forall>q<p. \<not> bit v q)"
  unfolding BitScanForward_def find_upt_Some ..

lemma BitScanReverse_None: "BitScanReverse v = None \<longleftrightarrow> v = 0"
  unfolding BitScanReverse_def find_rev_upt_None ULONG_eq_0_iff ..

lemma BitScanReverse_Some:
  "BitScanReverse v = Some p \<longleftrightarrow> p < 32 \<and> bit v p \<and> (\<forall>q>p. \<not> bit v q)"
proof -
  have "bit v q \<Longrightarrow> q < 32" for q
    using bit_imp_le_length [of v q] by simp
  then show ?thesis
    unfolding BitScanReverse_def find_rev_upt_Some by blast
qed

lemma skip_ulongs_spec:
  assumes "skip_ulongs rd i mx v = (v', j)"
  shows "i \<le> j" "v \<noteq> 0 \<Longrightarrow> j = i" "j = i \<Longrightarrow> v' = v" "i < j \<Longrightarrow> v' = rd (j - 1)"
    "\<forall>k. i \<le> k \<and> k < j - 1 \<longrightarrow> rd k = 0" "v' = 0 \<Longrightarrow> mx \<le> j"
    "j \<le> max i mx"
proof -
  have "i \<le> j \<and> (v \<noteq> 0 \<longrightarrow> j = i) \<and> (j = i \<longrightarrow> v' = v) \<and> (i < j \<longrightarrow> v' = rd (j - 1)) \<and>
    (\<forall>k. i \<le> k \<and> k < j - 1 \<longrightarrow> rd k = 0) \<and> (v' = 0 \<longrightarrow> mx \<le> j) \<and> j \<le> max i mx"
    using assms
  proof (induction rd i mx v rule: skip_ulongs.induct)
    case (1 rd i mx v)
    show ?case
    proof (cases "v = 0 \<and> i < mx")
      case True
      with "1.prems" have eq: "skip_ulongs rd (Suc i) mx (rd i) = (v', j)"
        by (simp add: skip_ulongs.simps [of rd i])
      note IH = "1.IH" [OF True eq]
      from IH have ij: "Suc i \<le> j" and b: "rd i \<noteq> 0 \<longrightarrow> j = Suc i" and c: "j = Suc i \<longrightarrow> v' = rd i"
        and d: "Suc i < j \<longrightarrow> v' = rd (j - 1)" and e: "\<forall>k. Suc i \<le> k \<and> k < j - 1 \<longrightarrow> rd k = 0"
        and f: "v' = 0 \<longrightarrow> mx \<le> j" and g: "j \<le> max (Suc i) mx"
        by blast+
      have 1: "rd k = 0" if "i \<le> k" "k < j - 1" for k
      proof (cases "k = i")
        case True with that ij b show ?thesis by auto
      next
        case False with that e show ?thesis by auto
      qed
      have 2: "v' = rd (j - 1)"
      proof (cases "j = Suc i")
        case True with c show ?thesis by simp
      next
        case False with ij d show ?thesis by auto
      qed
      show ?thesis
        using 1 2 ij True f g by simp
    next
      case False
      with "1.prems" have "v' = v" "j = i"
        by (simp_all add: skip_ulongs.simps [of rd i])
      with False show ?thesis by auto
    qed
  qed
  then show "i \<le> j" "v \<noteq> 0 \<Longrightarrow> j = i" "j = i \<Longrightarrow> v' = v" "i < j \<Longrightarrow> v' = rd (j - 1)"
    "\<forall>k. i \<le> k \<and> k < j - 1 \<longrightarrow> rd k = 0" "v' = 0 \<Longrightarrow> mx \<le> j"
    "j \<le> max i mx"
    by blast+
qed

text \<open>
  Both scanners are one computation: the scanner for set bits reads the
  complemented words.
\<close>

definition run_core :: "(nat \<Rightarrow> ULONG) \<Rightarrow> ULONG \<Rightarrow> ULONG \<Rightarrow> ULONG \<Rightarrow> ULONG" where
  "run_core rd sz Start MaxLength =
     (let Buf = unat (Start div 32);
          BitPos = Start AND 31;
          MaxLength = min MaxLength (sz - Start);
          MaxBuffer = Buf + unat ((BitPos + MaxLength + 31) div 32);
          Value = push_bit (unat BitPos) (drop_bit (unat BitPos) (rd Buf));
          (Value, Buf) = skip_ulongs rd (Suc Buf) MaxBuffer Value
      in case BitScanForward Value of
           None \<Rightarrow> MaxLength
         | Some pos \<Rightarrow>
             let Length = of_nat Buf * 32 - Start;
                 Length = Length + (of_nat pos - 32)
             in if Length > sz - Start then sz - Start else Length)"

lemma run_clear_core: "RtlpGetLengthOfRunClear bm = run_core (Buffer bm) (SizeOfBitMap bm)"
  by (intro ext) (simp only: RtlpGetLengthOfRunClear_def run_core_def)

lemma run_set_core: "RtlpGetLengthOfRunSet bm = run_core (\<lambda>i. NOT (Buffer bm i)) (SizeOfBitMap bm)"
  by (intro ext) (simp only: RtlpGetLengthOfRunSet_def run_core_def)

lemma skip_ulongs_bits:
  fixes rd :: "nat \<Rightarrow> ULONG"
  assumes sk: "skip_ulongs rd (Suc W) mx (push_bit b (drop_bit b (rd W))) = (v', j)"
    and b: "b < 32"
  shows "32 * W + b \<le> p \<Longrightarrow> p < 32 * (j - 1) \<Longrightarrow> \<not> bit (rd (p div 32)) (p mod 32)"
    and "32 * W + b \<le> p \<Longrightarrow> p div 32 = j - 1 \<Longrightarrow>
      bit (rd (p div 32)) (p mod 32) \<longleftrightarrow> bit v' (p mod 32)"
    and "n < 32 \<Longrightarrow> bit v' n \<Longrightarrow> 32 * W + b \<le> 32 * (j - 1) + n"
proof -
  note F = skip_ulongs_spec [OF sk]
  have v0: "bit (push_bit b (drop_bit b (rd W))) n \<longleftrightarrow> b \<le> n \<and> bit (rd W) n" if "n < 32" for n
    using that by (rule bit_align_low)
  show "\<not> bit (rd (p div 32)) (p mod 32)" if p: "32 * W + b \<le> p" "p < 32 * (j - 1)"
  proof (cases "p div 32 = W")
    case True
    with p have "W < j - 1" by auto
    then have "push_bit b (drop_bit b (rd W)) = 0"
      using F(2) by (cases "push_bit b (drop_bit b (rd W)) = 0") auto
    then have "\<not> bit (push_bit b (drop_bit b (rd W))) (p mod 32)" by simp
    moreover have "b \<le> p mod 32"
      using p(1) split_32 [of p] unfolding True by linarith
    ultimately show ?thesis using v0 [of "p mod 32"] True by simp
  next
    case False
    moreover have "p div 32 < j - 1"
      using p(2) split_32 [of p] by linarith
    moreover have "W \<le> p div 32"
      using p(1) split_32 [of p] by auto
    ultimately have "Suc W \<le> p div 32" "p div 32 < j - 1" by linarith+
    then show ?thesis using F(5) by auto
  qed
  show "bit (rd (p div 32)) (p mod 32) \<longleftrightarrow> bit v' (p mod 32)"
    if p: "32 * W + b \<le> p" "p div 32 = j - 1"
  proof (cases "j = Suc W")
    case True
    then have "v' = push_bit b (drop_bit b (rd W))" using F(3) by simp
    moreover have "b \<le> p mod 32"
      using p(1) split_32 [of p] unfolding p(2) True by simp
    ultimately show ?thesis using v0 [of "p mod 32"] p True by simp
  next
    case False
    then show ?thesis using F(1,4) p by simp
  qed
  show "32 * W + b \<le> 32 * (j - 1) + n" if n: "n < 32" "bit v' n"
  proof (cases "j = Suc W")
    case True
    then show ?thesis using F(3) v0 [OF n(1)] n by simp
  next
    case False
    then show ?thesis using F(1) b by auto
  qed
qed
lemma unat_mask_shift_sum:
  assumes "unat (s :: ULONG) \<le> unat sz" "unat sz < 4294967232"
  shows "unat (((s AND 31) + min m (sz - s) + 31) div 32) =
    (unat s mod 32 + min (unat m) (unat sz - unat s) + 31) div 32"
proof -
  have sub: "unat (sz - s) = unat sz - unat s"
    using assms(1) by (rule unat_sub_small)
  have L: "unat (min m (sz - s)) = min (unat m) (unat sz - unat s)"
    by (simp add: unat_min_word sub)
  have "unat ((s AND 31) + min m (sz - s)) = unat s mod 32 + min (unat m) (unat sz - unat s)"
    using assms by (subst unat_add_small) (auto simp: unat_and_31 L)
  then have "unat ((s AND 31) + min m (sz - s) + 31) =
      unat s mod 32 + min (unat m) (unat sz - unat s) + 31"
    using assms by (subst unat_add_small) auto
  then show ?thesis by (simp add: unat_div_32)
qed

lemma run_length_word:
  assumes "unat (s :: ULONG) \<le> 32 * (j - 1) + pos" "32 * (j - 1) + pos < 4294967296" "0 < j"
  shows "unat (of_nat j * 32 - s + (of_nat pos - 32) :: ULONG) = 32 * (j - 1) + pos - unat s"
proof -
  obtain k where k: "j = Suc k"
    using assms(3) gr0_implies_Suc by blast
  have "of_nat j * 32 - s + (of_nat pos - 32) = (of_nat (32 * (j - 1) + pos) :: ULONG) - s"
    by (simp add: k algebra_simps)
  moreover have "unat (of_nat (32 * (j - 1) + pos) :: ULONG) = 32 * (j - 1) + pos"
    using assms(2) by (simp add: unat_of_nat del: of_nat_add of_nat_mult)
  ultimately show ?thesis
    using assms(1) by (simp only: unat_sub_small)
qed

lemma scan_none:
  fixes rd :: "nat \<Rightarrow> ULONG"
  assumes sk: "skip_ulongs rd (Suc W) mx (push_bit b (drop_bit b (rd W))) = (0, j)"
    and b: "b < 32" and p: "32 * W + b \<le> p" "p < 32 * j"
  shows "\<not> bit (rd (p div 32)) (p mod 32)"
proof (cases "p < 32 * (j - 1)")
  case True
  with skip_ulongs_bits(1) [OF sk b p(1)] show ?thesis by blast
next
  case False
  with p(2) skip_ulongs_spec(1) [OF sk] have "p div 32 = j - 1" by auto
  then show ?thesis using skip_ulongs_bits(2) [OF sk b p(1)] by simp
qed

lemma scan_some:
  fixes rd :: "nat \<Rightarrow> ULONG"
  assumes sk: "skip_ulongs rd (Suc W) mx (push_bit b (drop_bit b (rd W))) = (v', j)"
    and b: "b < 32" and pos: "BitScanForward v' = Some pos"
  shows "32 * W + b \<le> 32 * (j - 1) + pos"
    and "bit (rd ((32 * (j - 1) + pos) div 32)) ((32 * (j - 1) + pos) mod 32)"
    and "32 * W + b \<le> p \<Longrightarrow> p < 32 * (j - 1) + pos \<Longrightarrow> \<not> bit (rd (p div 32)) (p mod 32)"
proof -
  note B = skip_ulongs_bits [OF sk b]
  have P: "pos < 32" "bit v' pos" "\<forall>q<pos. \<not> bit v' q"
    using pos by (simp_all add: BitScanForward_Some)
  show le: "32 * W + b \<le> 32 * (j - 1) + pos"
    using B(3) P by blast
  show "bit (rd ((32 * (j - 1) + pos) div 32)) ((32 * (j - 1) + pos) mod 32)"
    using B(2) [OF le] P by simp
  show "\<not> bit (rd (p div 32)) (p mod 32)" if p: "32 * W + b \<le> p" "p < 32 * (j - 1) + pos"
  proof (cases "p < 32 * (j - 1)")
    case True with p B(1) show ?thesis by blast
  next
    case False
    then have pd: "p div 32 = j - 1"
      using p(2) P(1) by auto
    have "p mod 32 < pos"
      using p(2) split_32 [of p] unfolding pd by linarith
    then show ?thesis using B(2) p(1) pd P(3) by simp
  qed
qed

text \<open>The contract of the run scanners, for the bits that are off in \<open>rd\<close>.\<close>

lemma run_core_spec:
  fixes rd :: "nat \<Rightarrow> ULONG" and s sz m :: ULONG
  defines "r \<equiv> unat (run_core rd sz s m)"
  assumes s: "unat s \<le> unat sz" and sz: "unat sz < 4294967232"
  shows "r \<le> unat sz - unat s \<and>
    (\<forall>i<r. \<not> bit (rd ((unat s + i) div 32)) ((unat s + i) mod 32)) \<and>
    (r < unat m \<longrightarrow> r < unat sz - unat s \<longrightarrow> bit (rd ((unat s + r) div 32)) ((unat s + r) mod 32))"
proof -
  define W b L where "W = unat s div 32" and "b = unat s mod 32"
    and "L = min (unat m) (unat sz - unat s)"
  have Wb: "32 * W + b = unat s" and b32: "b < 32"
    by (simp_all add: W_def b_def)
  have szs: "unat (sz - s) = unat sz - unat s"
    using s by (rule unat_sub_small)
  obtain v' j where sk: "skip_ulongs rd (Suc W) (W + (b + L + 31) div 32)
      (push_bit b (drop_bit b (rd W))) = (v', j)"
    by fastforce
  note F = skip_ulongs_spec [OF sk]
  have core: "run_core rd sz s m = (case BitScanForward v' of None \<Rightarrow> min m (sz - s)
      | Some pos \<Rightarrow> let Length = of_nat j * 32 - s + (of_nat pos - 32)
          in if Length > sz - s then sz - s else Length)"
    using sk unat_mask_shift_sum [OF s sz, of m]
    by (simp add: run_core_def Let_def unat_and_31 unat_div_32 W_def b_def L_def split: option.split)
  show ?thesis
  proof (cases "BitScanForward v'")
    case None
    then have v0: "v' = 0" by (simp add: BitScanForward_None)
    from None have r: "r = L" by (simp add: r_def core unat_min_word szs L_def)
    have "unat s + L \<le> 32 * j"
      using F(6) [OF v0] Wb by auto
    with r show ?thesis
      using scan_none [OF sk [unfolded v0] b32, unfolded Wb] by (auto simp: L_def)
  next
    case (Some pos)
    define p0 where "p0 = 32 * (j - 1) + pos"
    note S = scan_some [OF sk b32 Some, unfolded Wb, folded p0_def]
    have "32 * j \<le> unat sz + 63"
      using F(7) Wb b32 s by (auto simp: L_def)
    then have "p0 < 4294967296"
      using sz Some F(1) by (auto simp: p0_def BitScanForward_Some)
    then have len: "unat (of_nat j * 32 - s + (of_nat pos - 32) :: ULONG) = p0 - unat s"
      using run_length_word [of s j pos] S(1) F(1) by (simp add: p0_def)
    have "r = min (p0 - unat s) (unat sz - unat s)"
      by (auto simp: r_def core Some Let_def len szs word_less_nat_alt)
    then show ?thesis
      using S by (auto simp: min_def)
  qed
qed

end
