(* ===== verification/Rtl_Bitmap_Search.thy ===== *)
theory Rtl_Bitmap_Search
  imports Rtl_Bitmap
begin

text \<open>
  What the searches of \<open>lib/rtl/bitmap.c\<close> promise. The run scanners meet one
  contract, the locale \<open>run_scanner\<close>; the search loops are verified once against
  a pair of scanners of opposite colour, the locale \<open>run_search\<close>, and
  interpreted for both colours.
\<close>

section \<open>The contract of a run scanner\<close>

locale run_scanner =
  fixes hit :: "RTL_BITMAP \<Rightarrow> nat \<Rightarrow> bool"
    and run :: "RTL_BITMAP \<Rightarrow> ULONG \<Rightarrow> ULONG \<Rightarrow> ULONG"
  assumes run_le: "bitmap_ok bm \<Longrightarrow> unat s \<le> unat (SizeOfBitMap bm) \<Longrightarrow>
      unat s + unat (run bm s m) \<le> unat (SizeOfBitMap bm)"
    and run_hit: "bitmap_ok bm \<Longrightarrow> unat s \<le> unat (SizeOfBitMap bm) \<Longrightarrow>
      unat s \<le> p \<Longrightarrow> p < unat s + unat (run bm s m) \<Longrightarrow> hit bm p"
    and run_stop: "bitmap_ok bm \<Longrightarrow> unat s \<le> unat (SizeOfBitMap bm) \<Longrightarrow>
      unat (run bm s m) < unat m \<Longrightarrow> unat s + unat (run bm s m) < unat (SizeOfBitMap bm) \<Longrightarrow>
      \<not> hit bm (unat s + unat (run bm s m))"
begin

lemma unat_after_run:
  assumes "bitmap_ok bm" "unat s \<le> unat (SizeOfBitMap bm)"
  shows "unat (s + run bm s m) = unat s + unat (run bm s m)"
  using run_le [OF assms, of m] assms(1) by (simp add: unat_add_small bitmap_ok_def)

lemma run_reaches_iff:
  assumes ok: "bitmap_ok bm" "unat s + unat m \<le> unat (SizeOfBitMap bm)"
  shows "m \<le> run bm s m \<longleftrightarrow> (\<forall>p. unat s \<le> p \<and> p < unat s + unat m \<longrightarrow> hit bm p)"
proof
  have s: "unat s \<le> unat (SizeOfBitMap bm)" using ok by simp
  show "\<forall>p. unat s \<le> p \<and> p < unat s + unat m \<longrightarrow> hit bm p" if "m \<le> run bm s m"
    using run_hit [OF ok(1) s, of _ m] that by (fastforce simp: word_le_nat_alt)
  show "m \<le> run bm s m" if all: "\<forall>p. unat s \<le> p \<and> p < unat s + unat m \<longrightarrow> hit bm p"
  proof (rule ccontr)
    assume "\<not> m \<le> run bm s m"
    then have lt: "unat (run bm s m) < unat m" by (simp add: word_le_nat_alt)
    then have "\<not> hit bm (unat s + unat (run bm s m))"
      using run_stop [OF ok(1) s, of m] ok(2) by linarith
    then show False using all lt by simp
  qed
qed

lemma maximal_run_stop:
  assumes "bitmap_ok bm" "unat s \<le> unat (SizeOfBitMap bm)"
    and "unat s + unat (run bm s MAXULONG) < unat (SizeOfBitMap bm)"
  shows "\<not> hit bm (unat s + unat (run bm s MAXULONG))"
  using run_stop [OF assms(1,2), of MAXULONG] assms(1,3) by (simp add: bitmap_ok_def)

end

interpretation clear_run: run_scanner "\<lambda>bm p. \<not> bitmap_bit bm p" RtlpGetLengthOfRunClear
proof
  fix bm :: RTL_BITMAP and s m :: ULONG and p :: nat
  assume ok: "bitmap_ok bm" and s: "unat s \<le> unat (SizeOfBitMap bm)"
  have sz: "unat (SizeOfBitMap bm) < 4294967232"
    using ok by (simp add: bitmap_ok_def)
  note spec = run_core_spec [OF s sz, of "Buffer bm" m, folded run_clear_core bitmap_bit_def]
  show "unat s + unat (RtlpGetLengthOfRunClear bm s m) \<le> unat (SizeOfBitMap bm)"
    using spec s by auto
  show "\<not> bitmap_bit bm p" if "unat s \<le> p" "p < unat s + unat (RtlpGetLengthOfRunClear bm s m)"
    using spec that by (metis add.commute le_add_diff_inverse less_diff_conv2)
  show "\<not> \<not> bitmap_bit bm (unat s + unat (RtlpGetLengthOfRunClear bm s m))"
    if "unat (RtlpGetLengthOfRunClear bm s m) < unat m"
      "unat s + unat (RtlpGetLengthOfRunClear bm s m) < unat (SizeOfBitMap bm)"
    using spec that by auto
qed

lemma bit_NOT_Buffer: "bit (NOT (Buffer bm (p div 32))) (p mod 32) \<longleftrightarrow> \<not> bitmap_bit bm p"
  by (simp add: bitmap_bit_def word_bits)

interpretation set_run: run_scanner bitmap_bit RtlpGetLengthOfRunSet
proof
  fix bm :: RTL_BITMAP and s m :: ULONG and p :: nat
  assume ok: "bitmap_ok bm" and s: "unat s \<le> unat (SizeOfBitMap bm)"
  have sz: "unat (SizeOfBitMap bm) < 4294967232"
    using ok by (simp add: bitmap_ok_def)
  note spec = run_core_spec [OF s sz, of "\<lambda>i. NOT (Buffer bm i)" m,
      folded run_set_core, unfolded bit_NOT_Buffer]
  show "unat s + unat (RtlpGetLengthOfRunSet bm s m) \<le> unat (SizeOfBitMap bm)"
    using spec s by auto
  show "bitmap_bit bm p" if "unat s \<le> p" "p < unat s + unat (RtlpGetLengthOfRunSet bm s m)"
    using spec that by (metis add.commute le_add_diff_inverse less_diff_conv2)
  show "\<not> bitmap_bit bm (unat s + unat (RtlpGetLengthOfRunSet bm s m))"
    if "unat (RtlpGetLengthOfRunSet bm s m) < unat m"
      "unat s + unat (RtlpGetLengthOfRunSet bm s m) < unat (SizeOfBitMap bm)"
    using spec that by auto
qed

text \<open>\<open>run_of P p n\<close>: the \<open>n\<close> bits from \<open>p\<close> on all satisfy \<open>P\<close>.\<close>

definition run_of :: "(nat \<Rightarrow> bool) \<Rightarrow> nat \<Rightarrow> nat \<Rightarrow> bool" where
  "run_of P p n \<longleftrightarrow> list_all P [p..<p + n]"

lemma run_of_iff: "run_of P p n \<longleftrightarrow> (\<forall>q. p \<le> q \<and> q < p + n \<longrightarrow> P q)"
  by (auto simp: run_of_def list_all_iff)

text \<open>No run that starts below \<open>f\<close> in the first \<open>sz\<close> bits is longer than \<open>mx\<close>.\<close>

definition longest_upto :: "(nat \<Rightarrow> bool) \<Rightarrow> nat \<Rightarrow> nat \<Rightarrow> nat \<Rightarrow> bool" where
  "longest_upto P sz f mx \<longleftrightarrow> (\<forall>p k. p < f \<and> p + k \<le> sz \<and> run_of P p k \<longrightarrow> k \<le> mx)"

lemma longest_uptoD: "longest_upto P sz f mx \<Longrightarrow> p < f \<Longrightarrow> p + k \<le> sz \<Longrightarrow> run_of P p k \<Longrightarrow> k \<le> mx"
  unfolding longest_upto_def by blast

lemma longest_upto_mono: "longest_upto P sz f' mx \<Longrightarrow> f \<le> f' \<Longrightarrow> longest_upto P sz f mx"
  unfolding longest_upto_def by (meson order_less_le_trans)

section \<open>Searching with a pair of scanners\<close>

locale run_search = wanted: run_scanner hit run + other: run_scanner miss skip
  for hit run miss skip +
  assumes miss_iff: "miss bm p \<longleftrightarrow> \<not> hit bm p"
begin

lemma skip_to_hit:
  assumes "bitmap_ok bm" "unat c \<le> unat (SizeOfBitMap bm)"
  defines "c1 \<equiv> c + skip bm c MAXULONG"
  shows "unat c \<le> unat c1" "unat c1 \<le> unat (SizeOfBitMap bm)"
    "unat c \<le> p \<Longrightarrow> p < unat c1 \<Longrightarrow> \<not> hit bm p"
    "unat c1 < unat (SizeOfBitMap bm) \<Longrightarrow> hit bm (unat c1)"
  using other.run_le [OF assms(1,2), of MAXULONG] other.run_hit [OF assms(1,2), of p MAXULONG]
    other.maximal_run_stop [OF assms(1,2)]
  by (auto simp: c1_def other.unat_after_run [OF assms(1,2)] miss_iff)

lemma short_run_blocks:
  assumes "bitmap_ok bm" "unat c \<le> unat (SizeOfBitMap bm)" "unat (run bm c n) < unat n"
    and "unat c \<le> p" "p \<le> unat c + unat (run bm c n)" "p + unat n \<le> unat (SizeOfBitMap bm)"
  shows "\<not> run_of (hit bm) p (unat n)"
  using wanted.run_stop [OF assms(1-3)] assms(3-6)
  by (auto simp: run_of_iff intro!: exI [of _ "unat c + unat (run bm c n)"])

lemma search_step:
  assumes ok: "bitmap_ok bm" and c: "unat c < unat (SizeOfBitMap bm)"
  defines "c1 \<equiv> c + skip bm c MAXULONG"
  assumes short: "unat (run bm c1 n) < unat n"
  shows "unat c < unat (c1 + run bm c1 n)" "unat (c1 + run bm c1 n) \<le> unat (SizeOfBitMap bm)"
    "unat c \<le> p \<Longrightarrow> p < unat (c1 + run bm c1 n) \<Longrightarrow> p + unat n \<le> unat (SizeOfBitMap bm) \<Longrightarrow>
      \<not> run_of (hit bm) p (unat n)"
proof -
  note K = skip_to_hit [OF ok less_imp_le [OF c], folded c1_def]
  note R = wanted.run_le [OF ok K(2), of n] wanted.unat_after_run [OF ok K(2), of n]
  show le: "unat (c1 + run bm c1 n) \<le> unat (SizeOfBitMap bm)"
    using R by simp
  show "unat c < unat (c1 + run bm c1 n)"
    using K(1,4) R wanted.run_stop [OF ok K(2) short] c 
    by (cases "unat (run bm c1 n) = 0"; cases "unat c1 < unat (SizeOfBitMap bm)") auto
  show "\<not> run_of (hit bm) p (unat n)"
    if p: "unat c \<le> p" "p < unat (c1 + run bm c1 n)" "p + unat n \<le> unat (SizeOfBitMap bm)"
  proof (cases "p < unat c1")
    case True
    with K(3) p short show ?thesis by (auto simp: run_of_iff)
  next
    case False
    with short_run_blocks [OF ok K(2) short, of p] p R show ?thesis by auto
  qed
qed

text \<open>The enumerator of runs and the loop that keeps the longest one.\<close>

lemma next_run_spec:
  assumes ok: "bitmap_ok bm" and f: "unat f \<le> unat (SizeOfBitMap bm)"
  defines "st \<equiv> f + skip bm f MAXULONG"
  defines "n \<equiv> run bm st MAXULONG"
  shows "unat f \<le> unat st" "unat st + unat n \<le> unat (SizeOfBitMap bm)"
    "unat f \<le> p \<Longrightarrow> p < unat st \<Longrightarrow> \<not> hit bm p" "run_of (hit bm) (unat st) (unat n)"
    "unat st + unat n < unat (SizeOfBitMap bm) \<Longrightarrow> \<not> hit bm (unat st + unat n)"
    "n = 0 \<Longrightarrow> unat st = unat (SizeOfBitMap bm)"
proof -
  note K = skip_to_hit [OF ok f, folded st_def]
  note R = wanted.run_le [OF ok K(2), of MAXULONG, folded n_def]
    wanted.run_hit [OF ok K(2), of _ MAXULONG, folded n_def]
    wanted.maximal_run_stop [OF ok K(2), folded n_def]
  show "unat f \<le> unat st" "unat st + unat n \<le> unat (SizeOfBitMap bm)"
    "unat f \<le> p \<Longrightarrow> p < unat st \<Longrightarrow> \<not> hit bm p" "run_of (hit bm) (unat st) (unat n)"
    "unat st + unat n < unat (SizeOfBitMap bm) \<Longrightarrow> \<not> hit bm (unat st + unat n)"
    using K R by (auto simp: run_of_iff)
  show "unat st = unat (SizeOfBitMap bm)" if "n = 0"
    using that K R(3) by force
qed

lemma longest_upto_step:
  assumes ok: "bitmap_ok bm" and f: "unat f \<le> unat (SizeOfBitMap bm)"
  defines "st \<equiv> f + skip bm f MAXULONG"
  defines "n \<equiv> run bm st MAXULONG"
  assumes L: "longest_upto (hit bm) (unat (SizeOfBitMap bm)) (unat f) mx"
  shows "longest_upto (hit bm) (unat (SizeOfBitMap bm)) (unat st + unat n) (max mx (unat n))"
  unfolding longest_upto_def
proof (intro allI impI)
  fix p k
  assume A: "p < unat st + unat n \<and> p + k \<le> unat (SizeOfBitMap bm) \<and> run_of (hit bm) p k"
  note N = next_run_spec [OF ok f, folded st_def, folded n_def]
  consider "p < unat f" | "unat f \<le> p" "p < unat st" | "unat st \<le> p" by linarith
  then show "k \<le> max mx (unat n)"
  proof cases
    case 1 with A longest_uptoD [OF L, of p k] show ?thesis by simp
  next
    case 2 with A N(3) show ?thesis by (cases k) (auto simp: run_of_iff)
  next
    case 3
    have "k \<le> unat st + unat n - p"
    proof (rule ccontr)
      assume "\<not> ?thesis"
      then have "unat st + unat n < p + k" by linarith
      with A N(5) show False by (auto simp: run_of_iff)
    qed
    with 3 show ?thesis by linarith
  qed
qed

lemma longest_run_loop_spec:
  fixes bm :: RTL_BITMAP
  defines "next_run \<equiv> \<lambda>f. (run bm (f + skip bm f MAXULONG) MAXULONG, f + skip bm f MAXULONG)"
  assumes ok: "bitmap_ok bm" and f: "unat f \<le> unat (SizeOfBitMap bm)"
    and inv: "longest_upto (hit bm) (unat (SizeOfBitMap bm)) (unat f) (unat mx)"
      "mx \<noteq> 0 \<Longrightarrow> unat st0 + unat mx \<le> unat (SizeOfBitMap bm) \<and> run_of (hit bm) (unat st0) (unat mx)"
  shows "\<exists>mx' st'. longest_run_loop next_run mx st0 f = Some (mx', st') \<and>
    longest_upto (hit bm) (unat (SizeOfBitMap bm)) (unat (SizeOfBitMap bm)) (unat mx') \<and>
    (mx' \<noteq> 0 \<longrightarrow> unat st' + unat mx' \<le> unat (SizeOfBitMap bm) \<and> run_of (hit bm) (unat st') (unat mx'))"
  using f inv
proof (induction "unat (SizeOfBitMap bm) - unat f" arbitrary: f mx st0 rule: less_induct)
  case less
  define st n where "st = f + skip bm f MAXULONG" and "n = run bm st MAXULONG"
  note N = next_run_spec [OF ok less.prems(1), folded st_def, folded n_def]
  note L = longest_upto_step [OF ok less.prems(1,2), folded st_def, folded n_def]
  have unfold: "longest_run_loop next_run mx st0 f = (if n = 0 then Some (mx, st0)
      else if n > mx then longest_run_loop next_run n st (f + n)
      else longest_run_loop next_run mx st0 (f + n))"
    by (subst longest_run_loop.simps) (simp add: next_run_def Let_def st_def n_def)
  show ?case
  proof (cases "n = 0")
    case True
    with L N(6) less.prems(3) unfold show ?thesis by auto
  next
    case False
    then have n0: "0 < unat n" by (simp add: unat_gt_0)
    have fn: "unat (f + n) = unat f + unat n"
      using N(1,2) ok by (simp add: unat_add_small bitmap_ok_def)
    have "unat f < unat (SizeOfBitMap bm)" "unat (f + n) \<le> unat (SizeOfBitMap bm)"
      using N(1,2) n0 fn by linarith+
    moreover have "longest_upto (hit bm) (unat (SizeOfBitMap bm)) (unat (f + n)) (max (unat mx) (unat n))"
      using longest_upto_mono [OF L] N(1) fn by simp
    ultimately show ?thesis
      using less.hyps [of "f + n" n st] less.hyps [of "f + n" mx st0] less.prems(3) N(2,4) n0 fn False
      by (auto simp: unfold word_less_nat_alt max_def split: if_splits)
  qed
qed

end

locale two_pass_search = run_search +
  fixes guard :: "ULONG \<Rightarrow> ULONG \<Rightarrow> bool"
  assumes guard_le: "guard a M \<Longrightarrow> unat a \<le> unat M"
    and guard_mono: "guard a M \<Longrightarrow> unat b \<le> unat a \<Longrightarrow> guard b M"
    and guard_less: "unat a < unat M \<Longrightarrow> guard a M"
begin

text \<open>
  The search loop ends; a position it returns starts a run of the wanted length,
  and if it returns none then every position from \<open>c\<close> on that passes the guard
  is blocked by a bit of the other colour.
\<close>

lemma find_bits_loop_spec:
  assumes ok: "bitmap_ok bm" and n: "0 < unat n" "unat n \<le> unat (SizeOfBitMap bm)"
    and M: "unat M \<le> unat (SizeOfBitMap bm)"
    and c: "unat c + unat n < 4294967296"
  shows "\<exists>res. find_bits_loop guard (skip bm) (run bm) n M c = Some res \<and>
    (case res of
       Some p \<Rightarrow> unat p + unat n \<le> unat (SizeOfBitMap bm) \<and> run_of (hit bm) (unat p) (unat n)
     | None \<Rightarrow> \<forall>p. unat c \<le> unat p \<and> unat p + unat n < 4294967296 \<and> guard (p + n) M \<longrightarrow>
         \<not> run_of (hit bm) (unat p) (unat n))"
  using c
proof (induction "unat (SizeOfBitMap bm) - unat c" arbitrary: c rule: less_induct)
  case less
  note unfold = find_bits_loop.simps [of guard "skip bm" "run bm" n M c]
  show ?case
  proof (cases "guard (c + n) M")
    case False
    have "\<not> guard (p + n) M" if "unat c \<le> unat p" "unat p + unat n < 4294967296" for p
      using that False less.prems guard_mono [of "p + n" M "c + n"] by (auto simp: unat_add_small)
    with False show ?thesis unfolding unfold by auto
  next
    case True
    define c1 where "c1 = c + skip bm c MAXULONG"
    have cS: "unat c < unat (SizeOfBitMap bm)"
      using guard_le [OF True] less.prems M n by (simp add: unat_add_small)
    note K = skip_to_hit [OF ok less_imp_le [OF cS], folded c1_def]
    show ?thesis
    proof (cases "n \<le> run bm c1 n")
      case found: True
      then have "run_of (hit bm) (unat c1) (unat n)"
        using wanted.run_hit [OF ok K(2), of _ n] by (fastforce simp: run_of_iff word_le_nat_alt)
      then show ?thesis
        using True found wanted.run_le [OF ok K(2), of n] unfolding unfold
        by (simp add: c1_def [symmetric] Let_def word_le_nat_alt)
    next
      case short: False
      then have sh: "unat (run bm c1 n) < unat n" by (simp add: word_le_nat_alt)
      note S = search_step [OF ok cS sh [unfolded c1_def], folded c1_def]
      have "unat (c1 + run bm c1 n) + unat n < 4294967296"
        using S(2) n(2) ok by (simp add: bitmap_ok_def)
      from less.hyps [OF diff_less_mono2 [OF S(1) cS] this] obtain res where
        res: "find_bits_loop guard (skip bm) (run bm) n M (c1 + run bm c1 n) = Some res"
        and post: "case res of
          Some p \<Rightarrow> unat p + unat n \<le> unat (SizeOfBitMap bm) \<and> run_of (hit bm) (unat p) (unat n)
        | None \<Rightarrow> \<forall>p. unat (c1 + run bm c1 n) \<le> unat p \<and> unat p + unat n < 4294967296 \<and>
            guard (p + n) M \<longrightarrow> \<not> run_of (hit bm) (unat p) (unat n)"
        by blast
      have "\<not> run_of (hit bm) (unat p) (unat n)"
        if "res = None" "unat c \<le> unat p" "unat p + unat n < 4294967296" "guard (p + n) M" for p
        using post S(3) [of "unat p"] that guard_le [OF that(4)] M
        by (cases "unat p < unat (c1 + run bm c1 n)") (auto simp: unat_add_small)
      then show ?thesis
        using True short res post unfolding unfold
        by (auto simp: c1_def [symmetric] Let_def split: option.splits)
    qed
  qed
qed

lemma two_pass_spec:
  assumes ok: "bitmap_ok bm" and n: "0 < unat n" "unat n \<le> unat (SizeOfBitMap bm)"
    and h: "unat h + unat n < 4294967296"
  defines "loop \<equiv> find_bits_loop guard (skip bm) (run bm) n"
  shows "\<exists>r. (case loop (SizeOfBitMap bm) h of
       None \<Rightarrow> None
     | Some (Some c) \<Rightarrow> Some c
     | Some None \<Rightarrow>
         if h \<noteq> 0 then
           (case loop (min (h + n) (SizeOfBitMap bm)) 0 of
              None \<Rightarrow> None
            | Some (Some c) \<Rightarrow> Some c
            | Some None \<Rightarrow> Some MAXULONG)
         else Some MAXULONG) = Some r \<and>
    (r \<noteq> MAXULONG \<longrightarrow>
       unat r + unat n \<le> unat (SizeOfBitMap bm) \<and> run_of (hit bm) (unat r) (unat n)) \<and>
    (r = MAXULONG \<longrightarrow> (\<forall>p. unat p + unat n < 4294967296 \<and> guard (p + n) (SizeOfBitMap bm) \<longrightarrow>
       \<not> run_of (hit bm) (unat p) (unat n)))"
proof -
  let ?S = "SizeOfBitMap bm"
  have no_max: "p \<noteq> MAXULONG" if "unat p + unat n \<le> unat ?S" for p
    using that ok by (auto simp: bitmap_ok_def)
  have gm: "guard (p + n) (min (h + n) ?S)"
    if "unat p < unat h" "guard (p + n) ?S" "unat p + unat n < 4294967296" for p
    using that h guard_less [of "p + n" "min (h + n) ?S"] by (auto simp: min_def unat_add_small)
  obtain r1 where r1: "loop ?S h = Some r1" and p1: "case r1 of
       Some p \<Rightarrow> unat p + unat n \<le> unat ?S \<and> run_of (hit bm) (unat p) (unat n)
     | None \<Rightarrow> \<forall>p. unat h \<le> unat p \<and> unat p + unat n < 4294967296 \<and> guard (p + n) ?S \<longrightarrow>
         \<not> run_of (hit bm) (unat p) (unat n)"
    using find_bits_loop_spec [OF ok n order_refl h] unfolding loop_def by blast
  have M2: "unat (min (h + n) ?S) \<le> unat ?S" and h2: "unat (0 :: ULONG) + unat n < 4294967296"
    by (simp_all add: unat_min_word)
  obtain r2 where r2: "loop (min (h + n) ?S) 0 = Some r2" and p2: "case r2 of
       Some p \<Rightarrow> unat p + unat n \<le> unat ?S \<and> run_of (hit bm) (unat p) (unat n)
     | None \<Rightarrow> \<forall>p. unat (0 :: ULONG) \<le> unat p \<and> unat p + unat n < 4294967296 \<and>
         guard (p + n) (min (h + n) ?S) \<longrightarrow> \<not> run_of (hit bm) (unat p) (unat n)"
    using find_bits_loop_spec [OF ok n M2 h2] unfolding loop_def by blast
  show ?thesis
    using r1 r2 p1 p2 no_max gm
    by (auto split: option.splits) (meson not_le)+
qed

end

interpretation clear_search: two_pass_search "\<lambda>bm p. \<not> bitmap_bit bm p" RtlpGetLengthOfRunClear
    bitmap_bit RtlpGetLengthOfRunSet "(<)"
  by unfold_locales (auto simp: word_less_nat_alt)

interpretation set_search: two_pass_search bitmap_bit RtlpGetLengthOfRunSet
    "\<lambda>bm p. \<not> bitmap_bit bm p" RtlpGetLengthOfRunClear "(\<le>)"
  by unfold_locales (auto simp: word_le_nat_alt)

lemma div_mod_32_eq_iff: "i div 32 = k div 32 \<Longrightarrow> i mod 32 = k mod 32 \<longleftrightarrow> i = k" for i k :: nat
  by (metis div_mult_mod_eq)

lemma RtlTestBit_iff: "RtlTestBit bm n \<longleftrightarrow> bitmap_bit bm (unat n)"
  by (simp add: RtlTestBit_def bitmap_bit_def unat_and_31 unat_drop_bit_5 and_one_eq
      bit_iff_odd_drop_bit mod_2_eq_odd)

lemma bitmap_bit_RtlSetBit: "bitmap_bit (RtlSetBit bm n) i \<longleftrightarrow> bitmap_bit bm i \<or> i = unat n"
  using div_mod_32_eq_iff [of i "unat n"]
  by (auto simp: RtlSetBit_def bitmap_bit_update_ulong unat_and_31 unat_drop_bit_5 word_bits
      bit_exp_iff) (auto simp: bitmap_bit_def)

lemma bitmap_bit_RtlClearBit: "bitmap_bit (RtlClearBit bm n) i \<longleftrightarrow> bitmap_bit bm i \<and> i \<noteq> unat n"
  using div_mod_32_eq_iff [of i "unat n"]
  by (auto simp: RtlClearBit_def bitmap_bit_update_ulong unat_and_31 unat_drop_bit_5 word_bits
      bit_exp_iff) (auto simp: bitmap_bit_def)

lemma SizeOfBitMap_RtlSetBits [simp]: "SizeOfBitMap (RtlSetBits bm s n) = SizeOfBitMap bm"
  by (simp add: RtlSetBits_def Let_def set_aligned_def)

lemma SizeOfBitMap_RtlClearBits [simp]: "SizeOfBitMap (RtlClearBits bm s n) = SizeOfBitMap bm"
  by (simp add: RtlClearBits_def Let_def clear_aligned_def)

lemma of_nat_index:
  fixes n :: ULONG
  assumes "p + unat n < 4294967296"
  shows "unat (of_nat p :: ULONG) = p" "unat (of_nat p + n) = p + unat n"
proof -
  show "unat (of_nat p :: ULONG) = p" using assms by (simp add: unat_of_nat)
  then show "unat (of_nat p + n) = p + unat n" using assms by (simp add: unat_add_small)
qed


lemma RtlFindSetBits_spec:
  assumes "bitmap_ok bm" and "0 < unat n" and "unat h + unat n < 4294967296"
  obtains r where "RtlFindSetBits (Some bm) n h = Some r"
    and "r \<noteq> MAXULONG \<Longrightarrow> unat r + unat n \<le> unat (SizeOfBitMap bm)"
    and "r \<noteq> MAXULONG \<Longrightarrow> run_of (bitmap_bit bm) (unat r) (unat n)"
    and "\<And>p. r = MAXULONG \<Longrightarrow> p + unat n \<le> unat (SizeOfBitMap bm) \<Longrightarrow>
      \<not> run_of (bitmap_bit bm) p (unat n)"
proof (cases "n > SizeOfBitMap bm")
  case True
  then show ?thesis by (intro that [of MAXULONG]) (simp_all add: RtlFindSetBits_def word_less_nat_alt)
next
  case False
  then have n: "unat n \<le> unat (SizeOfBitMap bm)" by (simp add: word_less_nat_alt)
  have n0: "n \<noteq> 0" using assms(2) by auto
  obtain r where r: "RtlFindSetBits (Some bm) n h = Some r"
    and found: "r \<noteq> MAXULONG \<longrightarrow>
       unat r + unat n \<le> unat (SizeOfBitMap bm) \<and> run_of (bitmap_bit bm) (unat r) (unat n)"
    and none: "r = MAXULONG \<longrightarrow> (\<forall>p. unat p + unat n < 4294967296 \<and> p + n \<le> SizeOfBitMap bm \<longrightarrow>
       \<not> run_of (bitmap_bit bm) (unat p) (unat n))"
    using set_search.two_pass_spec [OF assms(1,2) n assms(3)] False n0
    unfolding RtlFindSetBits_def Let_def by (simp only: option.case if_False) blast
  have "\<not> run_of (bitmap_bit bm) p (unat n)"
    if "r = MAXULONG" "p + unat n \<le> unat (SizeOfBitMap bm)" for p
  proof -
    have "p + unat n < 4294967296" using that(2) assms(1) by (simp add: bitmap_ok_def)
    note w = of_nat_index [OF this]
    show ?thesis using none that w \<open>p + unat n < 4294967296\<close> by (metis word_le_nat_alt)
  qed
  with r found show ?thesis by (intro that) blast+
qed

lemma RtlFindClearBits_spec:
  assumes "bitmap_ok bm" and "0 < unat n" and "unat h + unat n < 4294967296"
  obtains r where "RtlFindClearBits (Some bm) n h = Some r"
    and "r \<noteq> MAXULONG \<Longrightarrow> unat r + unat n \<le> unat (SizeOfBitMap bm)"
    and "r \<noteq> MAXULONG \<Longrightarrow> run_of (\<lambda>i. \<not> bitmap_bit bm i) (unat r) (unat n)"
    and "\<And>p. r = MAXULONG \<Longrightarrow> p + unat n < unat (SizeOfBitMap bm) \<Longrightarrow>
      \<not> run_of (\<lambda>i. \<not> bitmap_bit bm i) p (unat n)"
proof (cases "n > SizeOfBitMap bm")
  case True
  then show ?thesis
    by (intro that [of MAXULONG]) (simp_all add: RtlFindClearBits_def word_less_nat_alt)
next
  case False
  then have n: "unat n \<le> unat (SizeOfBitMap bm)" by (simp add: word_less_nat_alt)
  have n0: "n \<noteq> 0" using assms(2) by auto
  obtain r where r: "RtlFindClearBits (Some bm) n h = Some r"
    and found: "r \<noteq> MAXULONG \<longrightarrow> unat r + unat n \<le> unat (SizeOfBitMap bm) \<and>
       run_of (\<lambda>i. \<not> bitmap_bit bm i) (unat r) (unat n)"
    and none: "r = MAXULONG \<longrightarrow> (\<forall>p. unat p + unat n < 4294967296 \<and> p + n < SizeOfBitMap bm \<longrightarrow>
       \<not> run_of (\<lambda>i. \<not> bitmap_bit bm i) (unat p) (unat n))"
    using clear_search.two_pass_spec [OF assms(1,2) n assms(3)] False n0
    unfolding RtlFindClearBits_def Let_def by (simp only: option.case if_False) blast
  have "\<not> run_of (\<lambda>i. \<not> bitmap_bit bm i) p (unat n)"
    if "r = MAXULONG" "p + unat n < unat (SizeOfBitMap bm)" for p
  proof -
    have "p + unat n < 4294967296" using that(2) assms(1) by (simp add: bitmap_ok_def)
    note w = of_nat_index [OF this]
    show ?thesis using none that w \<open>p + unat n < 4294967296\<close> by (metis word_less_nat_alt)
  qed
  with r found show ?thesis by (intro that) blast+
qed

section \<open>Counting\<close>

lemma bitcount_step: "card {i. i < 8 * Suc k \<and> P i} = card {i. i < 8 * k \<and> P i} + card {j. j < 8 \<and> P (8 * k + j)}"
  for P :: "nat \<Rightarrow> bool"
proof -
  have eq: "{i. i < 8 * Suc k \<and> P i} = {i. i < 8 * k \<and> P i} \<union> (\<lambda>j. 8 * k + j) ` {j. j < 8 \<and> P (8 * k + j)}"
  proof (intro equalityI subsetI)
    fix i assume i: "i \<in> {i. i < 8 * Suc k \<and> P i}"
    show "i \<in> {i. i < 8 * k \<and> P i} \<union> (\<lambda>j. 8 * k + j) ` {j. j < 8 \<and> P (8 * k + j)}"
    proof (cases "i < 8 * k")
      case False
      with i have "i = 8 * k + (i - 8 * k)" "i - 8 * k < 8" by auto
      with i show ?thesis by (intro UnI2 image_eqI [of _ _ "i - 8 * k"]) auto
    qed (use i in auto)
  qed auto
  have "card ((\<lambda>j. 8 * k + j) ` {j. j < 8 \<and> P (8 * k + j)}) = card {j. j < 8 \<and> P (8 * k + j)}"
    by (intro card_image) (auto simp: inj_on_def)
  then show ?thesis
    unfolding eq by (subst card_Un_disjoint) auto
qed

text \<open>The byte table, built by doubling: the entries for one bit more are one larger.\<close>

fun pop_table :: "nat \<Rightarrow> nat list" where
  "pop_table 0 = [0]"
| "pop_table (Suc n) = pop_table n @ map Suc (pop_table n)"

lemma BitCountTable_pop_table: "BitCountTable = pop_table 8"
  by (simp add: BitCountTable_def eval_nat_numeral)

lemma length_pop_table [simp]: "length (pop_table n) = 2 ^ n"
  by (induction n) simp_all

lemma pop_table_nth: "v < 2 ^ n \<Longrightarrow> pop_table n ! v = card {j. j < n \<and> bit v j}"
proof (induction n arbitrary: v)
  case (Suc n)
  show ?case
  proof (cases "v < 2 ^ n")
    case True
    then have "\<not> bit v n" by (simp add: bit_iff_odd)
    then have "{j. j < Suc n \<and> bit v j} = {j. j < n \<and> bit v j}"
      by (auto simp: less_Suc_eq)
    with True Suc.IH [of v] show ?thesis by (simp add: nth_append)
  next
    case False
    define w where "w = v - 2 ^ n"
    have w: "w < 2 ^ n" "v = 2 ^ n + w"
      using False Suc.prems by (auto simp: w_def)
    have wn: "\<not> bit w n" using w(1) by (simp add: bit_iff_odd)
    then have disj: "\<not> (bit (2 ^ n :: nat) j \<and> bit w j)" for j
      by (auto simp: bit_exp_iff)
    have bits: "bit v j \<longleftrightarrow> j = n \<or> bit w j" for j
      unfolding w(2) by (subst disjunctive_add) (use disj in \<open>auto simp: bit_or_iff bit_exp_iff\<close>)
    from wn have "{j. j < Suc n \<and> bit v j} = insert n {j. j < n \<and> bit w j}"
      by (auto simp: bits less_Suc_eq)
    with Suc.IH [OF w(1)] w show ?thesis by (simp add: nth_append)
  qed
qed simp
lemma BitCountTable_byte: "BitCountTable ! unat b = card {j. j < 8 \<and> bit b j}" for b :: UCHAR
proof -
  have "unat b < 2 ^ 8" using unsigned_less [of b] by simp
  then have "BitCountTable ! unat b = card {j. j < 8 \<and> bit (unat b) j}"
    by (simp only: BitCountTable_pop_table pop_table_nth)
  also have "{j. j < 8 \<and> bit (unat b) j} = {j. j < 8 \<and> bit b j}"
    by (auto simp: bit_unsigned_iff)
  finally show ?thesis .
qed

lemma bitmap_byte_bit: "j < 8 \<Longrightarrow> bit (bitmap_byte bm k) j \<longleftrightarrow> bitmap_bit bm (8 * k + j)"
proof -
  assume j: "j < 8"
  have "k = 4 * (k div 4) + k mod 4" by simp
  then have k: "8 * k + j = 32 * (k div 4) + (8 * (k mod 4) + j)" by linarith
  have "k mod 4 < 4" by simp
  then have lt: "8 * (k mod 4) + j < 32" using j by linarith
  have "(8 * k + j) div 32 = k div 4" "(8 * k + j) mod 32 = 8 * (k mod 4) + j"
    unfolding k using lt by (simp_all del: mult_mod_right)
  then show ?thesis
    using j by (simp add: bitmap_byte_def bitmap_bit_def bit_drop_bit_eq bit_simps)
qed

lemma count_one_byte:
  "of_nat (card {i. i < 8 * k \<and> bitmap_bit bm i}) + of_nat (BitCountTable ! unat (bitmap_byte bm k)) =
   (of_nat (card {i. i < 8 * Suc k \<and> bitmap_bit bm i}) :: ULONG)"
  unfolding bitcount_step
  by (simp add: BitCountTable_byte bitmap_byte_bit cong: conj_cong)

lemma count_bytes_card:
  assumes "Byte \<le> MaxByte"
  shows "count_bytes bm Byte MaxByte (of_nat (card {i. i < 8 * Byte \<and> bitmap_bit bm i})) =
    of_nat (card {i. i < 8 * Suc MaxByte \<and> bitmap_bit bm i})"
  using assms
proof (induction "MaxByte - Byte" arbitrary: Byte)
  case (0 Byte)
  then show ?case
    by (subst count_bytes.simps) (simp only: Let_def count_one_byte, simp)
next
  case (Suc n Byte)
  then show ?case
    by (subst count_bytes.simps) (simp only: Let_def count_one_byte, simp)
qed

section \<open>Enumerating runs\<close>

text \<open>
  \<open>maximal_clear_run bm r\<close>: \<open>r\<close> is a run of clear bits of the bitmap that is not
  empty and cannot be extended on either side. \<open>run_end\<close> is the first bit behind a run.
\<close>

definition run_end :: "RTL_BITMAP_RUN \<Rightarrow> nat" where
  "run_end r = unat (StartingIndex r) + unat (NumberOfBits r)"

definition in_run :: "RTL_BITMAP_RUN \<Rightarrow> nat \<Rightarrow> bool" where
  "in_run r p \<longleftrightarrow> unat (StartingIndex r) \<le> p \<and> p < run_end r"

definition maximal_clear_run :: "RTL_BITMAP \<Rightarrow> RTL_BITMAP_RUN \<Rightarrow> bool" where
  "maximal_clear_run bm r \<longleftrightarrow>
     NumberOfBits r \<noteq> 0 \<and> run_end r \<le> unat (SizeOfBitMap bm) \<and>
     run_of (\<lambda>i. \<not> bitmap_bit bm i) (unat (StartingIndex r)) (unat (NumberOfBits r)) \<and>
     (StartingIndex r \<noteq> 0 \<longrightarrow> bitmap_bit bm (unat (StartingIndex r) - 1)) \<and>
     (run_end r < unat (SizeOfBitMap bm) \<longrightarrow> bitmap_bit bm (run_end r))"

text \<open>Where the enumeration stands between two runs: at the start, or at a set bit, or at the end.\<close>

definition at_gap :: "RTL_BITMAP \<Rightarrow> nat \<Rightarrow> bool" where
  "at_gap bm f \<longleftrightarrow> f \<le> unat (SizeOfBitMap bm) \<and> (0 < f \<and> f < unat (SizeOfBitMap bm) \<longrightarrow> bitmap_bit bm f)"

lemma maximal_clear_run_start:
  assumes "maximal_clear_run bm r"
  shows "\<not> bitmap_bit bm (unat (StartingIndex r))" "unat (StartingIndex r) < run_end r"
    "run_end r \<le> unat (SizeOfBitMap bm)"
proof -
  have "0 < unat (NumberOfBits r)" using assms by (simp add: maximal_clear_run_def unat_gt_0)
  then show "\<not> bitmap_bit bm (unat (StartingIndex r))" "unat (StartingIndex r) < run_end r"
    using assms by (auto simp: maximal_clear_run_def run_end_def run_of_iff)
  show "run_end r \<le> unat (SizeOfBitMap bm)" using assms by (simp add: maximal_clear_run_def)
qed

lemma maximal_clear_run_gap: "maximal_clear_run bm r \<Longrightarrow> at_gap bm (run_end r)"
  by (auto simp: maximal_clear_run_def at_gap_def)

lemma gap_before_run:
  assumes "at_gap bm f" "0 < f" "maximal_clear_run bm r" "f \<le> unat (StartingIndex r)"
  shows "f < unat (StartingIndex r)"
  using assms maximal_clear_run_start [OF assms(3)] unfolding at_gap_def
  by (metis le_neq_implies_less order_less_le_trans)

lemma next_clear_run:
  assumes "bitmap_ok bm" "at_gap bm (unat f)" and "RtlFindNextForwardRunClear bm f = (n, st)"
  defines "r \<equiv> \<lparr>StartingIndex = st, NumberOfBits = n\<rparr>"
  shows "n \<noteq> 0 \<Longrightarrow> maximal_clear_run bm r" "unat (st + n) = run_end r" "unat f \<le> unat st"
    "unat f \<le> p \<Longrightarrow> p < unat st \<Longrightarrow> bitmap_bit bm p" "n = 0 \<Longrightarrow> unat st = unat (SizeOfBitMap bm)"
proof -
  have f: "unat f \<le> unat (SizeOfBitMap bm)" using assms(2) by (simp add: at_gap_def)
  have st: "st = f + RtlpGetLengthOfRunSet bm f MAXULONG" "n = RtlpGetLengthOfRunClear bm st MAXULONG"
    using assms(3) by (auto simp: RtlFindNextForwardRunClear_def Let_def)
  note N = clear_search.next_run_spec [OF assms(1) f, folded st(1), folded st(2)]
  show "unat (st + n) = run_end r" "unat f \<le> unat st"
    "unat f \<le> p \<Longrightarrow> p < unat st \<Longrightarrow> bitmap_bit bm p" "n = 0 \<Longrightarrow> unat st = unat (SizeOfBitMap bm)"
    using N assms(1) by (auto simp: unat_add_small bitmap_ok_def run_end_def r_def)
  assume "n \<noteq> 0"
  then have n: "0 < unat n" by (simp add: unat_gt_0)
  then have hit: "\<not> bitmap_bit bm (unat st)" "unat st < unat (SizeOfBitMap bm)"
    using N(2,4) by (auto simp: run_of_iff)
  have "bitmap_bit bm (unat st - 1)" if "st \<noteq> 0"
  proof -
    have "0 < unat st" using that by (simp add: unat_gt_0)
    moreover have "unat f \<noteq> unat st" using hit assms(2) calculation by (auto simp: at_gap_def)
    ultimately show ?thesis using N(1) N(3) [of "unat st - 1"] by simp
  qed
  with \<open>n \<noteq> 0\<close> N(2,4,5) show "maximal_clear_run bm r"
    by (simp add: maximal_clear_run_def r_def run_end_def)
qed

text \<open>
  \<open>lists_runs bm RA i j f f'\<close>: the entries \<open>i\<close> to \<open>j - 1\<close> of the array are the
  maximal runs of clear bits between \<open>f\<close> and \<open>f'\<close>, in increasing order.
\<close>

definition lists_runs ::
  "RTL_BITMAP \<Rightarrow> (nat \<Rightarrow> RTL_BITMAP_RUN) \<Rightarrow> nat \<Rightarrow> nat \<Rightarrow> nat \<Rightarrow> nat \<Rightarrow> bool" where
  "lists_runs bm RA i j f f' \<longleftrightarrow>
     (\<forall>k. i \<le> k \<and> k < j \<longrightarrow> maximal_clear_run bm (RA k) \<and> f \<le> unat (StartingIndex (RA k)) \<and> run_end (RA k) \<le> f') \<and>
     (\<forall>k l. i \<le> k \<and> k < l \<and> l < j \<longrightarrow> run_end (RA k) < unat (StartingIndex (RA l))) \<and>
     (\<forall>p. f \<le> p \<and> p < f' \<and> \<not> bitmap_bit bm p \<longrightarrow> (\<exists>k. i \<le> k \<and> k < j \<and> in_run (RA k) p))"

lemma lists_runs_Cons:
  assumes rest: "lists_runs bm RA (Suc i) j (run_end (RA i)) f'" and "Suc i \<le> j"
    and r: "maximal_clear_run bm (RA i)" "f \<le> unat (StartingIndex (RA i))" "run_end (RA i) \<le> f'"
    and skip: "\<And>p. f \<le> p \<Longrightarrow> p < unat (StartingIndex (RA i)) \<Longrightarrow> bitmap_bit bm p"
  shows "lists_runs bm RA i j f f'"
proof -
  note S = maximal_clear_run_start [OF r(1)]
  have R: "maximal_clear_run bm (RA k)" "run_end (RA i) \<le> unat (StartingIndex (RA k))" "run_end (RA k) \<le> f'"
    if "i < k" "k < j" for k
    using rest that by (auto simp: lists_runs_def)
  have O: "run_end (RA i) < unat (StartingIndex (RA k))" if "i < k" "k < j" for k
    using gap_before_run [OF maximal_clear_run_gap [OF r(1)] _ R(1) R(2)] that S(2) by auto
  have C: "\<exists>k. i \<le> k \<and> k < j \<and> in_run (RA k) p" if p: "f \<le> p" "p < f'" "\<not> bitmap_bit bm p" for p
  proof (cases "p < run_end (RA i)")
    case True
    with p skip have "in_run (RA i) p" by (force simp: in_run_def)
    with assms(2) show ?thesis by auto
  next
    case False
    with rest p have "\<exists>k. Suc i \<le> k \<and> k < j \<and> in_run (RA k) p" by (auto simp: lists_runs_def)
    then show ?thesis by (meson Suc_leD)
  qed
  have "maximal_clear_run bm (RA k) \<and> f \<le> unat (StartingIndex (RA k)) \<and> run_end (RA k) \<le> f'" if "i \<le> k" "k < j" for k
    using that r R [of k] S(2) by (cases "k = i") auto
  moreover have "run_end (RA k) < unat (StartingIndex (RA l))" if "i \<le> k" "k < l" "l < j" for k l
    using that O rest by (cases "k = i") (auto simp: lists_runs_def)
  ultimately show ?thesis using C by (auto simp: lists_runs_def)
qed

lemma find_runs_fill_spec:
  assumes "bitmap_ok bm" "at_gap bm (unat f)"
    and "find_runs_fill bm left RA Run f sm = (RA', Run', f', sm')"
  shows "Run \<le> Run' \<and> Run' \<le> Run + left \<and> (\<forall>j<Run. RA' j = RA j) \<and> unat f \<le> unat f' \<and>
    lists_runs bm RA' Run Run' (unat f) (unat f') \<and>
    (Run' < Run + left \<longrightarrow> (\<forall>p. unat f' \<le> p \<and> p < unat (SizeOfBitMap bm) \<longrightarrow> bitmap_bit bm p))"
  using assms(2,3)
proof (induction left arbitrary: RA Run f sm)
  case 0
  then show ?case by (auto simp: lists_runs_def)
next
  case (Suc left)
  obtain n st where nr: "RtlFindNextForwardRunClear bm f = (n, st)" by fastforce
  note N = next_clear_run [OF assms(1) Suc.prems(1) nr]
  show ?case
  proof (cases "n = 0")
    case True
    with Suc.prems nr N(4,5) show ?thesis by (auto simp: lists_runs_def)
  next
    case False
    define RA1 where "RA1 = RA(Run := \<lparr>StartingIndex = st, NumberOfBits = n\<rparr>)"
    have fill: "find_runs_fill bm left RA1 (Suc Run) (st + n)
        (if n < NumberOfBits (RA1 sm) then Run else sm) = (RA', Run', f', sm')"
      using Suc.prems(2) nr False by (simp add: RA1_def Let_def)
    note max = N(1) [OF False]
    have "at_gap bm (unat (st + n))" unfolding N(2) by (rule maximal_clear_run_gap [OF max])
    note IH = Suc.IH [OF this fill]
    have run: "RA' Run = \<lparr>StartingIndex = st, NumberOfBits = n\<rparr>" and same: "\<forall>j<Run. RA' j = RA j"
      using IH by (auto simp: RA1_def)
    have "lists_runs bm RA' Run Run' (unat f) (unat f')"
      by (rule lists_runs_Cons) (use IH N(2-4) max in \<open>simp_all add: run\<close>)
    with IH same N(2,3) maximal_clear_run_start [OF max] show ?thesis by auto
  qed
qed

section \<open>Most and least significant bit\<close>

lemma bit_halves:
  fixes v :: ULONGLONG
  shows "bit v q \<longleftrightarrow> q < 32 \<and> bit (ucast v :: ULONG) q \<or>
    32 \<le> q \<and> bit (ucast (drop_bit 32 v) :: ULONG) (q - 32)"
  using bit_imp_le_length [of v q] by (auto simp: bit_simps)

lemma BitScanReverse_halves:
  fixes lo hi :: ULONG
  assumes P: "\<And>q. P q \<longleftrightarrow> q < 32 \<and> bit lo q \<or> 32 \<le> q \<and> bit hi (q - 32)" and ex: "P w"
  shows "\<exists>m. (case BitScanReverse hi of Some p \<Rightarrow> int p + 32
      | None \<Rightarrow> case BitScanReverse lo of Some p \<Rightarrow> int p | None \<Rightarrow> -1) = int m \<and>
    P m \<and> (\<forall>q. P q \<longrightarrow> q \<le> m)"
proof (cases "BitScanReverse hi")
  case (Some p)
  then have p: "p < 32" "bit hi p" "\<forall>q>p. \<not> bit hi q"
    by (simp_all add: BitScanReverse_Some)
  have "q \<le> p + 32" if "P q" for q
    using that p(1,3) P [of q] by (cases "q \<le> p + 32") auto
  with p Some show ?thesis by (intro exI [of _ "p + 32"]) (simp add: P)
next
  case None
  then have hi: "hi = 0" by (simp add: BitScanReverse_None)
  have "lo \<noteq> 0" using ex hi by (auto simp: P)
  then obtain p where lo: "BitScanReverse lo = Some p" by (metis BitScanReverse_None option.exhaust)
  then have p: "p < 32" "bit lo p" "\<forall>q>p. \<not> bit lo q"
    by (simp_all add: BitScanReverse_Some)
  have "q \<le> p" if "P q" for q
    using that p(3) P [of q] hi by (cases "q \<le> p") auto
  with p None lo show ?thesis by (intro exI [of _ p]) (simp add: P)
qed

lemma BitScanForward_halves:
  fixes lo hi :: ULONG
  assumes P: "\<And>q. P q \<longleftrightarrow> q < 32 \<and> bit lo q \<or> 32 \<le> q \<and> bit hi (q - 32)" and ex: "P w"
  shows "\<exists>m. (case BitScanForward lo of Some p \<Rightarrow> int p
      | None \<Rightarrow> case BitScanForward hi of Some p \<Rightarrow> int p + 32 | None \<Rightarrow> -1) = int m \<and>
    P m \<and> (\<forall>q. P q \<longrightarrow> m \<le> q)"
proof (cases "BitScanForward lo")
  case (Some p)
  then have p: "p < 32" "bit lo p" "\<forall>q<p. \<not> bit lo q"
    by (simp_all add: BitScanForward_Some)
  have "p \<le> q" if "P q" for q
    using that p(1,3) P [of q] by (cases "p \<le> q") auto
  with p Some show ?thesis by (intro exI [of _ p]) (simp add: P)
next
  case None
  then have lo: "lo = 0" by (simp add: BitScanForward_None)
  have "hi \<noteq> 0" using ex lo by (auto simp: P)
  then obtain p where hi: "BitScanForward hi = Some p" by (metis BitScanForward_None option.exhaust)
  then have p: "p < 32" "bit hi p" "\<forall>q<p. \<not> bit hi q"
    by (simp_all add: BitScanForward_Some)
  have "p + 32 \<le> q" if "P q" for q
    using that p(3) P [of q] lo by (cases "p + 32 \<le> q") auto
  with p None hi show ?thesis by (intro exI [of _ "p + 32"]) (simp add: P)
qed

section \<open>Properties\<close>

definition example_bitmap :: RTL_BITMAP where
  "example_bitmap = \<lparr>SizeOfBitMap = 48, Buffer = (\<lambda>i. if i = 0 then 0xFFFF00FF else 0x0000FF00)\<rparr>"

text \<open>
  C7: \<open>RtlFindSetBits\<close> returns for every bitmap below \<open>2 ^ 31\<close> bits, every count
  and every hint whose sum does not wrap. The position it returns starts a run of
  \<open>NumberToFind\<close> set bits inside the bitmap; when it returns \<open>MAXULONG\<close> there is no
  such run anywhere in the bitmap.
\<close>

theorem RtlFindSetBits_correct:
  assumes "bitmap_ok bm" and "0 < unat n" and "unat h + unat n < 4294967296"
  shows "\<exists>r. RtlFindSetBits (Some bm) n h = Some r \<and>
    (if r = MAXULONG
     then \<forall>p. p + unat n \<le> unat (SizeOfBitMap bm) \<longrightarrow> \<not> run_of (bitmap_bit bm) p (unat n)
     else unat r + unat n \<le> unat (SizeOfBitMap bm) \<and> run_of (bitmap_bit bm) (unat r) (unat n))"
  by (rule RtlFindSetBits_spec [OF assms]) auto

theorem RtlFindSetBits_correct_witness:
  "\<exists>r. RtlFindSetBits (Some example_bitmap) 8 20 = Some r \<and>
    (if r = MAXULONG
     then \<forall>p. p + unat (8 :: ULONG) \<le> unat (SizeOfBitMap example_bitmap) \<longrightarrow>
       \<not> run_of (bitmap_bit example_bitmap) p (unat (8 :: ULONG))
     else unat r + unat (8 :: ULONG) \<le> unat (SizeOfBitMap example_bitmap) \<and>
       run_of (bitmap_bit example_bitmap) (unat r) (unat (8 :: ULONG)))"
  by (rule RtlFindSetBits_correct) (simp_all add: example_bitmap_def bitmap_ok_def)

text \<open>
  \<open>RtlFindClearBits\<close> likewise always returns, and the position it returns
  starts a run of \<open>NumberToFind\<close> clear bits inside the bitmap. When it returns
  \<open>MAXULONG\<close> no run of clear bits ends before the last bit of the bitmap.
\<close>

theorem RtlFindClearBits_correct:
  assumes "bitmap_ok bm" and "0 < unat n" and "unat h + unat n < 4294967296"
  shows "\<exists>r. RtlFindClearBits (Some bm) n h = Some r \<and>
    (if r = MAXULONG
     then \<forall>p. p + unat n < unat (SizeOfBitMap bm) \<longrightarrow> \<not> run_of (\<lambda>i. \<not> bitmap_bit bm i) p (unat n)
     else unat r + unat n \<le> unat (SizeOfBitMap bm) \<and>
       run_of (\<lambda>i. \<not> bitmap_bit bm i) (unat r) (unat n))"
  by (rule RtlFindClearBits_spec [OF assms]) auto

theorem RtlFindClearBits_correct_witness:
  "\<exists>r. RtlFindClearBits (Some example_bitmap) 4 30 = Some r \<and>
    (if r = MAXULONG
     then \<forall>p. p + unat (4 :: ULONG) < unat (SizeOfBitMap example_bitmap) \<longrightarrow>
       \<not> run_of (\<lambda>i. \<not> bitmap_bit example_bitmap i) p (unat (4 :: ULONG))
     else unat r + unat (4 :: ULONG) \<le> unat (SizeOfBitMap example_bitmap) \<and>
       run_of (\<lambda>i. \<not> bitmap_bit example_bitmap i) (unat r) (unat (4 :: ULONG)))"
  by (rule RtlFindClearBits_correct) (simp_all add: example_bitmap_def bitmap_ok_def)

text \<open>
  \<open>RtlFindClearBits\<close> compares \<open>CurrentBit + NumberToFind < Margin\<close> strictly, so
  a request for all the bits of a bitmap fails whatever the bitmap holds, even
  when every bit is clear.
\<close>

theorem RtlFindClearBits_whole_bitmap:
  assumes "bitmap_ok bm" and "SizeOfBitMap bm \<noteq> 0" and "unat h + unat (SizeOfBitMap bm) < 4294967296"
  shows "RtlFindClearBits (Some bm) (SizeOfBitMap bm) h = Some MAXULONG"
proof -
  have "SizeOfBitMap bm \<le> h + SizeOfBitMap bm"
    using assms(3) by (simp add: word_le_nat_alt unat_add_small)
  then have "min (h + SizeOfBitMap bm) (SizeOfBitMap bm) = SizeOfBitMap bm"
    "\<not> h + SizeOfBitMap bm < SizeOfBitMap bm"
    by auto
  with assms(2) show ?thesis
    by (simp add: RtlFindClearBits_def Let_def find_bits_loop.simps)
qed

theorem RtlFindClearBits_whole_bitmap_witness:
  "RtlFindClearBits (Some \<lparr>SizeOfBitMap = 40, Buffer = (\<lambda>_. 0)\<rparr>) 40 0 = Some MAXULONG"
  using RtlFindClearBits_whole_bitmap [of "\<lparr>SizeOfBitMap = 40, Buffer = (\<lambda>_. 0)\<rparr>" 0]
  by (simp add: bitmap_ok_def)

text \<open>
  C14: \<open>RtlFindClearBitsAndSet\<close> never hands out a bit twice. When it returns a
  position, the bits it returns lie inside the bitmap, were all clear before the
  call and are all set after it, and no other bit changes; when it returns
  \<open>MAXULONG\<close> the bitmap is unchanged.
\<close>

theorem RtlFindClearBitsAndSet_allocates:
  assumes "bitmap_ok bm" and "0 < unat n" and "unat h + unat n < 4294967296"
  shows "\<exists>bm' r. RtlFindClearBitsAndSet (Some bm) n h = Some (Some bm', r) \<and>
    (if r = MAXULONG then bm' = bm
     else unat r + unat n \<le> unat (SizeOfBitMap bm) \<and>
       (\<forall>i. bitmap_bit bm' i \<longleftrightarrow> bitmap_bit bm i \<or> unat r \<le> i \<and> i < unat r + unat n) \<and>
       (\<forall>i. unat r \<le> i \<and> i < unat r + unat n \<longrightarrow> \<not> bitmap_bit bm i))"
  by (rule RtlFindClearBits_spec [OF assms])
    (auto simp: RtlFindClearBitsAndSet_def bitmap_bit_RtlSetBits run_of_iff)

theorem RtlFindClearBitsAndSet_allocates_witness:
  "\<exists>bm' r. RtlFindClearBitsAndSet (Some example_bitmap) 4 30 = Some (Some bm', r) \<and>
    (if r = MAXULONG then bm' = example_bitmap
     else unat r + unat (4 :: ULONG) \<le> unat (SizeOfBitMap example_bitmap) \<and>
       (\<forall>i. bitmap_bit bm' i \<longleftrightarrow>
          bitmap_bit example_bitmap i \<or> unat r \<le> i \<and> i < unat r + unat (4 :: ULONG)) \<and>
       (\<forall>i. unat r \<le> i \<and> i < unat r + unat (4 :: ULONG) \<longrightarrow> \<not> bitmap_bit example_bitmap i))"
  by (rule RtlFindClearBitsAndSet_allocates) (simp_all add: example_bitmap_def bitmap_ok_def)

text \<open>
  C31: \<open>RtlSetBits\<close> and \<open>RtlClearBits\<close>, with their unaligned head, whole words and
  masked tail, implement union and difference with the interval
  \<open>[Start, Start + Number)\<close> on the set of bits, for every start and count.
\<close>

theorem RtlSetBits_RtlClearBits_sets:
  "{i. bitmap_bit (RtlSetBits bm s n) i} = {i. bitmap_bit bm i} \<union> {unat s..<unat s + unat n} \<and>
   {i. bitmap_bit (RtlClearBits bm s n) i} = {i. bitmap_bit bm i} - {unat s..<unat s + unat n} \<and>
   SizeOfBitMap (RtlSetBits bm s n) = SizeOfBitMap bm \<and>
   SizeOfBitMap (RtlClearBits bm s n) = SizeOfBitMap bm"
  by (auto simp: bitmap_bit_RtlSetBits bitmap_bit_RtlClearBits)

text \<open>
  C32: \<open>RtlFindLongestRunClear\<close> ends, and the run it returns is a run of clear bits
  inside the bitmap that no run of clear bits exceeds in length.
\<close>

theorem RtlFindLongestRunClear_maximal:
  assumes "bitmap_ok bm"
  shows "\<exists>n st'. RtlFindLongestRunClear bm st = Some (n, st') \<and>
    (n \<noteq> 0 \<longrightarrow> unat st' + unat n \<le> unat (SizeOfBitMap bm) \<and>
       run_of (\<lambda>i. \<not> bitmap_bit bm i) (unat st') (unat n)) \<and>
    (\<forall>p k. p + k \<le> unat (SizeOfBitMap bm) \<and> run_of (\<lambda>i. \<not> bitmap_bit bm i) p k \<longrightarrow> k \<le> unat n)"
proof -
  let ?next = "\<lambda>f. (RtlpGetLengthOfRunClear bm (f + RtlpGetLengthOfRunSet bm f MAXULONG) MAXULONG,
      f + RtlpGetLengthOfRunSet bm f MAXULONG)"
  have next_eq: "RtlFindNextForwardRunClear bm = ?next"
    by (auto simp: RtlFindNextForwardRunClear_def Let_def)
  have "longest_upto (\<lambda>p. \<not> bitmap_bit bm p) (unat (SizeOfBitMap bm)) (unat (0 :: ULONG)) (unat (0 :: ULONG))"
    by (simp add: longest_upto_def)
  then obtain n st' where
    loop: "longest_run_loop ?next 0 st 0 = Some (n, st')"
    and longest: "longest_upto (\<lambda>p. \<not> bitmap_bit bm p) (unat (SizeOfBitMap bm)) (unat (SizeOfBitMap bm)) (unat n)"
    and run: "n \<noteq> 0 \<longrightarrow> unat st' + unat n \<le> unat (SizeOfBitMap bm) \<and>
      run_of (\<lambda>p. \<not> bitmap_bit bm p) (unat st') (unat n)"
    using clear_search.longest_run_loop_spec [OF assms, of 0 0 st] by auto
  have "k \<le> unat n"
    if "p + k \<le> unat (SizeOfBitMap bm)" "run_of (\<lambda>i. \<not> bitmap_bit bm i) p k" for p k
    using longest_uptoD [OF longest, of p k] that by (cases "p < unat (SizeOfBitMap bm)") auto
  with loop run show ?thesis
    unfolding RtlFindLongestRunClear_def next_eq by blast
qed

theorem RtlFindLongestRunClear_maximal_witness:
  "\<exists>n st'. RtlFindLongestRunClear example_bitmap 0 = Some (n, st') \<and>
    (n \<noteq> 0 \<longrightarrow> unat st' + unat n \<le> unat (SizeOfBitMap example_bitmap) \<and>
       run_of (\<lambda>i. \<not> bitmap_bit example_bitmap i) (unat st') (unat n)) \<and>
    (\<forall>p k. p + k \<le> unat (SizeOfBitMap example_bitmap) \<and>
       run_of (\<lambda>i. \<not> bitmap_bit example_bitmap i) p k \<longrightarrow> k \<le> unat n)"
  by (rule RtlFindLongestRunClear_maximal) (simp add: example_bitmap_def bitmap_ok_def)

text \<open>
  \<open>RtlFindNextForwardRunSet\<close> measures the set run at \<open>FromIndex\<close> and not after
  the clear bits it skipped, so \<open>RtlFindLongestRunSet\<close> returns 0 and leaves
  \<open>*StartingIndex\<close> alone on every bitmap whose first bit is clear, however many
  set bits follow.
\<close>

theorem RtlFindLongestRunSet_blind:
  assumes "bitmap_ok bm" and "SizeOfBitMap bm \<noteq> 0" and "\<not> bitmap_bit bm 0"
  shows "RtlFindLongestRunSet bm st = Some (0, st)"
proof -
  have "RtlpGetLengthOfRunSet bm 0 MAXULONG = 0"
    using set_run.run_hit [OF assms(1), of 0 0 MAXULONG] assms(3)
    by (cases "unat (RtlpGetLengthOfRunSet bm 0 MAXULONG) = 0") (auto simp: unat_eq_zero)
  then show ?thesis
    by (simp add: RtlFindLongestRunSet_def longest_run_loop.simps RtlFindNextForwardRunSet_def)
qed

theorem RtlFindLongestRunSet_blind_witness:
  "RtlFindLongestRunSet \<lparr>SizeOfBitMap = 32, Buffer = (\<lambda>_. 0xFFFFFFFE)\<rparr> 7 = Some (0, 7)"
  by (rule RtlFindLongestRunSet_blind) (simp_all add: bitmap_ok_def bitmap_bit_def)

text \<open>
  C33: without \<open>LocateLongestRuns\<close>, \<open>RtlFindClearRuns\<close> fills the array with the first
  maximal runs of clear bits of the bitmap, as many as the array has room for. Each
  entry is a run that cannot be extended on either side, each entry ends before the
  next one starts, and every clear bit lies in an entry unless the array is full and
  the bit lies behind all of its entries.
\<close>

theorem RtlFindClearRuns_enumerates:
  assumes "bitmap_ok bm"
  shows "\<exists>RA' Run. RtlFindClearRuns bm RA sz False = Some (RA', Run) \<and> Run \<le> unat sz \<and>
    (\<forall>j<Run. maximal_clear_run bm (RA' j)) \<and>
    (\<forall>i j. i < j \<and> j < Run \<longrightarrow> run_end (RA' i) < unat (StartingIndex (RA' j))) \<and>
    (\<forall>p<unat (SizeOfBitMap bm). \<not> bitmap_bit bm p \<longrightarrow>
       (\<exists>j<Run. in_run (RA' j) p) \<or> Run = unat sz \<and> (\<forall>j<Run. run_end (RA' j) \<le> p))"
proof -
  obtain RA' Run f' sm' where fill: "find_runs_fill bm (unat sz) RA 0 0 0 = (RA', Run, f', sm')"
    by (metis prod_cases4)
  have "at_gap bm (unat (0 :: ULONG))" by (simp add: at_gap_def)
  note spec = find_runs_fill_spec [OF assms this fill, simplified]
  have "(\<exists>j<Run. in_run (RA' j) p) \<or> Run = unat sz \<and> (\<forall>j<Run. run_end (RA' j) \<le> p)"
    if "p < unat (SizeOfBitMap bm)" "\<not> bitmap_bit bm p" for p
    using spec that by (cases "p < unat f'") (force simp: lists_runs_def)+
  with spec show ?thesis by (auto simp: RtlFindClearRuns_def fill lists_runs_def)
qed

theorem RtlFindClearRuns_enumerates_witness:
  "\<exists>RA' Run. RtlFindClearRuns example_bitmap (\<lambda>_. \<lparr>StartingIndex = 0, NumberOfBits = 0\<rparr>) 4 False = Some (RA', Run) \<and> Run \<le> unat (4 :: ULONG) \<and>
    (\<forall>j<Run. maximal_clear_run example_bitmap (RA' j)) \<and>
    (\<forall>i j. i < j \<and> j < Run \<longrightarrow> run_end (RA' i) < unat (StartingIndex (RA' j))) \<and>
    (\<forall>p<unat (SizeOfBitMap example_bitmap). \<not> bitmap_bit example_bitmap p \<longrightarrow>
       (\<exists>j<Run. in_run (RA' j) p) \<or> Run = unat (4 :: ULONG) \<and> (\<forall>j<Run. run_end (RA' j) \<le> p))"
  by (rule RtlFindClearRuns_enumerates) (simp add: example_bitmap_def bitmap_ok_def)

text \<open>
  \<open>RtlNumberOfSetBits\<close> counts the set bits of the bytes \<open>0\<close> to
  \<open>(SizeOfBitMap + 7) / 8\<close> inclusive: the byte table is a population count, and
  the loop takes one byte more than the bitmap has.
\<close>

theorem RtlNumberOfSetBits_count:
  assumes "bitmap_ok bm"
  shows "RtlNumberOfSetBits bm =
    of_nat (card {i. i < 8 * ((unat (SizeOfBitMap bm) + 7) div 8 + 1) \<and> bitmap_bit bm i})"
proof -
  have "unat ((SizeOfBitMap bm + 7) div 8) = (unat (SizeOfBitMap bm) + 7) div 8"
    using assms by (simp add: unat_div_8 unat_add_small bitmap_ok_def)
  then show ?thesis
    using count_bytes_card [of 0 "(unat (SizeOfBitMap bm) + 7) div 8" bm]
    by (simp add: RtlNumberOfSetBits_def)
qed

theorem RtlNumberOfSetBits_count_witness:
  "RtlNumberOfSetBits \<lparr>SizeOfBitMap = 8, Buffer = (\<lambda>_. 0x0000FFFF)\<rparr> = 16"
proof -
  let ?bm = "\<lparr>SizeOfBitMap = 8, Buffer = (\<lambda>_. 0x0000FFFF)\<rparr>"
  have "{i. i < 16 \<and> bitmap_bit ?bm i} = set (filter (bitmap_bit ?bm) [0..<16])"
    by auto
  then have "card {i. i < 16 \<and> bitmap_bit ?bm i} = length (filter (bitmap_bit ?bm) [0..<16])"
    by (simp only: distinct_card [OF distinct_filter [OF distinct_upt]])
  also have "\<dots> = 16"
    by code_simp
  finally show ?thesis
    using RtlNumberOfSetBits_count [of ?bm] by (simp add: bitmap_ok_def)
qed

text \<open>
  For a non-zero value \<open>RtlFindLeastSignificantBit\<close> and
  \<open>RtlFindMostSignificantBit\<close> return the positions of its lowest and of its
  highest set bit, from the two 32-bit halves.
\<close>

theorem RtlFindSignificantBits_correct:
  assumes "v \<noteq> 0"
  shows "\<exists>lo hi. RtlFindLeastSignificantBit v = int lo \<and> RtlFindMostSignificantBit v = int hi \<and>
    bit v lo \<and> bit v hi \<and> (\<forall>q. bit v q \<longrightarrow> lo \<le> q \<and> q \<le> hi)"
proof -
  obtain w where "bit v w" using assms bit_eq_iff [of v 0] by auto
  from BitScanForward_halves [OF bit_halves this] BitScanReverse_halves [OF bit_halves this]
  show ?thesis
    unfolding RtlFindLeastSignificantBit_def RtlFindMostSignificantBit_def by blast
qed

theorem RtlFindSignificantBits_correct_witness:
  "\<exists>lo hi. RtlFindLeastSignificantBit 0x500 = int lo \<and> RtlFindMostSignificantBit 0x500 = int hi \<and>
    bit (0x500 :: ULONGLONG) lo \<and> bit (0x500 :: ULONGLONG) hi \<and>
    (\<forall>q. bit (0x500 :: ULONGLONG) q \<longrightarrow> lo \<le> q \<and> q \<le> hi)"
  by (rule RtlFindSignificantBits_correct) simp

end
