(* ===== verification/Rtl_RangeList.thy ===== *)
theory Rtl_RangeList
  imports Odyssey_Prelude "HOL-Library.Multiset"
begin

text \<open>
  The range lists of \<open>lib/rtl/rangelist.c\<close>, which the resource arbiters use to
  track I/O ports, memory and interrupts. The circular \<open>LIST_ENTRY\<close> list of
  \<open>RTL_RANGE_ENTRY\<close> is the list of the ranges in its order. Whether an allocation
  succeeds is an argument: a \<open>bool\<close> for one allocation, a function of its number
  for routines that allocate in a loop.
\<close>

section \<open>Data\<close>

type_synonym PVOID = nat

record RTL_RANGE =
  RangeStart :: ULONGLONG
  RangeEnd :: ULONGLONG
  UserData :: PVOID
  Owner :: PVOID
  Attributes :: UCHAR
  RangeFlags :: UCHAR

record RTL_RANGE_LIST =
  ListHead :: "RTL_RANGE list"
  ListFlags :: ULONG
  Count :: ULONG
  Stamp :: ULONG

text \<open>\<open>Current\<close> is the position of the entry the iterator points to, \<open>None\<close> for \<open>NULL\<close>.\<close>

record RTL_RANGE_LIST_ITERATOR =
  Current :: "nat option"
  IterStamp :: ULONG

definition RTL_RANGE_LIST_ADD_SHARED :: ULONG where
  "RTL_RANGE_LIST_ADD_SHARED = 0x00000002"

definition RTL_RANGE_SHARED :: ULONG where
  "RTL_RANGE_SHARED = 0x01"

text \<open>
  \<open>ROUND_DOWN(n, align)\<close> of \<open>rtlp.h\<close> casts its argument to \<open>ULONG\<close>: the upper half
  of a 64-bit address is dropped.
\<close>

definition ROUND_DOWN :: "ULONGLONG \<Rightarrow> ULONG \<Rightarrow> ULONG" where
  "ROUND_DOWN n align = ucast n AND NOT (align - 1)"

section \<open>Adding and deleting\<close>

text \<open>The loop of \<open>RtlAddRange\<close>: insert before the first range that starts after the new one ends.\<close>

fun insert_range :: "RTL_RANGE \<Rightarrow> RTL_RANGE list \<Rightarrow> RTL_RANGE list" where
  "insert_range r [] = [r]"
| "insert_range r (c # cs) =
     (if RangeStart c > RangeEnd r then r # c # cs else c # insert_range r cs)"

definition RtlAddRange ::
  "bool \<Rightarrow> RTL_RANGE_LIST \<Rightarrow> ULONGLONG \<Rightarrow> ULONGLONG \<Rightarrow> UCHAR \<Rightarrow> ULONG \<Rightarrow> PVOID \<Rightarrow> PVOID \<Rightarrow>
     NTSTATUS \<times> RTL_RANGE_LIST" where
  "RtlAddRange allocated RangeList s e attributes flags userData ownr =
     (if s > e then (STATUS_INVALID_PARAMETER, RangeList)
      else if \<not> allocated then (STATUS_INSUFFICIENT_RESOURCES, RangeList)
      else
        (let r = \<lparr>RangeStart = s, RangeEnd = e, UserData = userData, Owner = ownr,
                  Attributes = attributes,
                  RangeFlags = (if flags AND RTL_RANGE_LIST_ADD_SHARED \<noteq> 0
                                then ucast RTL_RANGE_SHARED else 0)\<rparr>
         in (STATUS_SUCCESS,
             RangeList\<lparr>ListHead := (if Count RangeList = 0 then ListHead RangeList @ [r]
                                    else insert_range r (ListHead RangeList)),
               Count := Count RangeList + 1, Stamp := Stamp RangeList + 1\<rparr>)))"

text \<open>
  \<open>RtlCopyRangeList\<close> copies \<open>sizeof(RTL_RANGE_ENTRY)\<close>, 40 bytes, from one \<open>Range\<close> member
  to another, which both start 8 bytes into an entry of 40 bytes: every round reads the
  eight bytes behind the source entry and overwrites the eight bytes behind the new
  one. \<open>spare k\<close> tells whether, for the \<open>k\<close>-th entry, the former can be read and the
  latter belong to nobody. If not, what happens next is undefined: \<open>None\<close>.
\<close>

fun copy_range_loop ::
  "(nat \<Rightarrow> bool) \<Rightarrow> (nat \<Rightarrow> bool) \<Rightarrow> nat \<Rightarrow> RTL_RANGE list \<Rightarrow> RTL_RANGE_LIST \<Rightarrow>
     (NTSTATUS \<times> RTL_RANGE_LIST) option" where
  "copy_range_loop alloc spare k [] CopyRangeList =
     Some (STATUS_SUCCESS, CopyRangeList\<lparr>Stamp := Stamp CopyRangeList + 1\<rparr>)"
| "copy_range_loop alloc spare k (c # cs) CopyRangeList =
     (if \<not> alloc k then Some (STATUS_INSUFFICIENT_RESOURCES, CopyRangeList)
      else if \<not> spare k then None
      else copy_range_loop alloc spare (Suc k) cs
             (CopyRangeList\<lparr>ListHead := ListHead CopyRangeList @ [c], Count := Count CopyRangeList + 1\<rparr>))"

definition RtlCopyRangeList ::
  "(nat \<Rightarrow> bool) \<Rightarrow> (nat \<Rightarrow> bool) \<Rightarrow> RTL_RANGE_LIST \<Rightarrow> RTL_RANGE_LIST \<Rightarrow>
     (NTSTATUS \<times> RTL_RANGE_LIST) option" where
  "RtlCopyRangeList alloc spare CopyRangeList RangeList =
     copy_range_loop alloc spare 0 (ListHead RangeList) (CopyRangeList\<lparr>ListFlags := ListFlags RangeList\<rparr>)"

text \<open>
  \<open>RtlDeleteOwnersRanges\<close> reads \<open>Entry->Flink\<close> after it has freed \<open>Entry\<close>; \<open>intact\<close>
  says whether the freed block still holds its links. If not, what the loop does
  next is undefined: \<open>None\<close>.
\<close>

fun delete_owners_loop ::
  "bool \<Rightarrow> PVOID \<Rightarrow> RTL_RANGE list \<Rightarrow> RTL_RANGE list \<Rightarrow> RTL_RANGE_LIST \<Rightarrow> RTL_RANGE_LIST option" where
  "delete_owners_loop intact ownr kept [] RangeList = Some (RangeList\<lparr>ListHead := kept\<rparr>)"
| "delete_owners_loop intact ownr kept (c # cs) RangeList =
     (if Owner c = ownr then
        (if intact then
           delete_owners_loop intact ownr kept cs
             (RangeList\<lparr>Count := Count RangeList - 1, Stamp := Stamp RangeList + 1\<rparr>)
         else None)
      else delete_owners_loop intact ownr (kept @ [c]) cs RangeList)"

definition RtlDeleteOwnersRanges ::
  "bool \<Rightarrow> RTL_RANGE_LIST \<Rightarrow> PVOID \<Rightarrow> (NTSTATUS \<times> RTL_RANGE_LIST) option" where
  "RtlDeleteOwnersRanges intact RangeList ownr =
     map_option (Pair STATUS_SUCCESS) (delete_owners_loop intact ownr [] (ListHead RangeList) RangeList)"

fun delete_range_loop ::
  "(RTL_RANGE \<Rightarrow> bool) \<Rightarrow> RTL_RANGE list \<Rightarrow> RTL_RANGE list option" where
  "delete_range_loop matches [] = None"
| "delete_range_loop matches (c # cs) =
     (if matches c then Some cs else map_option (Cons c) (delete_range_loop matches cs))"

definition RtlDeleteRange ::
  "RTL_RANGE_LIST \<Rightarrow> ULONGLONG \<Rightarrow> ULONGLONG \<Rightarrow> PVOID \<Rightarrow> NTSTATUS \<times> RTL_RANGE_LIST" where
  "RtlDeleteRange RangeList s e ownr =
     (case delete_range_loop (\<lambda>c. RangeStart c = s \<and> RangeEnd c = e \<and> Owner c = ownr)
             (ListHead RangeList) of
        None \<Rightarrow> (STATUS_RANGE_NOT_FOUND, RangeList)
      | Some rest \<Rightarrow>
          (STATUS_SUCCESS,
           RangeList\<lparr>ListHead := rest, Count := Count RangeList - 1, Stamp := Stamp RangeList + 1\<rparr>))"

section \<open>Searching\<close>

text \<open>
  One candidate of \<open>RtlFindRange\<close>: the highest aligned start in the gap that ends
  at \<open>RangeMax\<close>, or \<open>None\<close> where the routine gives up.
\<close>

definition find_range_candidate :: "ULONGLONG \<Rightarrow> ULONGLONG \<Rightarrow> ULONG \<Rightarrow> ULONG \<Rightarrow> ULONGLONG option" where
  "find_range_candidate RangeMax Minimum Length Alignment =
     (if RangeMax + ucast (Length - 1) < Minimum then None
      else
        (let RangeMin = ucast (ROUND_DOWN (RangeMax - ucast (Length - 1)) Alignment)
         in if RangeMin < Minimum \<or> RangeMax - RangeMin < ucast (Length - 1) then None
            else Some RangeMin))"

text \<open>The backward loop: the entries in reverse, and the entry visited before.\<close>

fun find_range_loop ::
  "ULONGLONG \<Rightarrow> ULONGLONG \<Rightarrow> ULONG \<Rightarrow> ULONG \<Rightarrow> RTL_RANGE option \<Rightarrow> RTL_RANGE list \<Rightarrow>
     NTSTATUS \<times> ULONGLONG option" where
  "find_range_loop Minimum Maximum Length Alignment NextEntry [] =
     (case find_range_candidate
             (case NextEntry of Some n \<Rightarrow> RangeStart n - 1 | None \<Rightarrow> Maximum) Minimum Length Alignment of
        None \<Rightarrow> (STATUS_RANGE_NOT_FOUND, None)
      | Some RangeMin \<Rightarrow> (STATUS_SUCCESS, Some RangeMin))"
| "find_range_loop Minimum Maximum Length Alignment NextEntry (c # cs) =
     (case find_range_candidate
             (case NextEntry of Some n \<Rightarrow> RangeStart n - 1 | None \<Rightarrow> Maximum) Minimum Length Alignment of
        None \<Rightarrow> (STATUS_RANGE_NOT_FOUND, None)
      | Some RangeMin \<Rightarrow>
          if RangeMin > RangeEnd c then (STATUS_SUCCESS, Some RangeMin)
          else find_range_loop Minimum Maximum Length Alignment (Some c) cs)"

text \<open>The flags, the attribute mask and the callback are parameters the routine never reads.\<close>

definition RtlFindRange ::
  "RTL_RANGE_LIST \<Rightarrow> ULONGLONG \<Rightarrow> ULONGLONG \<Rightarrow> ULONG \<Rightarrow> ULONG \<Rightarrow> NTSTATUS \<times> ULONGLONG option" where
  "RtlFindRange RangeList Minimum Maximum Length Alignment =
     (if Alignment = 0 \<or> Length = 0 then (STATUS_INVALID_PARAMETER, None)
      else if ListHead RangeList = [] then
        (STATUS_SUCCESS, Some (ucast (ROUND_DOWN (Maximum - ucast (Length - 1)) Alignment)))
      else find_range_loop Minimum Maximum Length Alignment None (rev (ListHead RangeList)))"

definition RtlFreeRangeList :: "RTL_RANGE_LIST \<Rightarrow> RTL_RANGE_LIST" where
  "RtlFreeRangeList RangeList = RangeList\<lparr>ListHead := [], ListFlags := 0, Count := 0\<rparr>"

section \<open>Iterating\<close>

text \<open>
  The iterator and, in place of the out parameter, the range pointed to. A step
  from a \<open>NULL\<close> iterator dereferences \<open>NULL\<close>: \<open>None\<close>.
\<close>

definition RtlGetFirstRange ::
  "RTL_RANGE_LIST \<Rightarrow> NTSTATUS \<times> RTL_RANGE_LIST_ITERATOR \<times> RTL_RANGE option" where
  "RtlGetFirstRange RangeList =
     (case ListHead RangeList of
        [] \<Rightarrow> (STATUS_NO_MORE_ENTRIES, \<lparr>Current = None, IterStamp = Stamp RangeList\<rparr>, None)
      | r # _ \<Rightarrow> (STATUS_SUCCESS, \<lparr>Current = Some 0, IterStamp = Stamp RangeList\<rparr>, Some r))"

definition RtlGetNextRange ::
  "RTL_RANGE_LIST \<Rightarrow> RTL_RANGE_LIST_ITERATOR \<Rightarrow> RTL_RANGE \<Rightarrow> bool \<Rightarrow>
     (NTSTATUS \<times> RTL_RANGE_LIST_ITERATOR \<times> RTL_RANGE) option" where
  "RtlGetNextRange RangeList Iterator Rng MoveForwards =
     (if IterStamp Iterator \<noteq> Stamp RangeList then Some (STATUS_INVALID_PARAMETER, Iterator, Rng)
      else
        (case Current Iterator of
           None \<Rightarrow> None
         | Some i \<Rightarrow>
             if length (ListHead RangeList) \<le> i then None
             else if (if MoveForwards then Suc i = length (ListHead RangeList) else i = 0) then
               Some (STATUS_NO_MORE_ENTRIES, Iterator, Rng)
             else
               (let next = (if MoveForwards then Suc i else i - 1)
                in Some (STATUS_SUCCESS, Iterator\<lparr>Current := Some next\<rparr>, ListHead RangeList ! next))))"

definition RtlInitializeRangeList :: RTL_RANGE_LIST where
  "RtlInitializeRangeList = \<lparr>ListHead = [], ListFlags = 0, Count = 0, Stamp = 0\<rparr>"

section \<open>Inverting, testing and merging\<close>

text \<open>The \<open>k\<close>-th entry the loop visits makes the \<open>k\<close>-th call of \<open>RtlAddRange\<close>.\<close>

fun invert_range_loop ::
  "(nat \<Rightarrow> bool) \<Rightarrow> nat \<Rightarrow> RTL_RANGE option \<Rightarrow> RTL_RANGE list \<Rightarrow> RTL_RANGE_LIST \<Rightarrow>
     NTSTATUS \<times> RTL_RANGE_LIST" where
  "invert_range_loop alloc k None [] InvertedRangeList = (STATUS_SUCCESS, InvertedRangeList)"
| "invert_range_loop alloc k (Some Previous) [] InvertedRangeList =
     (if RangeEnd Previous + 1 \<noteq> MAXULONGLONG then
        RtlAddRange (alloc k) InvertedRangeList (RangeEnd Previous + 1) MAXULONGLONG 0 0 0 0
      else (STATUS_SUCCESS, InvertedRangeList))"
| "invert_range_loop alloc k Previous (c # cs) InvertedRangeList =
     (let (Status, InvertedRangeList) =
        (case Previous of
           None \<Rightarrow>
             if RangeStart c \<noteq> 0 then
               RtlAddRange (alloc k) InvertedRangeList 0 (RangeStart c - 1) 0 0 0 0
             else (STATUS_SUCCESS, InvertedRangeList)
         | Some p \<Rightarrow>
             if RangeEnd p + 1 \<noteq> RangeStart c then
               RtlAddRange (alloc k) InvertedRangeList (RangeEnd p + 1) (RangeStart c - 1) 0 0 0 0
             else (STATUS_SUCCESS, InvertedRangeList))
      in if \<not> NT_SUCCESS Status then (Status, InvertedRangeList)
         else invert_range_loop alloc (Suc k) (Some c) cs InvertedRangeList)"

definition RtlInvertRangeList ::
  "(nat \<Rightarrow> bool) \<Rightarrow> RTL_RANGE_LIST \<Rightarrow> RTL_RANGE_LIST \<Rightarrow> NTSTATUS \<times> RTL_RANGE_LIST" where
  "RtlInvertRangeList alloc InvertedRangeList RangeList =
     (if ListHead RangeList = [] then (STATUS_SUCCESS, InvertedRangeList)
      else invert_range_loop alloc 0 None (ListHead RangeList) InvertedRangeList)"

definition range_conflicts :: "ULONGLONG \<Rightarrow> ULONGLONG \<Rightarrow> ULONG \<Rightarrow> RTL_RANGE \<Rightarrow> bool" where
  "range_conflicts s e flags c \<longleftrightarrow>
     \<not> (RangeStart c \<ge> e \<and> RangeEnd c > e \<or>
        RangeStart c \<le> s \<and> RangeEnd c < s \<and>
          (flags AND RTL_RANGE_SHARED = 0 \<or> ucast (RangeFlags c) AND RTL_RANGE_SHARED = 0))"

text \<open>\<open>Callback\<close> is the conflict routine of the caller, applied to its context.\<close>

fun is_range_available_loop ::
  "(RTL_RANGE \<Rightarrow> bool) option \<Rightarrow> ULONGLONG \<Rightarrow> ULONGLONG \<Rightarrow> ULONG \<Rightarrow> RTL_RANGE list \<Rightarrow> bool \<Rightarrow> bool" where
  "is_range_available_loop Callback s e flags [] Available = Available"
| "is_range_available_loop Callback s e flags (c # cs) Available =
     is_range_available_loop Callback s e flags cs
       (if range_conflicts s e flags c
        then (case Callback of Some f \<Rightarrow> f c | None \<Rightarrow> False)
        else Available)"

definition RtlIsRangeAvailable ::
  "(RTL_RANGE \<Rightarrow> bool) option \<Rightarrow> RTL_RANGE_LIST \<Rightarrow> ULONGLONG \<Rightarrow> ULONGLONG \<Rightarrow> ULONG \<Rightarrow> NTSTATUS \<times> bool" where
  "RtlIsRangeAvailable Callback RangeList s e flags =
     (STATUS_SUCCESS, is_range_available_loop Callback s e flags (ListHead RangeList) True)"

text \<open>
  The merge loop walks the second list with an iterator; \<open>left\<close> bounds the number
  of entries still ahead and is the length of the list at the call.
\<close>

fun merge_range_loop ::
  "(nat \<Rightarrow> bool) \<Rightarrow> nat \<Rightarrow> ULONG \<Rightarrow> RTL_RANGE_LIST \<Rightarrow> RTL_RANGE_LIST_ITERATOR \<Rightarrow> RTL_RANGE \<Rightarrow>
     RTL_RANGE_LIST \<Rightarrow> nat \<Rightarrow> (NTSTATUS \<times> RTL_RANGE_LIST) option" where
  "merge_range_loop alloc k flags RangeList2 Iterator Rng MergedRangeList left =
     (let (Status, MergedRangeList) =
            RtlAddRange (alloc k) MergedRangeList (RangeStart Rng) (RangeEnd Rng) (Attributes Rng)
              (ucast (RangeFlags Rng) OR flags) (UserData Rng) (Owner Rng)
      in if \<not> NT_SUCCESS Status then Some (Status, MergedRangeList)
         else
           (case RtlGetNextRange RangeList2 Iterator Rng True of
              None \<Rightarrow> None
            | Some (Status, Iterator, Rng) \<Rightarrow>
                if \<not> NT_SUCCESS Status then Some (Status, MergedRangeList)
                else
                  (case left of
                     0 \<Rightarrow> None
                   | Suc left \<Rightarrow>
                       merge_range_loop alloc (Suc k) flags RangeList2 Iterator Rng
                         MergedRangeList left)))"

definition RtlMergeRangeLists ::
  "(nat \<Rightarrow> bool) \<Rightarrow> (nat \<Rightarrow> bool) \<Rightarrow> RTL_RANGE_LIST \<Rightarrow> RTL_RANGE_LIST \<Rightarrow> RTL_RANGE_LIST \<Rightarrow> ULONG \<Rightarrow>
     (NTSTATUS \<times> RTL_RANGE_LIST) option" where
  "RtlMergeRangeLists alloc spare MergedRangeList RangeList1 RangeList2 flags =
     (case RtlCopyRangeList alloc spare MergedRangeList RangeList1 of
        None \<Rightarrow> None
      | Some (Status, MergedRangeList) \<Rightarrow>
          if \<not> NT_SUCCESS Status then Some (Status, MergedRangeList)
          else
            (case RtlGetFirstRange RangeList2 of
               (Status, Iterator, Rng) \<Rightarrow>
                 if \<not> NT_SUCCESS Status then
                   Some (if Status = STATUS_NO_MORE_ENTRIES then STATUS_SUCCESS else Status, MergedRangeList)
                 else
                   map_option
                     (\<lambda>(Status, l). (if Status = STATUS_NO_MORE_ENTRIES then STATUS_SUCCESS else Status, l))
                     (merge_range_loop alloc (length (ListHead RangeList1)) flags RangeList2 Iterator
                        (the Rng) MergedRangeList (length (ListHead RangeList2)))))"

section \<open>Well-formed lists and the addresses they cover\<close>

fun range_sorted :: "RTL_RANGE list \<Rightarrow> bool" where
  "range_sorted [] \<longleftrightarrow> True"
| "range_sorted (r # rs) \<longleftrightarrow>
     RangeStart r \<le> RangeEnd r \<and> list_all (\<lambda>q. RangeEnd r < RangeStart q) rs \<and> range_sorted rs"

definition range_iv :: "RTL_RANGE \<Rightarrow> ULONGLONG set" where
  "range_iv r = {RangeStart r..RangeEnd r}"

definition covers :: "RTL_RANGE list \<Rightarrow> ULONGLONG set" where
  "covers rs = (\<Union>r\<in>set rs. range_iv r)"

definition range_list_ok :: "RTL_RANGE_LIST \<Rightarrow> bool" where
  "range_list_ok l \<longleftrightarrow> range_sorted (ListHead l) \<and> unat (Count l) = length (ListHead l)"

text \<open>The number of ranges a list can still take before \<open>Count\<close> wraps.\<close>

definition room :: "RTL_RANGE_LIST \<Rightarrow> nat" where
  "room l = 4294967295 - length (ListHead l)"

lemma mset_insert_range [simp]: "mset (insert_range r rs) = add_mset r (mset rs)"
  by (induction rs) auto

lemma set_insert_range [simp]: "set (insert_range r rs) = insert r (set rs)"
  by (induction rs) auto

lemma length_insert_range [simp]: "length (insert_range r rs) = Suc (length rs)"
  by (induction rs) auto

lemma iv_disjoint_iff:
  fixes a b c d :: "'a :: linorder"
  assumes "a \<le> b" "c \<le> d"
  shows "{a..b} \<inter> {c..d} = {} \<longleftrightarrow> b < c \<or> d < a"
  using assms by (auto simp: Int_atLeastAtMost)

lemma range_sorted_le: "range_sorted rs \<Longrightarrow> q \<in> set rs \<Longrightarrow> RangeStart q \<le> RangeEnd q"
  by (induction rs) auto

lemma range_sorted_insert_range:
  assumes "range_sorted rs" "RangeStart r \<le> RangeEnd r"
    and "\<And>q. q \<in> set rs \<Longrightarrow> RangeEnd r < RangeStart q \<or> RangeEnd q < RangeStart r"
  shows "range_sorted (insert_range r rs)"
  using assms
proof (induction rs)
  case (Cons c cs)
  show ?case
  proof (cases "RangeStart c > RangeEnd r")
    case True
    then have "list_all (\<lambda>q. RangeEnd r < RangeStart q) cs"
      using Cons.prems(1) by (auto simp: list_all_iff)
    with True Cons.prems show ?thesis by simp
  next
    case False
    with Cons show ?thesis by (auto simp: list_all_iff)
  qed
qed simp

lemma covers_disjoint_iff:
  assumes "range_sorted rs" "s \<le> e"
  shows "{s..e} \<inter> covers rs = {} \<longleftrightarrow> (\<forall>q\<in>set rs. e < RangeStart q \<or> RangeEnd q < s)"
  using assms range_sorted_le [OF assms(1)]
  by (auto simp: covers_def range_iv_def iv_disjoint_iff UN_extend_simps disjoint_iff)

section \<open>The contract of adding a range\<close>

fun add_ranges :: "('l \<Rightarrow> 'r \<Rightarrow> NTSTATUS \<times> 'l) \<Rightarrow> 'r list \<Rightarrow> 'l \<Rightarrow> NTSTATUS \<times> 'l" where
  "add_ranges add [] l = (STATUS_SUCCESS, l)"
| "add_ranges add (r # rs) l =
     (case add l r of (Status, l') \<Rightarrow>
        if NT_SUCCESS Status then add_ranges add rs l' else (Status, l'))"

fun pairwise_disjoint :: "'a set list \<Rightarrow> bool" where
  "pairwise_disjoint [] \<longleftrightarrow> True"
| "pairwise_disjoint (A # As) \<longleftrightarrow> (\<forall>B\<in>set As. A \<inter> B = {}) \<and> pairwise_disjoint As"

locale range_adder =
  fixes inv :: "'l \<Rightarrow> bool" and cover :: "'l \<Rightarrow> ULONGLONG set" and free :: "'l \<Rightarrow> nat"
    and valid :: "'r \<Rightarrow> bool" and iv :: "'r \<Rightarrow> ULONGLONG set"
    and add :: "'l \<Rightarrow> 'r \<Rightarrow> NTSTATUS \<times> 'l"
  assumes add_ok: "inv l \<Longrightarrow> valid r \<Longrightarrow> iv r \<inter> cover l = {} \<Longrightarrow> 0 < free l \<Longrightarrow>
    \<exists>l'. add l r = (STATUS_SUCCESS, l') \<and> inv l' \<and> cover l' = cover l \<union> iv r \<and> free l = Suc (free l')"
begin

lemma add_ranges_ok:
  assumes "inv l" "list_all valid rs" "pairwise_disjoint (map iv rs)"
    and "\<And>r. r \<in> set rs \<Longrightarrow> iv r \<inter> cover l = {}" and "length rs \<le> free l"
  shows "\<exists>l'. add_ranges add rs l = (STATUS_SUCCESS, l') \<and> inv l' \<and>
    cover l' = cover l \<union> (\<Union>r\<in>set rs. iv r)"
  using assms
proof (induction rs arbitrary: l)
  case (Cons r rs)
  then obtain l1 where l1: "add l r = (STATUS_SUCCESS, l1)" "inv l1" "cover l1 = cover l \<union> iv r"
    "free l = Suc (free l1)"
    using add_ok [of l r] by auto
  have "\<exists>l'. add_ranges add rs l1 = (STATUS_SUCCESS, l') \<and> inv l' \<and>
      cover l' = cover l1 \<union> (\<Union>r\<in>set rs. iv r)"
    using Cons.prems l1 by (intro Cons.IH) auto
  with l1 show ?case by auto
qed simp

end

definition add_whole :: "ULONG \<Rightarrow> RTL_RANGE_LIST \<Rightarrow> RTL_RANGE \<Rightarrow> NTSTATUS \<times> RTL_RANGE_LIST" where
  "add_whole flags l r =
     RtlAddRange True l (RangeStart r) (RangeEnd r) (Attributes r) (ucast (RangeFlags r) OR flags)
       (UserData r) (Owner r)"

lemma RtlAddRange_ok:
  assumes ok: "range_list_ok l" and le: "s \<le> e" and dj: "{s..e} \<inter> covers (ListHead l) = {}"
    and rm: "0 < room l"
  shows "\<exists>l' r. RtlAddRange True l s e attr flags ud ow = (STATUS_SUCCESS, l') \<and> range_list_ok l' \<and>
    mset (ListHead l') = add_mset r (mset (ListHead l)) \<and>
    RangeStart r = s \<and> RangeEnd r = e \<and> Owner r = ow \<and> UserData r = ud \<and> Attributes r = attr \<and>
    covers (ListHead l') = covers (ListHead l) \<union> {s..e} \<and> room l = Suc (room l') \<and>
    Stamp l' = Stamp l + 1"
proof -
  define r where "r = \<lparr>RangeStart = s, RangeEnd = e, UserData = ud, Owner = ow, Attributes = attr,
    RangeFlags = (if flags AND RTL_RANGE_LIST_ADD_SHARED \<noteq> 0 then ucast RTL_RANGE_SHARED else 0)\<rparr>"
  define l' where "l' = l\<lparr>ListHead := insert_range r (ListHead l),
    Count := Count l + 1, Stamp := Stamp l + 1\<rparr>"
  have srt: "range_sorted (ListHead l)" and cnt: "unat (Count l) = length (ListHead l)"
    using ok by (auto simp: range_list_ok_def)
  have "Count l = 0 \<longleftrightarrow> ListHead l = []"
    using cnt by (metis length_0_conv unat_eq_zero)
  then have eq: "RtlAddRange True l s e attr flags ud ow = (STATUS_SUCCESS, l')"
    using le by (auto simp: RtlAddRange_def l'_def r_def Let_def)
  have "range_sorted (insert_range r (ListHead l))"
    using range_sorted_insert_range [OF srt, of r] le dj covers_disjoint_iff [OF srt le]
    by (auto simp: r_def)
  moreover have "unat (Count l + 1) = Suc (length (ListHead l))"
    using rm cnt by (simp add: unat_add_small room_def)
  moreover have "covers (insert_range r (ListHead l)) = covers (ListHead l) \<union> {s..e}"
    by (auto simp: covers_def range_iv_def r_def)
  ultimately show ?thesis
    unfolding eq using rm
    by (intro exI [of _ l'] exI [of _ r]) (simp add: range_list_ok_def l'_def r_def room_def)
qed

interpretation gap_adder: range_adder range_list_ok "\<lambda>l. covers (ListHead l)" room
    "\<lambda>(s, e). s \<le> e" "\<lambda>(s, e). {s..e}" "\<lambda>l (s, e). RtlAddRange True l s e 0 0 0 0"
  by unfold_locales (use RtlAddRange_ok in \<open>fastforce split: prod.splits\<close>)

interpretation merge_adder: range_adder range_list_ok "\<lambda>l. covers (ListHead l)" room
    "\<lambda>r. RangeStart r \<le> RangeEnd r" range_iv "add_whole flags"
  by unfold_locales (use RtlAddRange_ok in \<open>fastforce simp: add_whole_def range_iv_def\<close>)

section \<open>Inversion adds the gaps\<close>

fun gaps :: "RTL_RANGE option \<Rightarrow> RTL_RANGE list \<Rightarrow> (ULONGLONG \<times> ULONGLONG) list" where
  "gaps None [] = []"
| "gaps (Some p) [] = (if RangeEnd p + 1 \<noteq> MAXULONGLONG then [(RangeEnd p + 1, MAXULONGLONG)] else [])"
| "gaps None (c # cs) = (if RangeStart c \<noteq> 0 then [(0, RangeStart c - 1)] else []) @ gaps (Some c) cs"
| "gaps (Some p) (c # cs) =
     (if RangeEnd p + 1 \<noteq> RangeStart c then [(RangeEnd p + 1, RangeStart c - 1)] else []) @
     gaps (Some c) cs"

lemma invert_range_loop_gaps:
  "invert_range_loop (\<lambda>_. True) k prev cs l =
     add_ranges (\<lambda>l (s, e). RtlAddRange True l s e 0 0 0 0) (gaps prev cs) l"
proof (induction prev cs arbitrary: k l rule: gaps.induct)
  case (2 p)
  then show ?case by (auto split: prod.splits simp: RtlAddRange_def Let_def)
next
  case (3 c cs)
  then show ?case by (auto split: prod.splits)
next
  case (4 p c cs)
  then show ?case by (auto split: prod.splits)
qed simp

lemma word_gap:
  fixes a b x :: ULONGLONG
  assumes "a < b"
  shows "a + 1 \<noteq> b \<Longrightarrow> a + 1 \<le> b - 1" "a + 1 \<le> x \<longleftrightarrow> a < x" "x \<le> b - 1 \<longleftrightarrow> x < b"
    "a + 1 = b \<Longrightarrow> a < x \<longleftrightarrow> b \<le> x"
proof -
  have "unat a < unat b" "unat b < 2 ^ 64"
    using assms unsigned_less [of b] by (simp_all add: word_less_nat_alt)
  then have a1: "unat (a + 1) = unat a + 1"
    by (simp add: unat_word_ariths)
  have b1: "unat (b - 1) = unat b - 1"
    using \<open>unat a < unat b\<close> by (subst unat_sub) (auto simp: word_le_nat_alt)
  show "a + 1 \<noteq> b \<Longrightarrow> a + 1 \<le> b - 1"
    using \<open>unat a < unat b\<close> by (auto simp: word_unat_eq_iff word_le_nat_alt a1 b1)
  show "a + 1 \<le> x \<longleftrightarrow> a < x" "x \<le> b - 1 \<longleftrightarrow> x < b"
    using \<open>unat a < unat b\<close> by (auto simp: word_le_nat_alt word_less_nat_alt a1 b1)
  then show "a + 1 = b \<Longrightarrow> a < x \<longleftrightarrow> b \<le> x" by auto
qed

definition above :: "RTL_RANGE option \<Rightarrow> ULONGLONG set" where
  "above prev = {x. case prev of None \<Rightarrow> True | Some p \<Rightarrow> RangeEnd p < x}"

definition gap_iv :: "ULONGLONG \<times> ULONGLONG \<Rightarrow> ULONGLONG set" where
  "gap_iv = (\<lambda>(s, e). {s..e})"

lemma head_gap:
  assumes "case prev of None \<Rightarrow> True | Some p \<Rightarrow> RangeEnd p < RangeStart c"
  defines "h \<equiv> (case prev of
      None \<Rightarrow> if RangeStart c \<noteq> 0 then [(0, RangeStart c - 1)] else []
    | Some p \<Rightarrow> if RangeEnd p + 1 \<noteq> RangeStart c then [(RangeEnd p + 1, RangeStart c - 1)] else [])"
  shows "list_all (\<lambda>(s, e). s \<le> e) h" "length h \<le> 1"
    "(\<Union>g\<in>set h. gap_iv g) = {x \<in> above prev. x < RangeStart c}"
proof -
  have pos: "x \<le> RangeStart c - 1 \<longleftrightarrow> x < RangeStart c" if "RangeStart c \<noteq> 0" for x
    using that word_gap(3) [of 0 "RangeStart c" x] by (simp add: word_gt_0)
  show "list_all (\<lambda>(s, e). s \<le> e) h" "length h \<le> 1"
    using assms(1) word_gap(1) by (auto simp: h_def split: option.splits)
  show "(\<Union>g\<in>set h. gap_iv g) = {x \<in> above prev. x < RangeStart c}"
  proof (cases prev)
    case None
    then show ?thesis
      by (cases "RangeStart c = 0") (auto simp: h_def gap_iv_def above_def pos)
  next
    case (Some p)
    then have lt: "RangeEnd p < RangeStart c" using assms(1) by simp
    show ?thesis
    proof (cases "RangeEnd p + 1 = RangeStart c")
      case True
      then have "h = []" by (simp add: h_def Some)
      moreover have "{x \<in> above prev. x < RangeStart c} = {}"
        using word_gap(4) [OF lt True] unfolding above_def Some by (auto dest: leD)
      ultimately show ?thesis by simp
    next
      case False
      with Some show ?thesis
        by (simp add: h_def gap_iv_def above_def word_gap(2) [OF lt] word_gap(3) [OF lt] set_eq_iff)
    qed
  qed
qed

lemma gaps_Cons:
  "gaps prev (c # cs) = (case prev of
      None \<Rightarrow> if RangeStart c \<noteq> 0 then [(0, RangeStart c - 1)] else []
    | Some p \<Rightarrow> if RangeEnd p + 1 \<noteq> RangeStart c then [(RangeEnd p + 1, RangeStart c - 1)] else []) @
    gaps (Some c) cs"
  by (cases prev) auto

lemma pairwise_disjoint_append:
  "pairwise_disjoint (As @ Bs) \<longleftrightarrow>
     pairwise_disjoint As \<and> pairwise_disjoint Bs \<and> (\<forall>A\<in>set As. \<forall>B\<in>set Bs. A \<inter> B = {})"
  by (induction As) auto

lemma pairwise_disjoint_short: "length As \<le> 1 \<Longrightarrow> pairwise_disjoint As"
  by (cases As) auto

text \<open>The last address when the list ends just below it: the test on the last gap skips it.\<close>

fun lost :: "RTL_RANGE option \<Rightarrow> RTL_RANGE list \<Rightarrow> ULONGLONG set" where
  "lost None [] = {}"
| "lost (Some p) [] = (if RangeEnd p = MAXULONGLONG - 1 then {MAXULONGLONG} else {})"
| "lost prev (c # cs) = lost (Some c) cs"

lemma lost_last: "cs \<noteq> [] \<Longrightarrow> lost prev cs = (if RangeEnd (last cs) = MAXULONGLONG - 1 then {MAXULONGLONG} else {})"
  by (induction prev cs rule: lost.induct) (auto simp: neq_Nil_conv)

lemma lost_subset: "lost prev cs \<subseteq> {MAXULONGLONG}"
  by (induction prev cs rule: lost.induct) auto

lemma le_MAXULONGLONG [simp]: "x \<le> MAXULONGLONG"
  using unat_less_2p64 [of x] by (simp add: word_le_nat_alt)

lemma gaps_valid:
  assumes "range_sorted cs" "\<forall>p c. prev = Some p \<and> c \<in> set cs \<longrightarrow> RangeEnd p < RangeStart c"
  shows "list_all (\<lambda>(s, e). s \<le> e) (gaps prev cs)"
  using assms
proof (induction cs arbitrary: prev)
  case Nil
  then show ?case by (cases prev) auto
next
  case (Cons c cs)
  have "case prev of None \<Rightarrow> True | Some p \<Rightarrow> RangeEnd p < RangeStart c"
    using Cons.prems(2) by (cases prev) auto
  note head_gap(1) [OF this]
  moreover have "list_all (\<lambda>(s, e). s \<le> e) (gaps (Some c) cs)"
    using Cons.prems(1) by (intro Cons.IH) (auto simp: list_all_iff)
  ultimately show ?case unfolding gaps_Cons by simp
qed

lemma gaps_last_max: "cs \<noteq> [] \<Longrightarrow> RangeEnd (last cs) = MAXULONGLONG \<Longrightarrow> (0, MAXULONGLONG) \<in> set (gaps prev cs)"
proof (induction cs arbitrary: prev)
  case (Cons c cs)
  have "(0, MAXULONGLONG) \<in> set (gaps (Some c) cs)"
  proof (cases "cs = []")
    case True
    with Cons.prems show ?thesis by simp
  next
    case False
    with Cons show ?thesis by (simp del: gaps.simps)
  qed
  then show ?case unfolding gaps_Cons by simp
qed simp

lemma range_sorted_last:
  assumes "range_sorted cs" "r \<in> set cs" "RangeEnd (last cs) \<noteq> MAXULONGLONG"
  shows "RangeEnd r < MAXULONGLONG"
  using assms
proof (induction cs)
  case (Cons c cs)
  show ?case
  proof (cases "cs = []")
    case True
    with Cons.prems show ?thesis by (auto simp: less_le)
  next
    case False
    then have "last cs \<in> set cs" by simp
    then have "RangeEnd c < RangeStart (last cs)" using Cons.prems(1) by (auto simp: list_all_iff)
    then have "RangeEnd c < MAXULONGLONG" by (rule order_less_le_trans) simp
    with Cons False show ?thesis by auto
  qed
qed simp

lemma word_top_gap:
  fixes a :: ULONGLONG
  assumes "a < MAXULONGLONG"
  shows "a + 1 = MAXULONGLONG \<longleftrightarrow> a = MAXULONGLONG - 1"
  by (metis add_diff_cancel diff_add_cancel)

lemma gaps_spec:
  assumes "range_sorted cs" "prev \<noteq> None \<or> cs \<noteq> []"
    and "\<forall>p c. prev = Some p \<and> c \<in> set cs \<longrightarrow> RangeEnd p < RangeStart c"
    and "\<forall>p \<in> set_option prev \<union> set cs. RangeEnd p < MAXULONGLONG"
  shows "pairwise_disjoint (map gap_iv (gaps prev cs)) \<and>
    (\<Union>g\<in>set (gaps prev cs). gap_iv g) = above prev - covers cs - lost prev cs \<and>
    length (gaps prev cs) \<le> Suc (length cs)"
  using assms
proof (induction cs arbitrary: prev)
  case Nil
  then obtain p where p: "prev = Some p" "RangeEnd p < MAXULONGLONG" by auto
  have le: "RangeEnd p + 1 \<le> x \<longleftrightarrow> RangeEnd p < x" for x using word_gap(2) [OF p(2)] .
  show ?case
  proof (cases "RangeEnd p = MAXULONGLONG - 1")
    case True
    then have "RangeEnd p < x \<Longrightarrow> x = MAXULONGLONG" for x using le [of x] by (simp add: antisym)
    with True show ?thesis by (auto simp: p above_def)
  next
    case False
    with p(2) have "gaps prev [] = [(RangeEnd p + 1, MAXULONGLONG)]" by (simp only: p gaps.simps word_top_gap) simp
    with False show ?thesis by (auto simp: p gap_iv_def above_def covers_def le)
  qed
next
  case (Cons c cs)
  have sorted: "range_sorted cs" and c: "RangeStart c \<le> RangeEnd c"
    and after: "\<And>q. q \<in> set cs \<Longrightarrow> RangeEnd c < RangeStart q"
    using Cons.prems(1) by (simp_all add: list_all_iff)
  have bnd: "\<forall>p \<in> set_option (Some c) \<union> set cs. RangeEnd p < MAXULONGLONG"
    using Cons.prems(4) by simp
  have IH: "pairwise_disjoint (map gap_iv (gaps (Some c) cs))"
    "(\<Union>g\<in>set (gaps (Some c) cs). gap_iv g) = above (Some c) - covers cs - lost (Some c) cs"
    "length (gaps (Some c) cs) \<le> Suc (length cs)"
    using Cons.IH [OF sorted _ _ bnd] after by blast+
  have pc: "case prev of None \<Rightarrow> True | Some p \<Rightarrow> RangeEnd p < RangeStart c"
    using Cons.prems(3) by (cases prev) auto
  have pc': "above (Some c) \<subseteq> above prev" "range_iv c \<subseteq> above prev"
    using pc c by (cases prev; force simp: above_def range_iv_def)+
  define h where "h = (case prev of
      None \<Rightarrow> if RangeStart c \<noteq> 0 then [(0, RangeStart c - 1)] else []
    | Some p \<Rightarrow> if RangeEnd p + 1 \<noteq> RangeStart c then [(RangeEnd p + 1, RangeStart c - 1)] else [])"
  note H = head_gap [OF pc, folded h_def]
  have low: "RangeStart c \<le> x" if "x \<in> lost (Some c) cs" for x
    using that lost_subset [of "Some c" cs] by auto
  have split: "above prev - covers (c # cs) =
      {x \<in> above prev. x < RangeStart c} \<union> (above (Some c) - covers cs)"
  proof (intro equalityI subsetI)
    fix x assume "x \<in> above prev - covers (c # cs)"
    then show "x \<in> {x \<in> above prev. x < RangeStart c} \<union> (above (Some c) - covers cs)"
      by (auto simp: covers_def range_iv_def above_def)
  next
    fix x assume x: "x \<in> {x \<in> above prev. x < RangeStart c} \<union> (above (Some c) - covers cs)"
    have low: "x \<notin> covers (c # cs)" if "x < RangeStart c"
      using that c after by (force simp: covers_def range_iv_def)
    show "x \<in> above prev - covers (c # cs)"
      using x low pc'(1) by (auto simp: covers_def range_iv_def above_def)
  qed
  have "A \<inter> B = {}" if "A \<in> set (map gap_iv h)" "B \<in> set (map gap_iv (gaps (Some c) cs))" for A B
  proof -
    have "A \<subseteq> {x. x < RangeStart c}" using that(1) H(3) by auto
    moreover have "B \<subseteq> {x. RangeEnd c < x}" using that(2) IH(2) by (auto simp: above_def)
    ultimately show ?thesis using c by force
  qed
  then have "pairwise_disjoint (map gap_iv (h @ gaps (Some c) cs))"
    using IH(1) H(2) by (simp add: pairwise_disjoint_append pairwise_disjoint_short)
  moreover have "length (h @ gaps (Some c) cs) \<le> Suc (length (c # cs))"
    using H(2) IH(3) by simp
  moreover have "(\<Union>g\<in>set (h @ gaps (Some c) cs). gap_iv g) = above prev - covers (c # cs) - lost prev (c # cs)"
    unfolding split set_append UN_Un H(3) IH(2) lost.simps using low by (auto dest: leD)
  ultimately show ?case
    unfolding gaps_Cons h_def [symmetric] by blast
qed

text \<open>Adding ranges succeeds and covers them whether or not they overlap.\<close>

lemma add_gaps_covers:
  assumes "list_all (\<lambda>(s, e). s \<le> e) gs"
  shows "\<exists>l'. add_ranges (\<lambda>l (s, e). RtlAddRange True l s e 0 0 0 0) gs l = (STATUS_SUCCESS, l') \<and>
    covers (ListHead l') = covers (ListHead l) \<union> (\<Union>g\<in>set gs. gap_iv g)"
  using assms
proof (induction gs arbitrary: l)
  case (Cons g gs)
  obtain s e where g: "g = (s, e)" by fastforce
  define l1 where "l1 = snd (RtlAddRange True l s e 0 0 0 0)"
  have add: "RtlAddRange True l s e 0 0 0 0 = (STATUS_SUCCESS, l1)"
    "covers (ListHead l1) = covers (ListHead l) \<union> {s..e}"
    using Cons.prems by (auto simp: l1_def g RtlAddRange_def Let_def covers_def range_iv_def)
  from Cons.IH [of l1] Cons.prems add show ?case by (auto simp: g gap_iv_def)
qed simp

section \<open>Merging adds the second list\<close>

lemma copy_range_loop_all:
  "copy_range_loop (\<lambda>_. True) spare k cs l =
     (if \<forall>j<length cs. spare (k + j)
      then Some (STATUS_SUCCESS, l\<lparr>ListHead := ListHead l @ cs, Count := Count l + of_nat (length cs),
        Stamp := Stamp l + 1\<rparr>)
      else None)"
proof (induction cs arbitrary: k l)
  case (Cons c cs)
  have "(\<forall>j<length (c # cs). spare (k + j)) \<longleftrightarrow> spare k \<and> (\<forall>j<length cs. spare (Suc k + j))"
    by (auto simp: All_less_Suc2)
  with Cons show ?case by (simp add: add.assoc)
qed simp

lemma RtlGetNextRange_forward:
  "i < length (ListHead l) \<Longrightarrow>
   RtlGetNextRange l \<lparr>Current = Some i, IterStamp = Stamp l\<rparr> r True =
     Some (if Suc i = length (ListHead l)
           then (STATUS_NO_MORE_ENTRIES, \<lparr>Current = Some i, IterStamp = Stamp l\<rparr>, r)
           else (STATUS_SUCCESS, \<lparr>Current = Some (Suc i), IterStamp = Stamp l\<rparr>, ListHead l ! Suc i))"
  by (auto simp: RtlGetNextRange_def Let_def)

lemma merge_range_loop_all:
  assumes "i < length (ListHead rl2)" "length (ListHead rl2) \<le> i + Suc left"
  shows "merge_range_loop (\<lambda>_. True) k flags rl2 \<lparr>Current = Some i, IterStamp = Stamp rl2\<rparr>
      (ListHead rl2 ! i) l left =
    Some (case add_ranges (add_whole flags) (drop i (ListHead rl2)) l of
      (Status, l') \<Rightarrow> (if NT_SUCCESS Status then STATUS_NO_MORE_ENTRIES else Status, l'))"
  using assms
proof (induction left arbitrary: i k l)
  case 0
  then have "Suc i = length (ListHead rl2)" by simp
  moreover from 0 have "drop i (ListHead rl2) = ListHead rl2 ! i # drop (Suc i) (ListHead rl2)"
    by (simp only: Cons_nth_drop_Suc)
  ultimately show ?case
    using 0 by (simp add: RtlGetNextRange_forward add_whole_def [symmetric] split: prod.split)
next
  case (Suc left)
  have drop: "drop i (ListHead rl2) = ListHead rl2 ! i # drop (Suc i) (ListHead rl2)"
    using Suc.prems by (simp only: Cons_nth_drop_Suc)
  obtain Status l1 where add: "add_whole flags l (ListHead rl2 ! i) = (Status, l1)" by fastforce
  show ?case
  proof (cases "NT_SUCCESS Status \<and> Suc i \<noteq> length (ListHead rl2)")
    case True
    then show ?thesis
      using Suc.prems Suc.IH [of "Suc i" "Suc k" l1] add
      by (simp add: RtlGetNextRange_forward drop add_whole_def [symmetric])
  next
    case False
    then show ?thesis
      using Suc.prems add
      by (auto simp: RtlGetNextRange_forward drop add_whole_def [symmetric])
  qed
qed

lemma pairwise_disjoint_sorted: "range_sorted rs \<Longrightarrow> pairwise_disjoint (map range_iv rs)"
proof (induction rs)
  case (Cons r rs)
  have "range_iv r \<inter> range_iv q = {}" if "q \<in> set rs" for q
    using that Cons.prems range_sorted_le [of rs q]
    by (auto simp: list_all_iff range_iv_def iv_disjoint_iff)
  with Cons show ?case by auto
qed simp

section \<open>Soundness of the search\<close>










lemma delete_owners_loop_filter:
  "\<exists>l'. delete_owners_loop True ow kept cs l = Some l' \<and>
    ListHead l' = kept @ filter (\<lambda>r. Owner r \<noteq> ow) cs \<and>
    Count l' = Count l - of_nat (length (filter (\<lambda>r. Owner r = ow) cs))"
proof (induction cs arbitrary: kept l)
  case (Cons c cs)
  show ?case
  proof (cases "Owner c = ow")
    case True
    with Cons.IH [of kept "l\<lparr>Count := Count l - 1, Stamp := Stamp l + 1\<rparr>"] show ?thesis by auto
  next
    case False
    with Cons.IH [of "kept @ [c]" l] show ?thesis by auto
  qed
qed simp

section \<open>Properties\<close>

definition example_range :: "ULONGLONG \<Rightarrow> ULONGLONG \<Rightarrow> RTL_RANGE" where
  "example_range s e = \<lparr>RangeStart = s, RangeEnd = e, UserData = 0, Owner = 1, Attributes = 0, RangeFlags = 0\<rparr>"

definition example_list :: RTL_RANGE_LIST where
  "example_list = \<lparr>ListHead = [example_range 0x100 0x1FF, example_range 0x400 0x4FF],
     ListFlags = 0, Count = 2, Stamp = 5\<rparr>"

lemma example_list_ok: "range_list_ok example_list"
  by (simp add: range_list_ok_def example_list_def example_range_def)

lemma covers_example_list: "covers (ListHead example_list) = {0x100..0x1FF} \<union> {0x400..0x4FF}"
  by (auto simp: covers_def example_list_def example_range_def range_iv_def)

text \<open>
  C11: \<open>RtlAddRange\<close> on a well-formed list and a range that meets none of its ranges
  succeeds, keeps the ranges sorted and disjoint with \<open>Count\<close> their number, adds
  exactly the new range with the caller's data, and covers exactly the new
  addresses in addition.
\<close>

theorem RtlAddRange_inserts:
  assumes "range_list_ok l" and "s \<le> e" and "{s..e} \<inter> covers (ListHead l) = {}"
    and "length (ListHead l) < 4294967295"
  shows "\<exists>l' r. RtlAddRange True l s e attr flags ud ow = (STATUS_SUCCESS, l') \<and> range_list_ok l' \<and>
    mset (ListHead l') = add_mset r (mset (ListHead l)) \<and>
    RangeStart r = s \<and> RangeEnd r = e \<and> Owner r = ow \<and> UserData r = ud \<and> Attributes r = attr \<and>
    covers (ListHead l') = covers (ListHead l) \<union> {s..e}"
  using RtlAddRange_ok [OF assms(1-3), of attr flags ud ow] assms(4) by (auto simp: room_def)

theorem RtlAddRange_inserts_witness:
  "\<exists>l' r. RtlAddRange True example_list 0x200 0x3FF 0 0 0 7 = (STATUS_SUCCESS, l') \<and> range_list_ok l' \<and>
    mset (ListHead l') = add_mset r (mset (ListHead example_list)) \<and>
    RangeStart r = 0x200 \<and> RangeEnd r = 0x3FF \<and> Owner r = 7 \<and> UserData r = 0 \<and> Attributes r = 0 \<and>
    covers (ListHead l') = covers (ListHead example_list) \<union> {0x200..0x3FF}"
proof (rule RtlAddRange_inserts)
  show "{0x200..0x3FF} \<inter> covers (ListHead example_list) = {}"
    unfolding covers_example_list by (auto simp: Int_Un_distrib iv_disjoint_iff)
qed (simp_all add: example_list_ok, simp add: example_list_def)

text \<open>
  C22: \<open>RtlInvertRangeList\<close> into an initialised list, when no allocation fails, on every
  well-formed list. It always succeeds. The result is the well-formed list of exactly
  the uncovered 64-bit addresses, with three exceptions: an empty list gives an empty
  list; when the last range ends at \<open>2 ^ 64 - 2\<close> the address \<open>2 ^ 64 - 1\<close> is missing;
  and when it ends at \<open>2 ^ 64 - 1\<close> the whole address space is added.
\<close>

theorem RtlInvertRangeList_complement:
  assumes "range_list_ok l" and "length (ListHead l) < 4294967295"
  shows "\<exists>l'. RtlInvertRangeList (\<lambda>_. True) RtlInitializeRangeList l = (STATUS_SUCCESS, l') \<and>
    (if ListHead l = [] then l' = RtlInitializeRangeList
     else if RangeEnd (last (ListHead l)) = MAXULONGLONG then covers (ListHead l') = UNIV
     else range_list_ok l' \<and> covers (ListHead l') = - covers (ListHead l) -
       (if RangeEnd (last (ListHead l)) = MAXULONGLONG - 1 then {MAXULONGLONG} else {}))"
proof (cases "ListHead l = []")
  case True
  then show ?thesis by (simp add: RtlInvertRangeList_def)
next
  case ne: False
  have srt: "range_sorted (ListHead l)" using assms(1) by (simp add: range_list_ok_def)
  have valid: "list_all (\<lambda>(s, e). s \<le> e) (gaps None (ListHead l))" by (rule gaps_valid [OF srt]) simp
  have init: "range_list_ok RtlInitializeRangeList" "covers (ListHead RtlInitializeRangeList) = {}"
    "room RtlInitializeRangeList = 4294967295"
    by (simp_all add: range_list_ok_def RtlInitializeRangeList_def covers_def room_def)
  have inv: "RtlInvertRangeList (\<lambda>_. True) RtlInitializeRangeList l =
      add_ranges (\<lambda>l (s, e). RtlAddRange True l s e 0 0 0 0) (gaps None (ListHead l)) RtlInitializeRangeList"
    using ne by (simp add: RtlInvertRangeList_def invert_range_loop_gaps)
  show ?thesis
  proof (cases "RangeEnd (last (ListHead l)) = MAXULONGLONG")
    case True
    have "gap_iv (0, MAXULONGLONG) = UNIV" by (auto simp: gap_iv_def)
    then have "(\<Union>g\<in>set (gaps None (ListHead l)). gap_iv g) = UNIV"
      using gaps_last_max [OF ne True, of None] by blast
    with add_gaps_covers [OF valid, of RtlInitializeRangeList] show ?thesis using ne True unfolding inv by auto
  next
    case False
    have G: "pairwise_disjoint (map gap_iv (gaps None (ListHead l)))"
      "(\<Union>g\<in>set (gaps None (ListHead l)). gap_iv g) = above None - covers (ListHead l) - lost None (ListHead l)"
      "length (gaps None (ListHead l)) \<le> Suc (length (ListHead l))"
      using gaps_spec [OF srt, of None] ne range_sorted_last [OF srt _ False] by auto
    with gap_adder.add_ranges_ok [of RtlInitializeRangeList "gaps None (ListHead l)"] init valid assms(2)
    have "\<exists>l'. add_ranges (\<lambda>l (s, e). RtlAddRange True l s e 0 0 0 0) (gaps None (ListHead l))
        RtlInitializeRangeList = (STATUS_SUCCESS, l') \<and> range_list_ok l' \<and>
        covers (ListHead l') = above None - covers (ListHead l) - lost None (ListHead l)"
      by (simp add: gap_iv_def)
    then show ?thesis
      using ne False unfolding inv lost_last [OF ne] by (simp add: above_def Compl_eq_Diff_UNIV)
  qed
qed

theorem RtlInvertRangeList_complement_witness:
  "(\<exists>l'. RtlInvertRangeList (\<lambda>_. True) RtlInitializeRangeList example_list = (STATUS_SUCCESS, l') \<and>
    range_list_ok l' \<and> covers (ListHead l') = - covers (ListHead example_list)) \<and>
   (\<exists>l'. RtlInvertRangeList (\<lambda>_. True) RtlInitializeRangeList
      (example_list\<lparr>ListHead := [example_range 0x100 MAXULONGLONG], Count := 1\<rparr>) = (STATUS_SUCCESS, l') \<and>
    covers (ListHead l') = UNIV)"
proof -
  let ?l = "example_list\<lparr>ListHead := [example_range 0x100 MAXULONGLONG], Count := 1\<rparr>"
  have "range_list_ok ?l" by (simp add: example_list_def range_list_ok_def example_range_def)
  with RtlInvertRangeList_complement [of ?l] RtlInvertRangeList_complement [OF example_list_ok] show ?thesis
    by (simp add: example_list_def example_range_def)
qed

text \<open>
  C23: when no allocation fails, \<open>RtlMergeRangeLists\<close> of two well-formed lists that
  cover disjoint addresses ends, succeeds, and yields a well-formed list that
  covers exactly the addresses of the two, as long as each of the eight-byte overruns
  of the copy of the first list hits bytes that belong to nobody. If one of them does
  not, the call is undefined.
\<close>

theorem RtlMergeRangeLists_union:
  assumes "range_list_ok l1" and "range_list_ok l2"
    and "covers (ListHead l1) \<inter> covers (ListHead l2) = {}"
    and "length (ListHead l1) + length (ListHead l2) < 4294967296"
  shows "if \<forall>k<length (ListHead l1). spare k
    then \<exists>l'. RtlMergeRangeLists (\<lambda>_. True) spare RtlInitializeRangeList l1 l2 flags = Some (STATUS_SUCCESS, l') \<and>
      range_list_ok l' \<and> covers (ListHead l') = covers (ListHead l1) \<union> covers (ListHead l2)
    else RtlMergeRangeLists (\<lambda>_. True) spare RtlInitializeRangeList l1 l2 flags = None"
proof (cases "\<forall>k<length (ListHead l1). spare k")
  case False
  then have "RtlCopyRangeList (\<lambda>_. True) spare RtlInitializeRangeList l1 = None"
    by (simp add: RtlCopyRangeList_def copy_range_loop_all)
  with False show ?thesis by (simp add: RtlMergeRangeLists_def)
next
  case spare: True
  define l0 where "l0 = RtlInitializeRangeList\<lparr>ListHead := ListHead l1, ListFlags := ListFlags l1,
    Count := of_nat (length (ListHead l1)), Stamp := 1\<rparr>"
  have copy: "RtlCopyRangeList (\<lambda>_. True) spare RtlInitializeRangeList l1 = Some (STATUS_SUCCESS, l0)"
    using spare by (simp add: RtlCopyRangeList_def copy_range_loop_all l0_def RtlInitializeRangeList_def)
  have ok0: "range_list_ok l0" "ListHead l0 = ListHead l1"
    using assms(1,4) by (auto simp: range_list_ok_def l0_def unat_of_nat)
  have valid: "list_all (\<lambda>r. RangeStart r \<le> RangeEnd r) (ListHead l2)"
    "pairwise_disjoint (map range_iv (ListHead l2))"
    using assms(2) range_sorted_le pairwise_disjoint_sorted by (auto simp: range_list_ok_def list_all_iff)
  have dj: "range_iv r \<inter> covers (ListHead l0) = {}" if "r \<in> set (ListHead l2)" for r
    using that assms(3) ok0(2) by (auto simp: covers_def)
  have "length (ListHead l2) \<le> room l0"
    using assms(4) ok0(2) by (simp add: room_def)
  from merge_adder.add_ranges_ok [OF ok0(1) valid dj this, of flags]
  obtain l' where l': "add_ranges (add_whole flags) (ListHead l2) l0 = (STATUS_SUCCESS, l')"
    "range_list_ok l'" "covers (ListHead l') = covers (ListHead l1) \<union> covers (ListHead l2)"
    by (auto simp: covers_def ok0(2))
  show ?thesis
  proof (cases "ListHead l2")
    case Nil
    with l' copy spare show ?thesis by (simp add: RtlMergeRangeLists_def RtlGetFirstRange_def)
  next
    case (Cons r rs)
    then have "merge_range_loop (\<lambda>_. True) (length (ListHead l1)) flags l2
        \<lparr>Current = Some 0, IterStamp = Stamp l2\<rparr> r l0 (length (ListHead l2)) =
        Some (STATUS_NO_MORE_ENTRIES, l')"
      using merge_range_loop_all [of 0 l2 "length (ListHead l2)" "length (ListHead l1)" flags l0] l'(1)
      by (simp del: merge_range_loop.simps)
    with Cons l'(2,3) copy spare show ?thesis
      by (simp add: RtlMergeRangeLists_def RtlGetFirstRange_def del: merge_range_loop.simps)
  qed
qed

theorem RtlMergeRangeLists_union_witness:
  "(\<exists>l'. RtlMergeRangeLists (\<lambda>_. True) (\<lambda>_. True) RtlInitializeRangeList example_list
      (example_list\<lparr>ListHead := [example_range 0x200 0x2FF], Count := 1\<rparr>) 0 = Some (STATUS_SUCCESS, l') \<and>
    range_list_ok l' \<and> covers (ListHead l') = covers (ListHead example_list) \<union>
      covers (ListHead (example_list\<lparr>ListHead := [example_range 0x200 0x2FF], Count := 1\<rparr>))) \<and>
   RtlMergeRangeLists (\<lambda>_. True) (\<lambda>k. k = 0) RtlInitializeRangeList example_list
      (example_list\<lparr>ListHead := [example_range 0x200 0x2FF], Count := 1\<rparr>) 0 = None"
proof -
  let ?l2 = "example_list\<lparr>ListHead := [example_range 0x200 0x2FF], Count := 1\<rparr>"
  have "covers (ListHead example_list) \<inter> covers (ListHead ?l2) = {}"
    unfolding covers_example_list
    by (simp add: covers_def range_iv_def example_range_def Int_Un_distrib2 iv_disjoint_iff)
  moreover have "range_list_ok ?l2" by (simp add: example_list_def range_list_ok_def example_range_def)
  moreover have "length (ListHead example_list) = 2" by (simp add: example_list_def)
  ultimately have *: "if \<forall>k<2. spare k
    then \<exists>l'. RtlMergeRangeLists (\<lambda>_. True) spare RtlInitializeRangeList example_list ?l2 0 = Some (STATUS_SUCCESS, l') \<and>
      range_list_ok l' \<and> covers (ListHead l') = covers (ListHead example_list) \<union> covers (ListHead ?l2)
    else RtlMergeRangeLists (\<lambda>_. True) spare RtlInitializeRangeList example_list ?l2 0 = None" for spare
    using RtlMergeRangeLists_union [OF example_list_ok, of ?l2 spare 0] by simp
  have "\<not> (\<forall>k<2. k = (0 :: nat))" by (auto intro: exI [of _ 1])
  with * [of "\<lambda>_. True"] * [of "\<lambda>k. k = 0"] show ?thesis by simp
qed



text \<open>
  \<open>RtlFindRange\<close> computes \<open>NextEntry->Range.Start - 1\<close> without a guard. With the
  single range \<open>[0, 0xFFF]\<close> and the window \<open>[0, 0xFFF]\<close>, where nothing is free, it
  succeeds with an address far above \<open>Maximum\<close>.
\<close>

theorem RtlFindRange_wraps_below_zero:
  "RtlFindRange \<lparr>ListHead = [example_range 0 0xFFF], ListFlags = 0, Count = 1, Stamp = 1\<rparr> 0 0xFFF 0x10 0x10 =
     (STATUS_SUCCESS, Some 0xFFFFFFF0)"
  by (simp add: RtlFindRange_def example_list_def example_range_def find_range_candidate_def
        ROUND_DOWN_def Let_def)

text \<open>
  An iterator does not survive a change of its list. After a successful
  \<open>RtlAddRange\<close> or \<open>RtlDeleteRange\<close>, \<open>RtlGetNextRange\<close> refuses every iterator whose
  stamp is that of the list before the change, in both directions, and leaves the
  iterator alone.
\<close>

theorem stale_iterator_refused:
  assumes "IterStamp it = Stamp l"
    and "RtlAddRange a l s e attr flags ud ow = (STATUS_SUCCESS, l') \<or>
         RtlDeleteRange l s e ow = (STATUS_SUCCESS, l')"
  shows "RtlGetNextRange l' it r forward = Some (STATUS_INVALID_PARAMETER, it, r)"
proof -
  have "Stamp l' = Stamp l + 1"
    using assms(2)
    by (auto simp: RtlAddRange_def RtlDeleteRange_def Let_def split: if_splits option.splits)
  then show ?thesis using assms(1) by (simp add: RtlGetNextRange_def)
qed

theorem stale_iterator_refused_witness:
  "RtlGetNextRange (snd (RtlDeleteRange example_list 0x100 0x1FF 1)) \<lparr>Current = Some 0, IterStamp = 5\<rparr>
     (example_range 0x100 0x1FF) True =
   Some (STATUS_INVALID_PARAMETER, \<lparr>Current = Some 0, IterStamp = 5\<rparr>, example_range 0x100 0x1FF)"
  by (rule stale_iterator_refused [where l = example_list and s = "0x100" and e = "0x1FF" and ow = 1])
    (simp_all add: example_list_def example_range_def RtlDeleteRange_def)

lemma start_in_covers: "q \<in> set rs \<Longrightarrow> RangeStart q \<le> RangeEnd q \<Longrightarrow> RangeStart q \<in> covers rs"
  unfolding covers_def range_iv_def by force

lemma delete_range_loop_mset:
  assumes "r \<in> set rs" "matches r" "\<And>q. q \<in> set rs \<Longrightarrow> matches q \<Longrightarrow> q = r"
  shows "\<exists>rest. delete_range_loop matches rs = Some rest \<and> mset rs = add_mset r (mset rest)"
  using assms
proof (induction rs)
  case (Cons c cs)
  show ?case
  proof (cases "matches c")
    case True
    with Cons.prems(3) [of c] show ?thesis by simp
  next
    case False
    with Cons.prems(1,2) have "r \<in> set cs" by auto
    with Cons.IH Cons.prems(2,3) obtain rest where
      "delete_range_loop matches cs = Some rest" "mset cs = add_mset r (mset rest)"
      by (metis list.set_intros(2))
    with False show ?thesis by simp
  qed
qed simp

text \<open>
  C35: \<open>RtlDeleteRange\<close> undoes \<open>RtlAddRange\<close>. Deleting the range just added, by its
  bounds and owner, succeeds and restores the multiset of ranges and \<open>Count\<close>, as
  long as no other range of the list has these bounds.
\<close>

theorem RtlDeleteRange_undoes_add:
  assumes "range_list_ok l" and "s \<le> e" and "{s..e} \<inter> covers (ListHead l) = {}"
    and "length (ListHead l) < 4294967295"
  shows "\<exists>l1 l2. RtlAddRange True l s e attr flags ud ow = (STATUS_SUCCESS, l1) \<and>
    RtlDeleteRange l1 s e ow = (STATUS_SUCCESS, l2) \<and>
    mset (ListHead l2) = mset (ListHead l) \<and> Count l2 = Count l"
proof -
  obtain l1 r where l1: "RtlAddRange True l s e attr flags ud ow = (STATUS_SUCCESS, l1)"
    and ms: "mset (ListHead l1) = add_mset r (mset (ListHead l))"
    and r: "RangeStart r = s" "RangeEnd r = e" "Owner r = ow"
    using RtlAddRange_ok [OF assms(1-3), of attr flags ud ow] assms(4) by (auto simp: room_def)
  have cnt: "Count l1 = Count l + 1"
    using l1 by (auto simp: RtlAddRange_def Let_def split: if_splits)
  have set1: "set (ListHead l1) = insert r (set (ListHead l))"
    using ms by (metis set_mset_add_mset_insert set_mset_mset)
  let ?matches = "\<lambda>c. RangeStart c = s \<and> RangeEnd c = e \<and> Owner c = ow"
  have "q = r" if "q \<in> set (ListHead l1)" "?matches q" for q
  proof (rule ccontr)
    assume "q \<noteq> r"
    then have "s \<in> covers (ListHead l)"
      using that set1 assms(2) start_in_covers [of q "ListHead l"] by simp
    then show False using assms(2,3) by auto
  qed
  then obtain rest where "delete_range_loop ?matches (ListHead l1) = Some rest"
    "mset (ListHead l1) = add_mset r (mset rest)"
    using delete_range_loop_mset [of r "ListHead l1" ?matches] set1 r by blast
  with l1 ms cnt show ?thesis by (auto simp: RtlDeleteRange_def)
qed

theorem RtlDeleteRange_undoes_add_witness:
  "\<exists>l1 l2. RtlAddRange True example_list 0x200 0x3FF 0 0 0 7 = (STATUS_SUCCESS, l1) \<and>
    RtlDeleteRange l1 0x200 0x3FF 7 = (STATUS_SUCCESS, l2) \<and>
    mset (ListHead l2) = mset (ListHead example_list) \<and> Count l2 = Count example_list"
proof (rule RtlDeleteRange_undoes_add)
  show "{0x200..0x3FF} \<inter> covers (ListHead example_list) = {}"
    unfolding covers_example_list by (auto simp: Int_Un_distrib iv_disjoint_iff)
qed (simp_all add: example_list_ok, simp add: example_list_def)

end
