(* ===== verification/Rtl_Links.thy ===== *)
theory Rtl_Links
  imports Odyssey_Prelude "HOL-Library.Tree"
begin

text \<open>
  Binary trees of linked nodes, as the macros of \<open>include/xdk/rtlfuncs.h\<close> and the walking
  routines of \<open>lib/rtl/splaytree.c\<close> see them, for the splay and the AVL tables. The heap maps
  the address of a node to its links; \<open>NULL\<close> is the address 0. The tree that a heap holds is
  a tree of the addresses of its nodes. A root is a node that is its own parent, or, in an
  AVL table, the right child of the node \<open>BalancedRoot\<close>.
\<close>

section \<open>Links\<close>

record RTL_SPLAY_LINKS =
  Parent :: nat
  LeftChild :: nat
  RightChild :: nat

type_synonym 'a links = "nat \<Rightarrow> 'a RTL_SPLAY_LINKS_scheme"

definition set_Parent :: "'a links \<Rightarrow> nat \<Rightarrow> nat \<Rightarrow> 'a links" where
  "set_Parent h a p = h(a := (h a)\<lparr>Parent := p\<rparr>)"

definition set_LeftChild :: "'a links \<Rightarrow> nat \<Rightarrow> nat \<Rightarrow> 'a links" where
  "set_LeftChild h a p = h(a := (h a)\<lparr>LeftChild := p\<rparr>)"

definition set_RightChild :: "'a links \<Rightarrow> nat \<Rightarrow> nat \<Rightarrow> 'a links" where
  "set_RightChild h a p = h(a := (h a)\<lparr>RightChild := p\<rparr>)"

definition RtlIsLeftChild :: "'a links \<Rightarrow> nat \<Rightarrow> bool" where
  "RtlIsLeftChild h Links \<longleftrightarrow> LeftChild (h (Parent (h Links))) = Links"

definition RtlIsRightChild :: "'a links \<Rightarrow> nat \<Rightarrow> bool" where
  "RtlIsRightChild h Links \<longleftrightarrow> RightChild (h (Parent (h Links))) = Links"

definition RtlIsRoot :: "'a links \<Rightarrow> nat \<Rightarrow> bool" where
  "RtlIsRoot h Links \<longleftrightarrow> Parent (h Links) = Links"

definition RtlInitializeSplayLinks :: "'a links \<Rightarrow> nat \<Rightarrow> 'a links" where
  "RtlInitializeSplayLinks h Links =
     set_RightChild (set_LeftChild (set_Parent h Links Links) Links 0) Links 0"

definition RtlInsertAsLeftChild :: "'a links \<Rightarrow> nat \<Rightarrow> nat \<Rightarrow> 'a links" where
  "RtlInsertAsLeftChild h ParentLinks ChildLinks =
     set_Parent (set_LeftChild h ParentLinks ChildLinks) ChildLinks ParentLinks"

definition RtlInsertAsRightChild :: "'a links \<Rightarrow> nat \<Rightarrow> nat \<Rightarrow> 'a links" where
  "RtlInsertAsRightChild h ParentLinks ChildLinks =
     set_Parent (set_RightChild h ParentLinks ChildLinks) ChildLinks ParentLinks"

section \<open>Walking\<close>

text \<open>The four loops; \<open>None\<close> where a loop does not end.\<close>

partial_function (option) right_most :: "'a links \<Rightarrow> nat \<Rightarrow> nat option" where
  "right_most h Child = (if RightChild (h Child) \<noteq> 0 then right_most h (RightChild (h Child)) else Some Child)"

partial_function (option) left_most :: "'a links \<Rightarrow> nat \<Rightarrow> nat option" where
  "left_most h Child = (if LeftChild (h Child) \<noteq> 0 then left_most h (LeftChild (h Child)) else Some Child)"

partial_function (option) up_left :: "'a links \<Rightarrow> nat \<Rightarrow> nat option" where
  "up_left h Child = (if RtlIsLeftChild h Child then up_left h (Parent (h Child)) else Some Child)"

partial_function (option) up_right :: "'a links \<Rightarrow> nat \<Rightarrow> nat option" where
  "up_right h Child = (if RtlIsRightChild h Child then up_right h (Parent (h Child)) else Some Child)"

definition RtlRealPredecessor :: "'a links \<Rightarrow> nat \<Rightarrow> nat option" where
  "RtlRealPredecessor h Links =
     (if LeftChild (h Links) \<noteq> 0 then right_most h (LeftChild (h Links))
      else map_option (\<lambda>Child. if RtlIsRightChild h Child then Parent (h Child) else 0) (up_left h Links))"

definition RtlRealSuccessor :: "'a links \<Rightarrow> nat \<Rightarrow> nat option" where
  "RtlRealSuccessor h Links =
     (if RightChild (h Links) \<noteq> 0 then left_most h (RightChild (h Links))
      else map_option (\<lambda>Child. if RtlIsLeftChild h Child then Parent (h Child) else 0) (up_right h Links))"

definition RtlSubtreePredecessor :: "'a links \<Rightarrow> nat \<Rightarrow> nat option" where
  "RtlSubtreePredecessor h Links =
     (if LeftChild (h Links) = 0 then Some 0 else right_most h (LeftChild (h Links)))"

definition RtlSubtreeSuccessor :: "'a links \<Rightarrow> nat \<Rightarrow> nat option" where
  "RtlSubtreeSuccessor h Links =
     (if RightChild (h Links) = 0 then Some 0 else left_most h (RightChild (h Links)))"

section \<open>The tree a heap holds\<close>

fun tree_at :: "'a links \<Rightarrow> nat \<Rightarrow> nat \<Rightarrow> nat tree \<Rightarrow> bool" where
  "tree_at h par p Leaf \<longleftrightarrow> p = 0"
| "tree_at h par p (Node l a r) \<longleftrightarrow> p = a \<and> a \<noteq> 0 \<and> Parent (h a) = par \<and>
     tree_at h a (LeftChild (h a)) l \<and> tree_at h a (RightChild (h a)) r"

text \<open>
  The way from a subtree up to the root: at each step the node, whether the subtree is its
  left or right child, and the other subtree.
\<close>

datatype frame = InLeft nat "nat tree" | InRight "nat tree" nat

fun plug :: "nat tree \<Rightarrow> frame list \<Rightarrow> nat tree" where
  "plug t [] = t"
| "plug t (InLeft a r # c) = plug (Node t a r) c"
| "plug t (InRight l a # c) = plug (Node l a t) c"

text \<open>\<open>rt\<close> is the address of \<open>BalancedRoot\<close>, or \<open>None\<close> when the root is its own parent.\<close>

fun frames_at :: "'a links \<Rightarrow> nat option \<Rightarrow> nat \<Rightarrow> nat \<Rightarrow> frame list \<Rightarrow> bool" where
  "frames_at h rt p par [] \<longleftrightarrow> (case rt of None \<Rightarrow> par = p | Some s \<Rightarrow> par = s \<and> RightChild (h s) = p)"
| "frames_at h rt p par (InLeft a r # c) \<longleftrightarrow> par = a \<and> a \<noteq> 0 \<and> LeftChild (h a) = p \<and>
     tree_at h a (RightChild (h a)) r \<and> frames_at h rt a (Parent (h a)) c"
| "frames_at h rt p par (InRight l a # c) \<longleftrightarrow> par = a \<and> a \<noteq> 0 \<and> RightChild (h a) = p \<and>
     tree_at h a (LeftChild (h a)) l \<and> frames_at h rt a (Parent (h a)) c"

fun frame_nodes :: "frame list \<Rightarrow> nat set" where
  "frame_nodes [] = {}"
| "frame_nodes (InLeft a r # c) = insert a (set_tree r \<union> frame_nodes c)"
| "frame_nodes (InRight l a # c) = insert a (set_tree l \<union> frame_nodes c)"

fun before :: "frame list \<Rightarrow> nat list" where
  "before [] = []"
| "before (InLeft a r # c) = before c"
| "before (InRight l a # c) = before c @ inorder l @ [a]"

fun after :: "frame list \<Rightarrow> nat list" where
  "after [] = []"
| "after (InLeft a r # c) = a # inorder r @ after c"
| "after (InRight l a # c) = after c"

lemma inorder_plug: "inorder (plug t c) = before c @ inorder t @ after c"
  by (induction t c rule: plug.induct) simp_all

lemma set_frames: "set (before c) \<union> set (after c) = frame_nodes c"
  by (induction c rule: frame_nodes.induct) auto

lemma plug_append: "plug t (c @ d) = plug (plug t c) d"
  by (induction t c rule: plug.induct) simp_all

lemma tree_at_null: "tree_at h par 0 t \<longleftrightarrow> t = Leaf"
  by (cases t) auto

lemma tree_at_notin: "tree_at h par p t \<Longrightarrow> 0 \<notin> set_tree t"
  by (induction t arbitrary: par p) auto

lemma frames_at_notin: "frames_at h rt p par c \<Longrightarrow> 0 \<notin> frame_nodes c"
  by (induction c arbitrary: p par rule: frame_nodes.induct) (auto dest: tree_at_notin)

text \<open>A subtree \<open>t\<close> in its context \<open>c\<close>.\<close>

definition holds_tree :: "'a links \<Rightarrow> nat option \<Rightarrow> nat tree \<Rightarrow> frame list \<Rightarrow> bool" where
  "holds_tree h rt t c \<longleftrightarrow> (\<exists>p par. tree_at h par p t \<and> frames_at h rt p par c)"

lemma holds_tree_up:
  "holds_tree h rt t (InLeft a r # c) \<longleftrightarrow> holds_tree h rt (Node t a r) c"
  "holds_tree h rt t (InRight l a # c) \<longleftrightarrow> holds_tree h rt (Node l a t) c"
  unfolding holds_tree_def by auto

lemma holds_tree_plug: "holds_tree h rt t c \<longleftrightarrow> holds_tree h rt (plug t c) []"
  by (induction t c rule: plug.induct) (auto simp: holds_tree_up)

text \<open>The nodes are distinct, and the anchor, when there is one, is none of them.\<close>

definition apart :: "'a links \<Rightarrow> nat option \<Rightarrow> nat tree \<Rightarrow> frame list \<Rightarrow> bool" where
  "apart h rt t c \<longleftrightarrow> distinct (before c @ inorder t @ after c) \<and>
     (\<forall>s. rt = Some s \<longrightarrow> s \<noteq> 0 \<and> s \<notin> set_tree t \<union> frame_nodes c \<and> Parent (h s) = s \<and> LeftChild (h s) = 0)"

lemma apart_plug: "apart h rt t c \<longleftrightarrow> apart h rt (plug t c) []"
proof -
  have "set_tree (plug t c) = set_tree t \<union> frame_nodes c"
    by (metis (no_types, lifting) inorder_plug set_append set_frames set_inorder sup_assoc sup_commute)
  then show ?thesis unfolding apart_def by (simp add: inorder_plug)
qed

subsection \<open>Fields after an update\<close>

named_theorems link_simps \<open>the fields of a heap after an update of one field\<close>

lemma link_fields [link_simps]:
  "Parent (set_Parent h a p x) = (if x = a then p else Parent (h x))"
  "Parent (set_LeftChild h a p x) = Parent (h x)"
  "Parent (set_RightChild h a p x) = Parent (h x)"
  "LeftChild (set_Parent h a p x) = LeftChild (h x)"
  "LeftChild (set_LeftChild h a p x) = (if x = a then p else LeftChild (h x))"
  "LeftChild (set_RightChild h a p x) = LeftChild (h x)"
  "RightChild (set_Parent h a p x) = RightChild (h x)"
  "RightChild (set_LeftChild h a p x) = RightChild (h x)"
  "RightChild (set_RightChild h a p x) = (if x = a then p else RightChild (h x))"
  by (simp_all add: set_Parent_def set_LeftChild_def set_RightChild_def)

definition same_links :: "'a links \<Rightarrow> 'b links \<Rightarrow> nat \<Rightarrow> bool" where
  "same_links h h' x \<longleftrightarrow> Parent (h' x) = Parent (h x) \<and> LeftChild (h' x) = LeftChild (h x) \<and>
     RightChild (h' x) = RightChild (h x)"

lemma tree_at_cong: "(\<And>x. x \<in> set_tree t \<Longrightarrow> same_links h h' x) \<Longrightarrow> tree_at h' par p t = tree_at h par p t"
  by (induction t arbitrary: par p) (auto simp: same_links_def)

text \<open>A subtree that is hung under another parent.\<close>

lemma tree_at_move:
  assumes "tree_at h par p t" "distinct (inorder t)"
    and "\<And>x. x \<in> set_tree t \<Longrightarrow> LeftChild (h' x) = LeftChild (h x) \<and> RightChild (h' x) = RightChild (h x)"
    and "\<And>x. x \<in> set_tree t \<Longrightarrow> Parent (h' x) = (if x = p then par' else Parent (h x))"
  shows "tree_at h' par' p t"
proof (cases t)
  case (Node l a r)
  have "\<And>x. x \<in> set_tree l \<union> set_tree r \<Longrightarrow> same_links h h' x"
    using assms Node by (fastforce simp: same_links_def)
  then have "tree_at h' a q l = tree_at h a q l" "tree_at h' a q r = tree_at h a q r" for q
    by (auto intro!: tree_at_cong)
  then show ?thesis using assms Node by simp
qed (use assms in simp)

lemma frames_at_cong:
  assumes "\<And>x. x \<in> frame_nodes c \<union> set_option rt \<Longrightarrow> same_links h h' x"
  shows "frames_at h' rt p par c = frames_at h rt p par c"
  using assms
proof (induction c arbitrary: p par rule: frame_nodes.induct)
  case 1
  then show ?case by (auto simp: same_links_def split: option.split)
next
  case (2 a r c)
  then have "tree_at h' a q r = tree_at h a q r" for q by (intro tree_at_cong) auto
  with 2 show ?case by (auto simp: same_links_def)
next
  case (3 l a c)
  then have "tree_at h' a q l = tree_at h a q l" for q by (intro tree_at_cong) auto
  with 3 show ?case by (auto simp: same_links_def)
qed

text \<open>A subtree that takes the place of another below the same context.\<close>

lemma frames_at_replace:
  assumes "frames_at h rt p par c" and "p \<noteq> 0" "p \<notin> frame_nodes c"
    and "distinct (before c @ after c)" "\<And>s. rt = Some s \<Longrightarrow> s \<notin> frame_nodes c \<and> LeftChild (h s) = 0"
    and "\<And>x. x \<in> frame_nodes c \<union> set_option rt \<Longrightarrow> Parent (h' x) = Parent (h x)"
    and "\<And>x. x \<in> frame_nodes c \<union> set_option rt \<Longrightarrow>
           LeftChild (h' x) = (if x = par \<and> LeftChild (h par) = p then p' else LeftChild (h x))"
    and "\<And>x. x \<in> frame_nodes c \<union> set_option rt \<Longrightarrow>
           RightChild (h' x) = (if x = par \<and> LeftChild (h par) \<noteq> p then p' else RightChild (h x))"
    and "rt = None \<and> c = [] \<longrightarrow> par' = p'" "rt \<noteq> None \<or> c \<noteq> [] \<longrightarrow> par' = par"
  shows "frames_at h' rt p' par' c"
proof (cases c rule: frame_nodes.cases)
  case 1
  with assms show ?thesis by (cases rt) auto
next
  case (2 a r d)
  have "par = a" using assms(1) 2 by simp
  have "a \<notin> set_tree r \<union> frame_nodes d \<union> set_option rt"
    using assms(4,5) 2 by (cases rt) (auto simp flip: set_frames)
  with \<open>par = a\<close> have "x \<noteq> par" "x \<in> frame_nodes c \<union> set_option rt"
    if "x \<in> set_tree r \<union> frame_nodes d \<union> set_option rt" for x using that 2 by auto
  then have "same_links h h' x" if "x \<in> set_tree r \<union> frame_nodes d \<union> set_option rt" for x
    using that assms(6-8) [of x] by (simp add: same_links_def)
  then have "tree_at h' a q r = tree_at h a q r" "frames_at h' rt a q d = frames_at h rt a q d" for q
    by (auto intro!: tree_at_cong frames_at_cong)
  with assms 2 show ?thesis by auto
next
  case (3 l a d)
  have "par = a" using assms(1) 3 by simp
  have "a \<notin> set_tree l \<union> frame_nodes d \<union> set_option rt"
    using assms(4,5) 3 by (cases rt) (auto simp flip: set_frames)
  with \<open>par = a\<close> have "x \<noteq> par" "x \<in> frame_nodes c \<union> set_option rt"
    if "x \<in> set_tree l \<union> frame_nodes d \<union> set_option rt" for x using that 3 by auto
  then have "same_links h h' x" if "x \<in> set_tree l \<union> frame_nodes d \<union> set_option rt" for x
    using that assms(6-8) [of x] by (simp add: same_links_def)
  then have "tree_at h' a q l = tree_at h a q l" "frames_at h' rt a q d = frames_at h rt a q d" for q
    by (auto intro!: tree_at_cong frames_at_cong)
  moreover have "LeftChild (h a) \<noteq> p"
    using assms 3 by (cases l) auto
  ultimately show ?thesis using assms 3 by auto
qed

section \<open>What the walks reach\<close>

lemma right_most_last:
  "tree_at h par p t \<Longrightarrow> t \<noteq> Leaf \<Longrightarrow> right_most h p = Some (last (inorder t))"
proof (induction t arbitrary: par p)
  case (Node l a r)
  then show ?case by (cases r) (subst right_most.simps, auto)+
qed simp

lemma left_most_hd:
  "tree_at h par p t \<Longrightarrow> t \<noteq> Leaf \<Longrightarrow> left_most h p = Some (hd (inorder t))"
proof (induction t arbitrary: par p)
  case (Node l a r)
  then show ?case by (cases l) (subst left_most.simps, auto simp: hd_append)+
qed simp

text \<open>The walk to the left of everything ends at the anchor, or with \<open>NULL\<close> where there is none.\<close>

fun anchor :: "nat option \<Rightarrow> nat" where
  "anchor None = 0"
| "anchor (Some s) = s"

lemma child_neq:
  "tree_at h a (LeftChild (h a)) l \<Longrightarrow> q \<noteq> 0 \<Longrightarrow> q \<notin> set_tree l \<Longrightarrow> LeftChild (h a) \<noteq> q"
  "tree_at h a (RightChild (h a)) r \<Longrightarrow> q \<noteq> 0 \<Longrightarrow> q \<notin> set_tree r \<Longrightarrow> RightChild (h a) \<noteq> q"
  by (cases l; auto) (cases r; auto)

lemma apart_up:
  "apart h rt t (InLeft a r # c) \<longleftrightarrow> apart h rt (Node t a r) c"
  "apart h rt t (InRight l a # c) \<longleftrightarrow> apart h rt (Node l a t) c"
  unfolding apart_def by auto

lemma up_left_before:
  assumes "tree_at h par p (Node l p r)" "frames_at h rt p par c" "apart h rt (Node l p r) c"
  shows "map_option (\<lambda>Child. if RtlIsRightChild h Child then Parent (h Child) else 0) (up_left h p) =
    Some (if before c = [] then anchor rt else last (before c))"
  using assms
proof (induction c arbitrary: par p l r rule: frame_nodes.induct)
  case 1
  then have "\<not> RtlIsLeftChild h p"
    by (cases rt) (auto simp: RtlIsLeftChild_def apart_def dest: child_neq)
  then have "up_left h p = Some p" by (simp add: up_left.simps)
  moreover have "RtlIsRightChild h p \<longleftrightarrow> rt \<noteq> None"
    using 1 by (cases rt) (auto simp: RtlIsRightChild_def apart_def dest: child_neq)
  ultimately show ?case using 1 by (cases rt) auto
next
  case (2 a s c)
  then have "RtlIsLeftChild h p" "Parent (h p) = a" by (auto simp: RtlIsLeftChild_def)
  then have "up_left h p = up_left h a" by (subst up_left.simps) simp
  moreover have "tree_at h (Parent (h a)) a (Node (Node l p r) a s)" using 2 by auto
  ultimately show ?case using "2.IH" [of "Parent (h a)" a "Node l p r" s] "2.prems" by (simp add: apart_up del: map_option_eq_Some)
next
  case (3 s a c)
  then have "\<not> RtlIsLeftChild h p" "RtlIsRightChild h p" "Parent (h p) = a"
    by (auto simp: RtlIsLeftChild_def RtlIsRightChild_def apart_def dest: child_neq)
  then show ?case using 3 by (simp add: up_left.simps)
qed

lemma up_right_after:
  assumes "tree_at h par p (Node l p r)" "frames_at h rt p par c" "apart h rt (Node l p r) c"
  shows "map_option (\<lambda>Child. if RtlIsLeftChild h Child then Parent (h Child) else 0) (up_right h p) =
    Some (if after c = [] then 0 else hd (after c))"
  using assms
proof (induction c arbitrary: par p l r rule: frame_nodes.induct)
  case 1
  show ?case
  proof (cases rt)
    case None
    with 1 have "\<not> RtlIsLeftChild h p" "\<not> RtlIsRightChild h p"
      by (auto simp: RtlIsLeftChild_def RtlIsRightChild_def apart_def dest: child_neq)
    then show ?thesis by (simp add: up_right.simps)
  next
    case (Some s)
    with 1 have "RtlIsRightChild h p" "Parent (h p) = s" "\<not> RtlIsRightChild h s" "\<not> RtlIsLeftChild h s"
      by (auto simp: RtlIsLeftChild_def RtlIsRightChild_def apart_def)
    then have "up_right h p = Some s" by (simp add: up_right.simps)
    then show ?thesis using \<open>\<not> RtlIsLeftChild h s\<close> by simp
  qed
next
  case (2 a s c)
  then have "\<not> RtlIsRightChild h p" "RtlIsLeftChild h p" "Parent (h p) = a"
    by (auto simp: RtlIsLeftChild_def RtlIsRightChild_def apart_def dest: child_neq)
  then show ?case using 2 by (simp add: up_right.simps)
next
  case (3 s a c)
  then have "RtlIsRightChild h p" "Parent (h p) = a" by (auto simp: RtlIsRightChild_def)
  then have "up_right h p = up_right h a" by (subst up_right.simps) simp
  moreover have "tree_at h (Parent (h a)) a (Node s a (Node l p r))" using 3 by auto
  ultimately show ?case using "3.IH" [of "Parent (h a)" a s "Node l p r"] "3.prems" by (simp add: apart_up del: map_option_eq_Some)
qed

text \<open>Every node of a tree is the root of a subtree in its context.\<close>

lemma focus_node: "n \<in> set_tree t \<Longrightarrow> \<exists>l r d. plug (Node l n r) d = t"
proof (induction t)
  case (Node l a r)
  consider "n = a" | "n \<in> set_tree l" | "n \<in> set_tree r" using Node.prems by auto
  then show ?case
  proof cases
    case 1
    have "plug (Node l a r) [] = Node l a r" by simp
    with 1 show ?thesis by blast
  next
    case 2
    then obtain l' r' d where "plug (Node l' n r') d = l" using Node.IH by blast
    then have "plug (Node l' n r') (d @ [InLeft a r]) = Node l a r" by (simp add: plug_append)
    then show ?thesis by blast
  next
    case 3
    then obtain l' r' d where "plug (Node l' n r') d = r" using Node.IH by blast
    then have "plug (Node l' n r') (d @ [InRight l a]) = Node l a r" by (simp add: plug_append)
    then show ?thesis by blast
  qed
qed simp

lemma distinct_split: "a @ x # b = a' @ x # b' \<Longrightarrow> distinct (a @ x # b) \<Longrightarrow> a = a' \<and> b = b'"
  by (metis append_Cons_eq_iff distinct.simps(2) distinct_append not_distinct_conv_prefix disjoint_iff_not_equal list.set_intros(1))

lemma inorder_Nil [simp]: "inorder t = [] \<longleftrightarrow> t = Leaf"
  by (cases t) auto

lemma focus_at:
  assumes "holds_tree h rt t []" "apart h rt t []" "inorder t = xs @ n # ys"
  obtains l r d where "plug (Node l n r) d = t" "holds_tree h rt (Node l n r) d" "apart h rt (Node l n r) d"
    "xs = before d @ inorder l" "ys = inorder r @ after d"
proof -
  have "n \<in> set_tree t" using assms(3) by (metis in_set_conv_decomp set_inorder)
  then obtain l r d where d: "plug (Node l n r) d = t" using focus_node by blast
  have "(before d @ inorder l) @ n # (inorder r @ after d) = xs @ n # ys"
    using d inorder_plug [of "Node l n r" d] assms(3) by simp
  moreover have "distinct (xs @ n # ys)" using assms(2,3) by (simp add: apart_def)
  ultimately have "xs = before d @ inorder l" "ys = inorder r @ after d"
    using distinct_split by metis+
  moreover have "holds_tree h rt (Node l n r) d" "apart h rt (Node l n r) d"
    using assms(1,2) d holds_tree_plug apart_plug by metis+
  ultimately show ?thesis using that d by blast
qed

theorem real_neighbours:
  assumes "holds_tree h rt t []" "apart h rt t []" "inorder t = xs @ n # ys"
  shows "RtlRealPredecessor h n = Some (if xs = [] then anchor rt else last xs) \<and>
    RtlRealSuccessor h n = Some (if ys = [] then 0 else hd ys)"
proof -
  from assms obtain l r d where d: "holds_tree h rt (Node l n r) d" "apart h rt (Node l n r) d"
    "xs = before d @ inorder l" "ys = inorder r @ after d" by (rule focus_at)
  then obtain par where t: "tree_at h par n (Node l n r)" and f: "frames_at h rt n par d"
    by (auto simp: holds_tree_def)
  have "RtlRealPredecessor h n = Some (if xs = [] then anchor rt else last xs)"
    using t d(3) up_left_before [OF t f d(2)] right_most_last [of h n "LeftChild (h n)" l]
    by (cases l) (auto simp: RtlRealPredecessor_def)
  moreover have "RtlRealSuccessor h n = Some (if ys = [] then 0 else hd ys)"
    using t d(4) up_right_after [OF t f d(2)] left_most_hd [of h n "RightChild (h n)" r]
    by (cases r) (auto simp: RtlRealSuccessor_def hd_append)
  ultimately show ?thesis by simp
qed

section \<open>Rotations\<close>

lemma frames_par: "frames_at h rt p par c \<Longrightarrow> par \<in> (if rt = None \<and> c = [] then {p} else set_option rt \<union> frame_nodes c)"
  by (cases c rule: frame_nodes.cases) (auto split: option.splits)

lemma apart_neq:
  assumes "apart h rt t c"
  shows "distinct (inorder t)" "distinct (before c @ after c)" "set_tree t \<inter> frame_nodes c = {}"
    "set_option rt \<inter> (set_tree t \<union> frame_nodes c) = {}" "\<And>s. rt = Some s \<Longrightarrow> s \<notin> frame_nodes c \<and> LeftChild (h s) = 0"
  using assms set_frames [of c] by (auto simp: apart_def)

text \<open>
  The fields after a rotation of \<open>n\<close> over its parent \<open>p\<close>, whose parent was \<open>par\<close>; \<open>m\<close> is the
  child that changes sides.
\<close>

definition rotated_up :: "'a links \<Rightarrow> 'a links \<Rightarrow> nat \<Rightarrow> nat \<Rightarrow> nat \<Rightarrow> nat \<Rightarrow> nat \<Rightarrow> bool" where
  "rotated_up h h' n p m par par' \<longleftrightarrow> (\<forall>q.
     Parent (h' q) = (if q = n then par' else if q = p then n else if q = m \<and> q \<noteq> 0 then p else Parent (h q)) \<and>
     (q \<noteq> n \<longrightarrow> q \<noteq> p \<longrightarrow>
       LeftChild (h' q) = (if q = par \<and> LeftChild (h par) = p then n else LeftChild (h q)) \<and>
       RightChild (h' q) = (if q = par \<and> LeftChild (h par) \<noteq> p then n else RightChild (h q))))"

lemma rotated_up_frames:
  assumes "rotated_up h h' n p m par par'" "frames_at h rt p par c" "apart h rt t c" "tree_at h par p t"
    and "n \<in> set_tree t" "p \<in> set_tree t" "m \<in> insert 0 (set_tree t)"
    and "rt = None \<and> c = [] \<longrightarrow> par' = n" "rt \<noteq> None \<or> c \<noteq> [] \<longrightarrow> par' = par"
  shows "frames_at h' rt n par' c"
proof (rule frames_at_replace [OF assms(2)])
  note d = apart_neq [OF assms(3)]
  show "p \<noteq> 0" using tree_at_notin [OF assms(4)] assms(6) by metis
  show "p \<notin> frame_nodes c" using d(3) assms(6) by blast
  show "distinct (before c @ after c)" by (rule d(2))
  show "s \<notin> frame_nodes c \<and> LeftChild (h s) = 0" if "rt = Some s" for s using that by (rule d(5))
  fix x assume x: "x \<in> frame_nodes c \<union> set_option rt"
  then have "x \<notin> set_tree t" using d(3,4) by blast
  then have "x \<noteq> n" "x \<noteq> p" "x = m \<Longrightarrow> x = 0" using assms(5-7) by auto
  then show "Parent (h' x) = Parent (h x)"
    "LeftChild (h' x) = (if x = par \<and> LeftChild (h par) = p then n else LeftChild (h x))"
    "RightChild (h' x) = (if x = par \<and> LeftChild (h par) \<noteq> p then n else RightChild (h x))"
    using assms(1) unfolding rotated_up_def by auto
qed (use assms in auto)

text \<open>The subtrees below are only hung elsewhere.\<close>

lemma rotated_up_below:
  assumes "rotated_up h h' n p m par par'" "tree_at h a r t" "distinct (inorder t)"
    and "n \<notin> set_tree t" "p \<notin> set_tree t" "par \<notin> set_tree t"
    and "m \<in> set_tree t \<longrightarrow> m = r" "b = (if r = m \<and> m \<noteq> 0 then p else a)"
  shows "tree_at h' b r t"
proof (rule tree_at_move [OF assms(2,3)])
  fix x assume x: "x \<in> set_tree t"
  then have *: "x \<noteq> n" "x \<noteq> p" "x \<noteq> par" "x \<noteq> 0" "x = m \<Longrightarrow> x = r"
    using assms tree_at_notin [OF assms(2)] by metis+
  then show "LeftChild (h' x) = LeftChild (h x) \<and> RightChild (h' x) = RightChild (h x)"
    using assms(1) unfolding rotated_up_def by simp
  have "x = r \<Longrightarrow> Parent (h x) = a" using assms(2) x by (cases t) auto
  then show "Parent (h' x) = (if x = r then b else Parent (h x))"
    using * assms(1,8) unfolding rotated_up_def by auto
qed

lemma rotate_right:
  assumes "rotated_up h h' n p (RightChild (h n)) par par'"
    and "LeftChild (h' n) = LeftChild (h n)" "RightChild (h' n) = p"
    and "LeftChild (h' p) = RightChild (h n)" "RightChild (h' p) = RightChild (h p)"
    and t: "tree_at h par p (Node (Node x n y) p z)" and f: "frames_at h rt p par c"
    and a: "apart h rt (Node (Node x n y) p z) c"
    and p: "rt = None \<and> c = [] \<longrightarrow> par' = n" "rt \<noteq> None \<or> c \<noteq> [] \<longrightarrow> par' = par"
  shows "holds_tree h' rt (Node x n (Node y p z)) c"
proof -
  note d = apart_neq [OF a]
  let ?m = "RightChild (h n)"
  have m: "?m \<in> insert 0 (set_tree y)" using t by (cases y) auto
  have "frames_at h' rt n par' c"
    by (rule rotated_up_frames [OF assms(1) f a t]) (use m p in auto)
  moreover
  have par: "par \<notin> set_tree x \<union> set_tree y \<union> set_tree z"
    using frames_par [OF f] d(1,3,4) by (auto split: if_splits)
  have 0: "0 \<notin> set_tree x \<union> set_tree y \<union> set_tree z" using tree_at_notin [OF t] by auto
  have mx: "?m \<notin> set_tree x" "?m \<notin> set_tree z" using m 0 d(1) by auto
  have r: "LeftChild (h n) \<in> insert 0 (set_tree x)" "RightChild (h p) \<in> insert 0 (set_tree z)"
    using t by (cases x; auto) (use t in \<open>cases z; auto\<close>)
  have "tree_at h' n (LeftChild (h n)) x"
    by (rule rotated_up_below [OF assms(1), of n]) (use t d(1) mx par r in auto)
  moreover have "tree_at h' p ?m y"
  proof (cases "?m = 0")
    case True
    then show ?thesis using t by (simp add: tree_at_null)
  next
    case False
    show ?thesis by (rule rotated_up_below [OF assms(1), of n]) (use t d(1) par False in auto)
  qed
  moreover have "tree_at h' p (RightChild (h p)) z"
    by (rule rotated_up_below [OF assms(1), of p]) (use t d(1) mx par in auto)
  moreover have "Parent (h' n) = par'" "Parent (h' p) = n" "n \<noteq> 0" "p \<noteq> 0"
    using assms(1) t d(1) by (auto simp: rotated_up_def)
  ultimately show ?thesis
    unfolding holds_tree_def by (intro exI [of _ n] exI [of _ par']) (simp add: assms(2-5))
qed

lemma rotate_left:
  assumes "rotated_up h h' n p (LeftChild (h n)) par par'"
    and "RightChild (h' n) = RightChild (h n)" "LeftChild (h' n) = p"
    and "RightChild (h' p) = LeftChild (h n)" "LeftChild (h' p) = LeftChild (h p)"
    and t: "tree_at h par p (Node x p (Node y n z))" and f: "frames_at h rt p par c"
    and a: "apart h rt (Node x p (Node y n z)) c"
    and p: "rt = None \<and> c = [] \<longrightarrow> par' = n" "rt \<noteq> None \<or> c \<noteq> [] \<longrightarrow> par' = par"
  shows "holds_tree h' rt (Node (Node x p y) n z) c"
proof -
  note d = apart_neq [OF a]
  let ?m = "LeftChild (h n)"
  have m: "?m \<in> insert 0 (set_tree y)" using t by (cases y) auto
  have "frames_at h' rt n par' c"
    by (rule rotated_up_frames [OF assms(1) f a t]) (use m p in auto)
  moreover
  have par: "par \<notin> set_tree x \<union> set_tree y \<union> set_tree z"
    using frames_par [OF f] d(1,3,4) by (auto split: if_splits)
  have 0: "0 \<notin> set_tree x \<union> set_tree y \<union> set_tree z" using tree_at_notin [OF t] by auto
  have mx: "?m \<notin> set_tree x" "?m \<notin> set_tree z" using m 0 d(1) by auto
  have r: "LeftChild (h p) \<in> insert 0 (set_tree x)" "RightChild (h n) \<in> insert 0 (set_tree z)"
    using t by (cases x; auto) (use t in \<open>cases z; auto\<close>)
  have "tree_at h' p (LeftChild (h p)) x"
    by (rule rotated_up_below [OF assms(1), of p]) (use t d(1) mx par r in auto)
  moreover have "tree_at h' p ?m y"
  proof (cases "?m = 0")
    case True
    then show ?thesis using t by (simp add: tree_at_null)
  next
    case False
    show ?thesis by (rule rotated_up_below [OF assms(1), of n]) (use t d(1) par False in auto)
  qed
  moreover have "tree_at h' n (RightChild (h n)) z"
    by (rule rotated_up_below [OF assms(1), of n]) (use t d(1) mx par r in auto)
  moreover have "Parent (h' n) = par'" "Parent (h' p) = n" "n \<noteq> 0" "p \<noteq> 0"
    using assms(1) t d(1) by (auto simp: rotated_up_def)
  ultimately show ?thesis
    unfolding holds_tree_def by (intro exI [of _ n] exI [of _ par']) (simp add: assms(2-5))
qed

section \<open>Searching\<close>

datatype TABLE_SEARCH_RESULT = TableEmptyTree | TableFoundNode | TableInsertAsLeft | TableInsertAsRight

datatype RTL_GENERIC_COMPARE_RESULTS = GenericLessThan | GenericGreaterThan | GenericEqual

text \<open>What the tables ask of the comparison routine of their user.\<close>

definition compare_ok :: "('b \<Rightarrow> 'b \<Rightarrow> RTL_GENERIC_COMPARE_RESULTS) \<Rightarrow> bool" where
  "compare_ok cmp \<longleftrightarrow> (\<forall>x. cmp x x = GenericEqual) \<and>
     (\<forall>x y. cmp x y = GenericLessThan \<longleftrightarrow> cmp y x = GenericGreaterThan) \<and>
     (\<forall>x y z. cmp x y = GenericLessThan \<and> cmp y z = GenericLessThan \<longrightarrow> cmp x z = GenericLessThan) \<and>
     (\<forall>x y z. cmp x y = GenericEqual \<longrightarrow> cmp x z = cmp y z)"

lemma compare_okD:
  assumes "compare_ok cmp"
  shows "cmp x x = GenericEqual" "cmp x y = GenericLessThan \<longleftrightarrow> cmp y x = GenericGreaterThan"
    "cmp x y = GenericLessThan \<Longrightarrow> cmp y z = GenericLessThan \<Longrightarrow> cmp x z = GenericLessThan"
    "cmp x y = GenericEqual \<Longrightarrow> cmp x z = cmp y z"
  using assms unfolding compare_ok_def by blast+

lemma compare_greater:
  "compare_ok cmp \<Longrightarrow> cmp x y = GenericGreaterThan \<Longrightarrow> cmp z y = GenericLessThan \<Longrightarrow> cmp x z = GenericGreaterThan"
  using compare_okD(2,3) by metis

text \<open>The data of the nodes ascend strictly.\<close>

definition ascending :: "('b \<Rightarrow> 'b \<Rightarrow> RTL_GENERIC_COMPARE_RESULTS) \<Rightarrow> (nat \<Rightarrow> 'b) \<Rightarrow> nat list \<Rightarrow> bool" where
  "ascending cmp ud ns \<longleftrightarrow> sorted_wrt (\<lambda>m n. cmp (ud m) (ud n) = GenericLessThan) ns"

lemma ascending_append [simp]:
  "ascending cmp ud (xs @ ys) \<longleftrightarrow> ascending cmp ud xs \<and> ascending cmp ud ys \<and>
    (\<forall>x \<in> set xs. \<forall>y \<in> set ys. cmp (ud x) (ud y) = GenericLessThan)"
  by (auto simp: ascending_def sorted_wrt_append)

lemma ascending_Cons [simp]:
  "ascending cmp ud (x # ys) \<longleftrightarrow> (\<forall>y \<in> set ys. cmp (ud x) (ud y) = GenericLessThan) \<and> ascending cmp ud ys"
  by (simp add: ascending_def)

lemma ascending_Nil [simp]: "ascending cmp ud []"
  by (simp add: ascending_def)

text \<open>What a search relies on: going right, a buffer never compares greater again.\<close>

definition graded :: "('b \<Rightarrow> 'b \<Rightarrow> RTL_GENERIC_COMPARE_RESULTS) \<Rightarrow> (nat \<Rightarrow> 'b) \<Rightarrow> 'b \<Rightarrow> nat list \<Rightarrow> bool" where
  "graded cmp ud b ns \<longleftrightarrow> sorted_wrt (\<lambda>m n. (cmp b (ud m) = GenericLessThan \<longrightarrow> cmp b (ud n) = GenericLessThan) \<and>
     (cmp b (ud n) = GenericGreaterThan \<longrightarrow> cmp b (ud m) = GenericGreaterThan)) ns"

lemma ascending_graded:
  assumes "compare_ok cmp" "ascending cmp ud ns"
  shows "graded cmp ud b ns"
  using assms(2) unfolding graded_def ascending_def
  by (rule sorted_wrt_mono_rel [rotated]) (use compare_okD(3) [OF assms(1)] compare_greater [OF assms(1)] in blast)

text \<open>A buffer splits the nodes: those below it and those above it.\<close>

definition splits :: "('b \<Rightarrow> 'b \<Rightarrow> RTL_GENERIC_COMPARE_RESULTS) \<Rightarrow> (nat \<Rightarrow> 'b) \<Rightarrow> 'b \<Rightarrow> nat list \<Rightarrow> nat list \<Rightarrow> bool" where
  "splits cmp ud b xs ys \<longleftrightarrow> (\<forall>x \<in> set xs. cmp b (ud x) = GenericGreaterThan) \<and>
     (\<forall>y \<in> set ys. cmp b (ud y) = GenericLessThan)"

fun search_ok ::
  "('b \<Rightarrow> 'b \<Rightarrow> RTL_GENERIC_COMPARE_RESULTS) \<Rightarrow> (nat \<Rightarrow> 'b) \<Rightarrow> 'b \<Rightarrow> nat tree \<Rightarrow> TABLE_SEARCH_RESULT \<Rightarrow> nat \<Rightarrow> bool" where
  "search_ok cmp ud b t TableFoundNode q \<longleftrightarrow> q \<in> set_tree t \<and> cmp b (ud q) = GenericEqual"
| "search_ok cmp ud b t TableInsertAsLeft q \<longleftrightarrow> (\<exists>r c. t = plug Leaf (InLeft q r # c) \<and>
     splits cmp ud b (before (InLeft q r # c)) (after (InLeft q r # c)))"
| "search_ok cmp ud b t TableInsertAsRight q \<longleftrightarrow> (\<exists>l c. t = plug Leaf (InRight l q # c) \<and>
     splits cmp ud b (before (InRight l q # c)) (after (InRight l q # c)))"
| "search_ok cmp ud b t TableEmptyTree q \<longleftrightarrow> t = Leaf"

lemma before_append: "before (c @ d) = before d @ before c"
  by (induction c rule: before.induct) simp_all

lemma after_append: "after (c @ d) = after c @ after d"
  by (induction c rule: after.induct) simp_all

lemma search_ok_left:
  assumes "search_ok cmp ud b l res q" "res \<noteq> TableEmptyTree"
    and "cmp b (ud a) = GenericLessThan" "\<forall>x \<in> set_tree r. cmp b (ud x) = GenericLessThan"
  shows "search_ok cmp ud b (Node l a r) res q"
proof (cases res)
  case TableInsertAsLeft
  with assms obtain s c where "l = plug Leaf (InLeft q s # c)"
    "splits cmp ud b (before (InLeft q s # c)) (after (InLeft q s # c))" by auto
  then show ?thesis using assms TableInsertAsLeft
    by (auto intro!: exI [of _ s] exI [of _ "c @ [InLeft a r]"]
        simp: plug_append before_append after_append splits_def)
next
  case TableInsertAsRight
  with assms obtain s c where "l = plug Leaf (InRight s q # c)"
    "splits cmp ud b (before (InRight s q # c)) (after (InRight s q # c))" by auto
  then show ?thesis using assms TableInsertAsRight
    by (auto intro!: exI [of _ s] exI [of _ "c @ [InLeft a r]"]
        simp: plug_append before_append after_append splits_def)
qed (use assms in auto)

lemma search_ok_right:
  assumes "search_ok cmp ud b r res q" "res \<noteq> TableEmptyTree"
    and "cmp b (ud a) = GenericGreaterThan" "\<forall>x \<in> set_tree l. cmp b (ud x) = GenericGreaterThan"
  shows "search_ok cmp ud b (Node l a r) res q"
proof (cases res)
  case TableInsertAsLeft
  with assms obtain s c where "r = plug Leaf (InLeft q s # c)"
    "splits cmp ud b (before (InLeft q s # c)) (after (InLeft q s # c))" by auto
  then show ?thesis using assms TableInsertAsLeft
    by (auto intro!: exI [of _ s] exI [of _ "c @ [InRight l a]"]
        simp: plug_append before_append after_append splits_def)
next
  case TableInsertAsRight
  with assms obtain s c where "r = plug Leaf (InRight s q # c)"
    "splits cmp ud b (before (InRight s q # c)) (after (InRight s q # c))" by auto
  then show ?thesis using assms TableInsertAsRight
    by (auto intro!: exI [of _ s] exI [of _ "c @ [InRight l a]"]
        simp: plug_append before_append after_append splits_def)
qed (use assms in auto)

text \<open>The loop both kinds of table search with.\<close>

locale table_search =
  fixes cmp :: "'b \<Rightarrow> 'b \<Rightarrow> RTL_GENERIC_COMPARE_RESULTS" and h :: "'a links" and ud :: "nat \<Rightarrow> 'b"
    and buf :: 'b and search :: "nat \<Rightarrow> (TABLE_SEARCH_RESULT \<times> nat) option"
  assumes search_step: "search p = (case cmp buf (ud p) of
      GenericLessThan \<Rightarrow> if LeftChild (h p) \<noteq> 0 then search (LeftChild (h p)) else Some (TableInsertAsLeft, p)
    | GenericGreaterThan \<Rightarrow> if RightChild (h p) \<noteq> 0 then search (RightChild (h p)) else Some (TableInsertAsRight, p)
    | GenericEqual \<Rightarrow> Some (TableFoundNode, p))"
begin

lemma search_finds:
  assumes "tree_at h par p t" "t \<noteq> Leaf" "graded cmp ud buf (inorder t)"
  shows "\<exists>res q. search p = Some (res, q) \<and> search_ok cmp ud buf t res q \<and> res \<noteq> TableEmptyTree"
  using assms
proof (induction t arbitrary: par p)
  case (Node l a r)
  have g: "graded cmp ud buf (inorder l)" "graded cmp ud buf (inorder r)"
    using Node.prems(3) by (auto simp: graded_def sorted_wrt_append)
  from Node have p: "p = a" "tree_at h a (LeftChild (h a)) l" "tree_at h a (RightChild (h a)) r" by auto
  show ?case
  proof (cases "cmp buf (ud a)")
    case GenericLessThan
    then have r: "\<forall>x \<in> set_tree r. cmp buf (ud x) = GenericLessThan"
      using Node.prems(3) by (auto simp: graded_def sorted_wrt_append)
    show ?thesis
    proof (cases "l = Leaf")
      case True
      have "search_ok cmp ud buf (Node l a r) TableInsertAsLeft a"
        using True GenericLessThan r by (auto intro!: exI [of _ r] exI [of _ "[]"] simp: splits_def)
      then show ?thesis using True p GenericLessThan by (subst search_step) simp
    next
      case False
      then obtain res q where "search (LeftChild (h a)) = Some (res, q)" "search_ok cmp ud buf l res q" "res \<noteq> TableEmptyTree"
        using Node.IH(1) [OF p(2) _ g(1)] by auto
      moreover have "LeftChild (h a) \<noteq> 0" using False p(2) tree_at_null by metis
      ultimately show ?thesis using p GenericLessThan search_ok_left [of cmp ud buf l res q a r] r
        by (subst search_step) auto
    qed
  next
    case GenericGreaterThan
    then have l: "\<forall>x \<in> set_tree l. cmp buf (ud x) = GenericGreaterThan"
      using Node.prems(3) by (auto simp: graded_def sorted_wrt_append)
    show ?thesis
    proof (cases "r = Leaf")
      case True
      have "search_ok cmp ud buf (Node l a r) TableInsertAsRight a"
        using True GenericGreaterThan l by (auto intro!: exI [of _ l] exI [of _ "[]"] simp: splits_def)
      then show ?thesis using True p GenericGreaterThan by (subst search_step) simp
    next
      case False
      then obtain res q where "search (RightChild (h a)) = Some (res, q)" "search_ok cmp ud buf r res q" "res \<noteq> TableEmptyTree"
        using Node.IH(2) [OF p(3) _ g(2)] by auto
      moreover have "RightChild (h a) \<noteq> 0" using False p(3) tree_at_null by metis
      ultimately show ?thesis using p GenericGreaterThan search_ok_right [of cmp ud buf r res q a l] l
        by (subst search_step) auto
    qed
  next
    case GenericEqual
    then show ?thesis using p by (subst search_step) simp
  qed
qed simp

end

section \<open>Hanging in a new node\<close>

lemma attach_left:
  assumes "holds_tree h rt Leaf (InLeft a r # c)" "apart h rt Leaf (InLeft a r # c)"
    and "n \<noteq> 0" "n \<notin> frame_nodes (InLeft a r # c)" "rt \<noteq> Some n"
    and "Parent (h' n) = a" "LeftChild (h' n) = 0" "RightChild (h' n) = 0"
    and "LeftChild (h' a) = n" "RightChild (h' a) = RightChild (h a)" "Parent (h' a) = Parent (h a)"
    and "\<And>x. x \<noteq> n \<Longrightarrow> x \<noteq> a \<Longrightarrow> same_links h h' x"
  shows "holds_tree h' rt (Node Leaf n Leaf) (InLeft a r # c) \<and> apart h' rt (Node Leaf n Leaf) (InLeft a r # c)"
proof -
  note d = apart_neq [OF assms(2)]
  have a: "a \<notin> set_tree r" "a \<notin> frame_nodes c" "a \<notin> set_option rt" using d(2,4) by (auto simp flip: set_frames)
  have same: "same_links h h' x" if "x \<in> set_tree r \<union> frame_nodes c \<union> set_option rt" for x
    using that a assms(4,5) by (intro assms(12)) auto
  then have "tree_at h' a q r = tree_at h a q r" "frames_at h' rt a q c = frames_at h rt a q c" for q
    by (auto intro!: tree_at_cong frames_at_cong)
  moreover have "rt = Some s \<Longrightarrow> same_links h h' s" for s using same by simp
  ultimately show ?thesis using assms(1-11)
    by (auto simp: holds_tree_def apart_def same_links_def simp flip: set_frames)
qed

lemma attach_right:
  assumes "holds_tree h rt Leaf (InRight l a # c)" "apart h rt Leaf (InRight l a # c)"
    and "n \<noteq> 0" "n \<notin> frame_nodes (InRight l a # c)" "rt \<noteq> Some n"
    and "Parent (h' n) = a" "LeftChild (h' n) = 0" "RightChild (h' n) = 0"
    and "RightChild (h' a) = n" "LeftChild (h' a) = LeftChild (h a)" "Parent (h' a) = Parent (h a)"
    and "\<And>x. x \<noteq> n \<Longrightarrow> x \<noteq> a \<Longrightarrow> same_links h h' x"
  shows "holds_tree h' rt (Node Leaf n Leaf) (InRight l a # c) \<and> apart h' rt (Node Leaf n Leaf) (InRight l a # c)"
proof -
  note d = apart_neq [OF assms(2)]
  have a: "a \<notin> set_tree l" "a \<notin> frame_nodes c" "a \<notin> set_option rt" using d(2,4) by (auto simp flip: set_frames)
  have same: "same_links h h' x" if "x \<in> set_tree l \<union> frame_nodes c \<union> set_option rt" for x
    using that a assms(4,5) by (intro assms(12)) auto
  then have "tree_at h' a q l = tree_at h a q l" "frames_at h' rt a q c = frames_at h rt a q c" for q
    by (auto intro!: tree_at_cong frames_at_cong)
  moreover have "rt = Some s \<Longrightarrow> same_links h h' s" for s using same by simp
  ultimately show ?thesis using assms(1-11)
    by (auto simp: holds_tree_def apart_def same_links_def simp flip: set_frames)
qed

section \<open>Taking a node out\<close>

text \<open>A node with at most one child: the child takes its place.\<close>

lemma unlink_node:
  assumes t: "tree_at h par d (Node l d r)" and f: "frames_at h rt d par c" and a: "apart h rt (Node l d r) c"
    and lr: "l = Leaf \<or> r = Leaf" "u = (if l = Leaf then r else l)"
    and ch: "ch = (if LeftChild (h d) \<noteq> 0 then LeftChild (h d) else RightChild (h d))"
    and P: "\<And>x. x \<noteq> d \<Longrightarrow> Parent (h' x) = (if x = ch \<and> ch \<noteq> 0 then par' else Parent (h x))"
    and L: "\<And>x. x \<noteq> d \<Longrightarrow> LeftChild (h' x) = (if x = par \<and> LeftChild (h par) = d then ch else LeftChild (h x))"
    and R: "\<And>x. x \<noteq> d \<Longrightarrow> RightChild (h' x) = (if x = par \<and> LeftChild (h par) \<noteq> d then ch else RightChild (h x))"
    and par': "rt = None \<and> c = [] \<longrightarrow> par' = ch" "rt \<noteq> None \<or> c \<noteq> [] \<longrightarrow> par' = par"
  shows "tree_at h' par' ch u" "frames_at h' rt ch par' c" "apart h' rt u c"
proof -
  note n = apart_neq [OF a]
  have u: "tree_at h d ch u" "d \<notin> set_tree u" "distinct (inorder u)" "set_tree u \<subseteq> set_tree (Node l d r)"
    using t lr ch n(1) by (auto simp: tree_at_null split: if_splits)
  have par: "par \<notin> set_tree u" using frames_par [OF f] n(1,3,4) u by (auto split: if_splits)
  have *: "ch \<in> insert 0 (set_tree u)" using u(1) by (cases u) auto
  show "tree_at h' par' ch u"
  proof (rule tree_at_move [OF u(1,3)])
    fix x assume x: "x \<in> set_tree u"
    then have "x \<noteq> d" "x \<noteq> par" "x \<noteq> 0" using u(2) par tree_at_notin [OF u(1)] by metis+
    then show "LeftChild (h' x) = LeftChild (h x) \<and> RightChild (h' x) = RightChild (h x)"
      "Parent (h' x) = (if x = ch then par' else Parent (h x))" using P L R by auto
  qed
  have out: "x \<noteq> d \<and> (x = ch \<longrightarrow> ch = 0)" if "x \<in> frame_nodes c \<union> set_option rt" for x
    using that n(3,4) * u(4) by auto
  show "frames_at h' rt ch par' c"
  proof (rule frames_at_replace [OF f _ _ n(2) n(5)])
    show "d \<noteq> 0" "d \<notin> frame_nodes c" using t n(3) by auto
    fix x assume "x \<in> frame_nodes c \<union> set_option rt"
    note o = out [OF this]
    show "Parent (h' x) = Parent (h x)" using o P [of x] by auto
    show "LeftChild (h' x) = (if x = par \<and> LeftChild (h par) = d then ch else LeftChild (h x))" using o L [of x] by simp
    show "RightChild (h' x) = (if x = par \<and> LeftChild (h par) \<noteq> d then ch else RightChild (h x))" using o R [of x] by simp
  qed (use par' in simp_all)
  have "Parent (h' s) = Parent (h s) \<and> LeftChild (h' s) = LeftChild (h s)" if s: "rt = Some s" for s
  proof -
    have o: "s \<in> frame_nodes c \<union> set_option rt" using s by simp
    note x = out [OF o]
    have "LeftChild (h s) \<noteq> d" using n(5) [OF s] t by simp
    then have "LeftChild (h' s) = LeftChild (h s)" using x L [of s] by auto
    moreover have "Parent (h' s) = Parent (h s)" using x P [of s] by auto
    ultimately show ?thesis by simp
  qed
  then show "apart h' rt u c" using a lr unfolding apart_def by (auto split: if_splits)
qed

text \<open>A node outside takes the place of a node of the tree.\<close>

lemma replace_node:
  assumes t: "tree_at h par n (Node l n r)" and f: "frames_at h rt n par c" and a: "apart h rt (Node l n r) c"
    and d: "d \<noteq> 0" "d \<notin> set_tree (Node l n r)" "d \<notin> frame_nodes c" "rt \<noteq> Some d"
    and P: "\<And>x. x \<noteq> n \<Longrightarrow> x \<noteq> d \<Longrightarrow> Parent (h' x) = (if x \<noteq> 0 \<and> (x = LeftChild (h n) \<or> x = RightChild (h n)) then d else Parent (h x))"
    and L: "\<And>x. x \<noteq> n \<Longrightarrow> x \<noteq> d \<Longrightarrow> LeftChild (h' x) = (if x = par \<and> LeftChild (h par) = n then d else LeftChild (h x))"
    and R: "\<And>x. x \<noteq> n \<Longrightarrow> x \<noteq> d \<Longrightarrow> RightChild (h' x) = (if x = par \<and> LeftChild (h par) \<noteq> n then d else RightChild (h x))"
    and D: "Parent (h' d) = par'" "LeftChild (h' d) = LeftChild (h n)" "RightChild (h' d) = RightChild (h n)"
    and par': "rt = None \<and> c = [] \<longrightarrow> par' = d" "rt \<noteq> None \<or> c \<noteq> [] \<longrightarrow> par' = par"
  shows "holds_tree h' rt (Node l d r) c" "apart h' rt (Node l d r) c"
proof -
  note n = apart_neq [OF a]
  have c: "LeftChild (h n) \<in> insert 0 (set_tree l)" "RightChild (h n) \<in> insert 0 (set_tree r)"
    using t by (cases l; auto) (use t in \<open>cases r; auto\<close>)
  have par: "par \<notin> set_tree l \<union> set_tree r" using frames_par [OF f] n(1,3,4) by (auto split: if_splits)
  have z: "0 \<notin> set_tree l \<union> set_tree r" using tree_at_notin [OF t] by simp
  have "tree_at h' d (LeftChild (h n)) l"
  proof (rule tree_at_move [of h n])
    fix x assume x: "x \<in> set_tree l"
    then have o: "x \<noteq> n" "x \<noteq> d" "x \<noteq> par" "x \<noteq> 0" "x = LeftChild (h n) \<or> x = RightChild (h n) \<longleftrightarrow> x = LeftChild (h n)"
      using n(1) d(2) par c z by auto
    show "LeftChild (h' x) = LeftChild (h x) \<and> RightChild (h' x) = RightChild (h x)" using o L [of x] R [of x] by simp
    show "Parent (h' x) = (if x = LeftChild (h n) then d else Parent (h x))" using o P [of x] by simp
  qed (use t n(1) in auto)
  moreover have "tree_at h' d (RightChild (h n)) r"
  proof (rule tree_at_move [of h n])
    fix x assume x: "x \<in> set_tree r"
    then have o: "x \<noteq> n" "x \<noteq> d" "x \<noteq> par" "x \<noteq> 0" "x = LeftChild (h n) \<or> x = RightChild (h n) \<longleftrightarrow> x = RightChild (h n)"
      using n(1) d(2) par c z by auto
    show "LeftChild (h' x) = LeftChild (h x) \<and> RightChild (h' x) = RightChild (h x)" using o L [of x] R [of x] by simp
    show "Parent (h' x) = (if x = RightChild (h n) then d else Parent (h x))" using o P [of x] by simp
  qed (use t n(1) in auto)
  moreover
  have out: "x \<noteq> n \<and> x \<noteq> d \<and> (x = LeftChild (h n) \<or> x = RightChild (h n) \<longrightarrow> x = 0)" if "x \<in> frame_nodes c \<union> set_option rt" for x
    using that n(3,4) c d(3,4) by auto
  have "frames_at h' rt d par' c"
  proof (rule frames_at_replace [OF f _ _ n(2) n(5)])
    show "n \<noteq> 0" "n \<notin> frame_nodes c" using t n(3) by auto
    fix x assume "x \<in> frame_nodes c \<union> set_option rt"
    note o = out [OF this]
    show "Parent (h' x) = Parent (h x)" using o P [of x] by auto
    show "LeftChild (h' x) = (if x = par \<and> LeftChild (h par) = n then d else LeftChild (h x))" using o L [of x] by simp
    show "RightChild (h' x) = (if x = par \<and> LeftChild (h par) \<noteq> n then d else RightChild (h x))" using o R [of x] by simp
  qed (use par' in simp_all)
  ultimately show "holds_tree h' rt (Node l d r) c"
    unfolding holds_tree_def using D d(1) by (intro exI [of _ d] exI [of _ par']) simp
  have "Parent (h' s) = Parent (h s) \<and> LeftChild (h' s) = LeftChild (h s)" if s: "rt = Some s" for s
  proof -
    have o: "s \<in> frame_nodes c \<union> set_option rt" using s by simp
    note x = out [OF o]
    have "LeftChild (h s) \<noteq> n" using n(5) [OF s] t by simp
    then have "LeftChild (h' s) = LeftChild (h s)" using x L [of s] by auto
    moreover have "Parent (h' s) = Parent (h s)" using x P [of s] by auto
    ultimately show ?thesis by simp
  qed
  then show "apart h' rt (Node l d r) c" using a d(2-4) unfolding apart_def by (auto simp flip: set_frames)
qed

end
