(* ===== verification/Rtl_Avl.thy ===== *)
theory Rtl_Avl
  imports Rtl_Links "HOL-Library.Monad_Syntax"
begin

text \<open>
  AVL trees: \<open>lib/rtl/avlsupp.c\<close> with \<open>lib/rtl/rtlavl.h\<close>. The tree hangs as the right child of the table's node \<open>BalancedRoot\<close>.
  Insertion and deletion follow the parent links up from the place of the change, updating the
  balance factors and rotating where needed; the balance factor of \<open>BalancedRoot\<close> serves them to
  notice that the depth of the tree changed. \<open>None\<close> stands for a loop that does not end.
\<close>

section \<open>Data\<close>

text \<open>\<open>Balance\<close> is a \<open>CHAR\<close>; the routines store -1, 0 and 1 in it, and compare it with them.\<close>

record RTL_BALANCED_LINKS = RTL_SPLAY_LINKS +
  Balance :: int

type_synonym avl_links = "nat \<Rightarrow> RTL_BALANCED_LINKS"

abbreviation (input) RtlLeftHeavyAvlTree :: int where
  "RtlLeftHeavyAvlTree \<equiv> -1"

abbreviation (input) RtlBalancedAvlTree :: int where
  "RtlBalancedAvlTree \<equiv> 0"

abbreviation (input) RtlRightHeavyAvlTree :: int where
  "RtlRightHeavyAvlTree \<equiv> 1"

text \<open>
  \<open>BalancedRoot\<close> is the address of that field of the table. The routines of the table's user are
  the comparison \<open>CompareRoutine\<close>, of a buffer with the data of a node, and the allocation, which
  the insertion takes as the address it returns. The data of a node is a value at its address.
\<close>

record 'b RTL_AVL_TABLE =
  BalancedRoot :: nat
  OrderedPointer :: nat
  WhichOrderedElement :: ULONG
  NumberGenericTableElements :: ULONG
  DepthOfTree :: ULONG
  RestartKey :: nat
  DeleteCount :: ULONG
  CompareRoutine :: "'b \<Rightarrow> 'b \<Rightarrow> RTL_GENERIC_COMPARE_RESULTS"

section \<open>The algorithms of \<open>avlsupp.c\<close>\<close>

definition RtlSetBalance :: "avl_links \<Rightarrow> nat \<Rightarrow> int \<Rightarrow> avl_links" where
  "RtlSetBalance h Links b = h(Links := (h Links)\<lparr>Balance := b\<rparr>)"

definition RtlpCopyAvlNodeData :: "avl_links \<Rightarrow> nat \<Rightarrow> nat \<Rightarrow> avl_links" where
  "RtlpCopyAvlNodeData h Node1 Node2 = h(Node1 := h Node2)"

partial_function (option) RtlpFindAvlTableNodeOrParent_loop ::
  "'b RTL_AVL_TABLE \<Rightarrow> avl_links \<Rightarrow> (nat \<Rightarrow> 'b) \<Rightarrow> 'b \<Rightarrow> nat \<Rightarrow> (TABLE_SEARCH_RESULT \<times> nat) option" where
  "RtlpFindAvlTableNodeOrParent_loop Table h UserData Buffer CurrentNode =
     (case CompareRoutine Table Buffer (UserData CurrentNode) of
        GenericLessThan \<Rightarrow>
          (if LeftChild (h CurrentNode) \<noteq> 0
           then RtlpFindAvlTableNodeOrParent_loop Table h UserData Buffer (LeftChild (h CurrentNode))
           else Some (TableInsertAsLeft, CurrentNode))
      | GenericGreaterThan \<Rightarrow>
          (if RightChild (h CurrentNode) \<noteq> 0
           then RtlpFindAvlTableNodeOrParent_loop Table h UserData Buffer (RightChild (h CurrentNode))
           else Some (TableInsertAsRight, CurrentNode))
      | GenericEqual \<Rightarrow> Some (TableFoundNode, CurrentNode))"

text \<open>\<open>NodeOrParent\<close> is the third argument: it keeps its value when the table is empty.\<close>

definition RtlpFindAvlTableNodeOrParent ::
  "'b RTL_AVL_TABLE \<Rightarrow> avl_links \<Rightarrow> (nat \<Rightarrow> 'b) \<Rightarrow> 'b \<Rightarrow> nat \<Rightarrow> (TABLE_SEARCH_RESULT \<times> nat) option" where
  "RtlpFindAvlTableNodeOrParent Table h UserData Buffer NodeOrParent =
     (if NumberGenericTableElements Table = 0 then Some (TableEmptyTree, NodeOrParent)
      else RtlpFindAvlTableNodeOrParent_loop Table h UserData Buffer (RightChild (h (BalancedRoot Table))))"

definition RtlPromoteAvlTreeNode :: "avl_links \<Rightarrow> nat \<Rightarrow> avl_links" where
  "RtlPromoteAvlTreeNode h Links =
     (let ParentNode = Parent (h Links);
          SuperParentNode = Parent (h ParentNode);
          left = RtlIsLeftChild h Links;
          Sub = (if left then RightChild (h Links) else LeftChild (h Links));
          h = (if left then set_LeftChild h ParentNode Sub else set_RightChild h ParentNode Sub);
          h = (if Sub \<noteq> 0 then set_Parent h Sub ParentNode else h);
          h = (if left then set_RightChild h Links ParentNode else set_LeftChild h Links ParentNode);
          h = set_Parent h ParentNode Links;
          h = (if LeftChild (h SuperParentNode) = ParentNode then set_LeftChild h SuperParentNode Links
               else set_RightChild h SuperParentNode Links)
      in set_Parent h Links SuperParentNode)"

definition RtlpRebalanceAvlTreeNode :: "avl_links \<Rightarrow> nat \<Rightarrow> avl_links \<times> bool" where
  "RtlpRebalanceAvlTreeNode h Links =
     (let Bal = Balance (h Links);
          ChildNode = (if Bal = RtlRightHeavyAvlTree then RightChild (h Links) else LeftChild (h Links))
      in if Balance (h ChildNode) = Bal
         then (let h = RtlPromoteAvlTreeNode h ChildNode;
                   h = RtlSetBalance h ChildNode RtlBalancedAvlTree;
                   h = RtlSetBalance h Links RtlBalancedAvlTree
               in (h, False))
         else if Balance (h ChildNode) = - Bal
         then (let SubChildNode = (if Bal = RtlRightHeavyAvlTree then LeftChild (h ChildNode)
                                   else RightChild (h ChildNode));
                   h = RtlPromoteAvlTreeNode h SubChildNode;
                   h = RtlPromoteAvlTreeNode h SubChildNode;
                   h = (if Balance (h SubChildNode) = Bal
                        then RtlSetBalance (RtlSetBalance h ChildNode RtlBalancedAvlTree) Links (- Bal)
                        else if Balance (h SubChildNode) = - Bal
                        then RtlSetBalance (RtlSetBalance h ChildNode Bal) Links RtlBalancedAvlTree
                        else RtlSetBalance (RtlSetBalance h ChildNode RtlBalancedAvlTree) Links RtlBalancedAvlTree)
               in (RtlSetBalance h SubChildNode RtlBalancedAvlTree, False))
         else (let h = RtlPromoteAvlTreeNode h ChildNode
               in (RtlSetBalance h ChildNode (- Bal), True)))"

partial_function (option) RtlpInsertAvlTreeNode_loop ::
  "'b RTL_AVL_TABLE \<Rightarrow> avl_links \<Rightarrow> nat \<Rightarrow> nat \<Rightarrow> ('b RTL_AVL_TABLE \<times> avl_links) option" where
  "RtlpInsertAvlTreeNode_loop Table h NewNode NodeOrParent =
     (let Bal = (if RtlIsLeftChild h NewNode then RtlLeftHeavyAvlTree else RtlRightHeavyAvlTree)
      in if Balance (h NodeOrParent) = RtlBalancedAvlTree
         then (let h = RtlSetBalance h NodeOrParent Bal
               in RtlpInsertAvlTreeNode_loop Table h NodeOrParent (Parent (h NodeOrParent)))
         else if Balance (h NodeOrParent) \<noteq> Bal
         then (let h = RtlSetBalance h NodeOrParent RtlBalancedAvlTree
               in Some (if Balance (h (BalancedRoot Table)) = RtlBalancedAvlTree
                        then Table\<lparr>DepthOfTree := DepthOfTree Table + 1\<rparr> else Table, h))
         else Some (Table, fst (RtlpRebalanceAvlTreeNode h NodeOrParent)))"

definition RtlpInsertAvlTreeNode ::
  "'b RTL_AVL_TABLE \<Rightarrow> avl_links \<Rightarrow> nat \<Rightarrow> nat \<Rightarrow> TABLE_SEARCH_RESULT \<Rightarrow> ('b RTL_AVL_TABLE \<times> avl_links) option" where
  "RtlpInsertAvlTreeNode Table h NewNode NodeOrParent SearchResult =
     (let h = set_LeftChild (set_RightChild h NewNode 0) NewNode 0;
          Table = Table\<lparr>NumberGenericTableElements := NumberGenericTableElements Table + 1\<rparr>
      in if SearchResult = TableEmptyTree
         then Some (Table\<lparr>DepthOfTree := 1\<rparr>, RtlInsertAsRightChild h (BalancedRoot Table) NewNode)
         else (let h = (if SearchResult = TableInsertAsLeft then RtlInsertAsLeftChild h NodeOrParent NewNode
                        else RtlInsertAsRightChild h NodeOrParent NewNode);
                   h = RtlSetBalance h (BalancedRoot Table) RtlLeftHeavyAvlTree
               in RtlpInsertAvlTreeNode_loop Table h NewNode NodeOrParent))"

text \<open>One turn of the deletion's loop: \<open>Inl\<close> where it breaks off, \<open>Inr\<close> with the node it goes up from.\<close>

definition RtlpDeleteAvlTreeNode_step ::
  "'b RTL_AVL_TABLE \<Rightarrow> avl_links \<Rightarrow> nat \<Rightarrow> int \<Rightarrow> ('b RTL_AVL_TABLE \<times> avl_links) + (avl_links \<times> nat)" where
  "RtlpDeleteAvlTreeNode_step Table h ParentNode Bal =
     (if Balance (h ParentNode) = Bal
      then Inr (RtlSetBalance h ParentNode RtlBalancedAvlTree, ParentNode)
      else if Balance (h ParentNode) = RtlBalancedAvlTree
      then (let h = RtlSetBalance h ParentNode (- Bal)
            in Inl (if Balance (h (BalancedRoot Table)) \<noteq> RtlBalancedAvlTree
                    then Table\<lparr>DepthOfTree := DepthOfTree Table - 1\<rparr> else Table, h))
      else (let (h, stop) = RtlpRebalanceAvlTreeNode h ParentNode
            in if stop then Inl (Table, h) else Inr (h, Parent (h ParentNode))))"

partial_function (option) RtlpDeleteAvlTreeNode_loop ::
  "'b RTL_AVL_TABLE \<Rightarrow> avl_links \<Rightarrow> nat \<Rightarrow> int \<Rightarrow> ('b RTL_AVL_TABLE \<times> avl_links) option" where
  "RtlpDeleteAvlTreeNode_loop Table h ParentNode Bal =
     (case RtlpDeleteAvlTreeNode_step Table h ParentNode Bal of
        Inl res \<Rightarrow> Some res
      | Inr (h, ParentNode) \<Rightarrow> RtlpDeleteAvlTreeNode_loop Table h (Parent (h ParentNode))
          (if RtlIsRightChild h ParentNode then RtlRightHeavyAvlTree else RtlLeftHeavyAvlTree))"

text \<open>
  The node that leaves its place: the node itself when it has an empty side, else its neighbour
  on the deeper side, which afterwards takes the place of the node.
\<close>

definition delete_node :: "avl_links \<Rightarrow> nat \<Rightarrow> nat option" where
  "delete_node h Links =
     (if LeftChild (h Links) = 0 \<or> RightChild (h Links) = 0 then Some Links
      else if Balance (h Links) \<ge> RtlBalancedAvlTree then left_most h (RightChild (h Links))
      else right_most h (LeftChild (h Links)))"

definition unlink :: "avl_links \<Rightarrow> nat \<Rightarrow> avl_links" where
  "unlink h DeleteNode =
     (let ParentNode = Parent (h DeleteNode);
          Child = (if LeftChild (h DeleteNode) \<noteq> 0 then LeftChild (h DeleteNode) else RightChild (h DeleteNode));
          h = (if RtlIsLeftChild h DeleteNode then set_LeftChild h ParentNode Child
               else set_RightChild h ParentNode Child)
      in (if Child \<noteq> 0 then set_Parent h Child ParentNode else h))"

definition take_over :: "avl_links \<Rightarrow> nat \<Rightarrow> nat \<Rightarrow> avl_links" where
  "take_over h DeleteNode Links =
     (let h = RtlpCopyAvlNodeData h DeleteNode Links;
          h = (if RtlIsLeftChild h Links then set_LeftChild h (Parent (h DeleteNode)) DeleteNode
               else set_RightChild h (Parent (h DeleteNode)) DeleteNode);
          h = (if LeftChild (h DeleteNode) \<noteq> 0 then set_Parent h (LeftChild (h DeleteNode)) DeleteNode else h)
      in (if RightChild (h DeleteNode) \<noteq> 0 then set_Parent h (RightChild (h DeleteNode)) DeleteNode else h))"

definition RtlpDeleteAvlTreeNode ::
  "'b RTL_AVL_TABLE \<Rightarrow> avl_links \<Rightarrow> nat \<Rightarrow> ('b RTL_AVL_TABLE \<times> avl_links) option" where
  "RtlpDeleteAvlTreeNode Table h Links =
     do {
       DeleteNode \<leftarrow> delete_node h Links;
       let ParentNode = Parent (h DeleteNode);
       let Bal = (if RtlIsLeftChild h DeleteNode then RtlLeftHeavyAvlTree else RtlRightHeavyAvlTree);
       let h = RtlSetBalance (unlink h DeleteNode) (BalancedRoot Table) RtlBalancedAvlTree;
       (Table, h) \<leftarrow> RtlpDeleteAvlTreeNode_loop Table h ParentNode Bal;
       Some (Table, if Links = DeleteNode then h else take_over h DeleteNode Links)
     }"

section \<open>Rotations\<close>

lemma balance_fields [link_simps]:
  "Balance (set_Parent h a p x) = Balance (h x)"
  "Balance (set_LeftChild h a p x) = Balance (h x)"
  "Balance (set_RightChild h a p x) = Balance (h x)"
  "Balance (RtlSetBalance h a b x) = (if x = a then b else Balance (h x))"
  "Parent (RtlSetBalance h a b x) = Parent (h x)"
  "LeftChild (RtlSetBalance h a b x) = LeftChild (h x)"
  "RightChild (RtlSetBalance h a b x) = RightChild (h x)"
  by (simp_all add: set_Parent_def set_LeftChild_def set_RightChild_def RtlSetBalance_def)

lemma same_links_balance: "same_links h (RtlSetBalance h a b) x"
  by (simp add: same_links_def link_simps)

lemma holds_tree_balance [simp]: "holds_tree (RtlSetBalance h a b) rt t c \<longleftrightarrow> holds_tree h rt t c"
  unfolding holds_tree_def using same_links_balance by (metis tree_at_cong frames_at_cong)

lemma apart_balance [simp]: "apart (RtlSetBalance h a b) rt t c \<longleftrightarrow> apart h rt t c"
  by (simp add: apart_def link_simps)

lemma promote_balance [link_simps]: "Balance (RtlPromoteAvlTreeNode h n x) = Balance (h x)"
  by (simp add: RtlPromoteAvlTreeNode_def Let_def link_simps)

lemma promote_left_child:
  assumes "holds_tree h (Some s) (Node (Node x n y) p z) c" "apart h (Some s) (Node (Node x n y) p z) c"
  shows "holds_tree (RtlPromoteAvlTreeNode h n) (Some s) (Node x n (Node y p z)) c"
    "apart (RtlPromoteAvlTreeNode h n) (Some s) (Node x n (Node y p z)) c"
proof -
  let ?h = "RtlPromoteAvlTreeNode h n"
  from assms(1) obtain par where t: "tree_at h par p (Node (Node x n y) p z)" and f: "frames_at h (Some s) p par c"
    by (auto simp: holds_tree_def)
  note d = apart_neq [OF assms(2)]
  have "par \<notin> set_tree (Node (Node x n y) p z)" using frames_par [OF f] d(3,4) by auto
  then have ne: "n \<noteq> p" "n \<noteq> 0" "p \<noteq> 0" "par \<noteq> n" "par \<noteq> p" "RightChild (h n) \<noteq> n" "RightChild (h n) \<noteq> p"
    using t d(1) by (auto dest: child_neq)
  have e: "Parent (h n) = p" "Parent (h p) = par" "LeftChild (h p) = n" using t by auto
  note promote = RtlPromoteAvlTreeNode_def Let_def RtlIsLeftChild_def link_simps
  have r: "rotated_up h ?h n p (RightChild (h n)) par par"
    unfolding rotated_up_def by (intro allI conjI impI; use ne e in \<open>simp add: promote\<close>)
  show "holds_tree ?h (Some s) (Node x n (Node y p z)) c"
    by (rule rotate_right [OF r _ _ _ _ t f assms(2)]) (use ne e in \<open>simp_all add: promote\<close>)
  have "RightChild (h n) \<in> insert 0 (set_tree y)" using t by (cases y) auto
  then have "RightChild (h n) \<noteq> s \<or> s = 0" "s \<noteq> n" "s \<noteq> p" "LeftChild (h s) \<noteq> p"
    using d(4,5) ne(3) by auto
  then have "Parent (?h s) = Parent (h s)" "LeftChild (?h s) = LeftChild (h s)"
    using r unfolding rotated_up_def by auto
  then show "apart ?h (Some s) (Node x n (Node y p z)) c"
    using assms(2) by (simp add: apart_def)
qed

lemma promote_right_child:
  assumes "holds_tree h (Some s) (Node x p (Node y n z)) c" "apart h (Some s) (Node x p (Node y n z)) c"
  shows "holds_tree (RtlPromoteAvlTreeNode h n) (Some s) (Node (Node x p y) n z) c"
    "apart (RtlPromoteAvlTreeNode h n) (Some s) (Node (Node x p y) n z) c"
proof -
  let ?h = "RtlPromoteAvlTreeNode h n"
  from assms(1) obtain par where t: "tree_at h par p (Node x p (Node y n z))" and f: "frames_at h (Some s) p par c"
    by (auto simp: holds_tree_def)
  note d = apart_neq [OF assms(2)]
  have "par \<notin> set_tree (Node x p (Node y n z))" using frames_par [OF f] d(3,4) by auto
  then have ne: "n \<noteq> p" "n \<noteq> 0" "p \<noteq> 0" "par \<noteq> n" "par \<noteq> p" "LeftChild (h n) \<noteq> n" "LeftChild (h n) \<noteq> p"
    "LeftChild (h p) \<noteq> n"
    using t d(1) by (auto dest: child_neq)
  have e: "Parent (h n) = p" "Parent (h p) = par" "RightChild (h p) = n" using t by auto
  note promote = RtlPromoteAvlTreeNode_def Let_def RtlIsLeftChild_def link_simps
  have r: "rotated_up h ?h n p (LeftChild (h n)) par par"
    unfolding rotated_up_def by (intro allI conjI impI; use ne e in \<open>simp add: promote\<close>)
  show "holds_tree ?h (Some s) (Node (Node x p y) n z) c"
    by (rule rotate_left [OF r _ _ _ _ t f assms(2)]) (use ne e in \<open>simp_all add: promote\<close>)
  have "LeftChild (h n) \<in> insert 0 (set_tree y)" using t by (cases y) auto
  then have "LeftChild (h n) \<noteq> s \<or> s = 0" "s \<noteq> n" "s \<noteq> p" "LeftChild (h s) \<noteq> p"
    using d(4,5) ne(3) by auto
  then have "Parent (?h s) = Parent (h s)" "LeftChild (?h s) = LeftChild (h s)"
    using r unfolding rotated_up_def by auto
  then show "apart ?h (Some s) (Node (Node x p y) n z) c"
    using assms(2) by (simp add: apart_def)
qed

section \<open>Balanced trees\<close>

text \<open>Every balance factor is the difference of the heights, which is at most one.\<close>

fun avl :: "avl_links \<Rightarrow> nat tree \<Rightarrow> bool" where
  "avl h Leaf \<longleftrightarrow> True"
| "avl h (Node l a r) \<longleftrightarrow> Balance (h a) = int (height r) - int (height l) \<and> \<bar>Balance (h a)\<bar> \<le> 1 \<and>
     avl h l \<and> avl h r"

text \<open>A context is balanced for a subtree of height \<open>n\<close>.\<close>

fun avl_frames :: "avl_links \<Rightarrow> frame list \<Rightarrow> nat \<Rightarrow> bool" where
  "avl_frames h [] n \<longleftrightarrow> True"
| "avl_frames h (InLeft a r # c) n \<longleftrightarrow> Balance (h a) = int (height r) - int n \<and> \<bar>Balance (h a)\<bar> \<le> 1 \<and>
     avl h r \<and> avl_frames h c (Suc (max n (height r)))"
| "avl_frames h (InRight l a # c) n \<longleftrightarrow> Balance (h a) = int n - int (height l) \<and> \<bar>Balance (h a)\<bar> \<le> 1 \<and>
     avl h l \<and> avl_frames h c (Suc (max (height l) n))"

fun frames_height :: "frame list \<Rightarrow> nat \<Rightarrow> nat" where
  "frames_height [] n = n"
| "frames_height (InLeft a r # c) n = frames_height c (Suc (max n (height r)))"
| "frames_height (InRight l a # c) n = frames_height c (Suc (max (height l) n))"

lemma avl_plug: "avl h (plug t c) \<longleftrightarrow> avl h t \<and> avl_frames h c (height t)"
  by (induction t c rule: plug.induct) auto

lemma height_plug: "height (plug t c) = frames_height c (height t)"
  by (induction t c rule: plug.induct) auto

lemma avl_cong: "(\<And>x. x \<in> set_tree t \<Longrightarrow> Balance (h' x) = Balance (h x)) \<Longrightarrow> avl h' t = avl h t"
  by (induction t) auto

lemma avl_frames_cong:
  "(\<And>x. x \<in> frame_nodes c \<Longrightarrow> Balance (h' x) = Balance (h x)) \<Longrightarrow> avl_frames h' c n = avl_frames h c n"
proof (induction c arbitrary: n rule: frame_nodes.induct)
  case (2 a r c)
  then show ?case using avl_cong [of r h' h] by simp
next
  case (3 l a c)
  then show ?case using avl_cong [of l h' h] by simp
qed simp

lemma avl_set [simp]:
  "a \<notin> set_tree t \<Longrightarrow> avl (RtlSetBalance h a b) t = avl h t"
  "avl (RtlPromoteAvlTreeNode h n) t = avl h t"
  by (rule avl_cong; auto simp: link_simps)+

lemma avl_frames_set [simp]:
  "a \<notin> frame_nodes c \<Longrightarrow> avl_frames (RtlSetBalance h a b) c n = avl_frames h c n"
  by (rule avl_frames_cong) (auto simp: link_simps)

section \<open>Rebalancing\<close>

text \<open>
  Rebalancing a node whose deeper side, by its balance factor, is two deeper than the other. The
  subtree keeps its nodes in order and becomes balanced; it loses one level unless the routine
  returns true.
\<close>

definition rebalanced :: "avl_links \<Rightarrow> nat \<Rightarrow> nat tree \<Rightarrow> frame list \<Rightarrow> avl_links \<Rightarrow> bool \<Rightarrow> nat \<Rightarrow> bool" where
  "rebalanced h s t c h' stop a \<longleftrightarrow> (\<exists>l n r. holds_tree h' (Some s) (Node l n r) c \<and> apart h' (Some s) (Node l n r) c \<and>
     inorder (Node l n r) = inorder t \<and> avl h' (Node l n r) \<and>
     (\<forall>x. x \<notin> set_tree t \<longrightarrow> Balance (h' x) = Balance (h x)) \<and>
     (if stop then height (Node l n r) = height t
      else Suc (height (Node l n r)) = height t \<and> Parent (h' a) = n))"

lemma tree_parent:
  "holds_tree h rt (Node l n (Node l' a r')) c \<Longrightarrow> Parent (h a) = n"
  "holds_tree h rt (Node (Node l' a r') n r) c \<Longrightarrow> Parent (h a) = n"
  by (auto simp: holds_tree_def)

lemma tree_child:
  "holds_tree h rt (Node l n (Node l' a r')) c \<Longrightarrow> RightChild (h n) = a"
  "holds_tree h rt (Node (Node l' a r') n r) c \<Longrightarrow> LeftChild (h n) = a"
  by (auto simp: holds_tree_def)

lemma rebalance_left_single:
  assumes h: "holds_tree h (Some s) (Node (Node x n y) a r) c" "apart h (Some s) (Node (Node x n y) a r) c"
    and avl: "avl h (Node x n y)" "avl h r" and B: "Balance (h a) = -1"
    and H: "height (Node x n y) = height r + 2" and b: "Balance (h n) \<noteq> 1"
  defines "h' \<equiv> fst (RtlpRebalanceAvlTreeNode h a)" and "stop \<equiv> snd (RtlpRebalanceAvlTreeNode h a)"
  shows "rebalanced h s (Node (Node x n y) a r) c h' stop a" "stop \<longleftrightarrow> Balance (h n) = 0"
proof -
  have n: "LeftChild (h a) = n" by (rule tree_child(2) [OF h(1)])
  note d = apart_neq(1) [OF h(2)]
  note p = promote_left_child [OF h]
  have e: "h' = (if Balance (h n) = -1 then RtlSetBalance (RtlSetBalance (RtlPromoteAvlTreeNode h n) n 0) a 0
      else RtlSetBalance (RtlPromoteAvlTreeNode h n) n 1)" and stop: "stop \<longleftrightarrow> Balance (h n) \<noteq> -1"
    unfolding h'_def stop_def using b B n by (simp_all add: RtlpRebalanceAvlTreeNode_def Let_def)
  show "stop \<longleftrightarrow> Balance (h n) = 0" using stop avl(1) b by auto
  have "holds_tree h' (Some s) (Node x n (Node y a r)) c" "apart h' (Some s) (Node x n (Node y a r)) c"
    using p unfolding e by auto
  moreover have "avl h' (Node x n (Node y a r))"
    using avl b B d H unfolding e by (auto simp: link_simps)
  moreover have "height (Node x n (Node y a r)) = (if stop then height r + 3 else height r + 2)"
    using avl(1) b H unfolding stop by auto
  ultimately show "rebalanced h s (Node (Node x n y) a r) c h' stop a"
    using H tree_parent(1) [of h'] unfolding rebalanced_def
    by (intro exI [of _ x] exI [of _ n] exI [of _ "Node y a r"]) (auto simp: e link_simps)
qed

lemma rebalance_left_double:
  assumes h: "holds_tree h (Some s) (Node (Node x n (Node y m z)) a r) c" "apart h (Some s) (Node (Node x n (Node y m z)) a r) c"
    and avl: "avl h (Node x n (Node y m z))" "avl h r" and B: "Balance (h a) = -1"
    and H: "height (Node x n (Node y m z)) = height r + 2" and b: "Balance (h n) = 1"
  defines "h' \<equiv> fst (RtlpRebalanceAvlTreeNode h a)" and "stop \<equiv> snd (RtlpRebalanceAvlTreeNode h a)"
  shows "rebalanced h s (Node (Node x n (Node y m z)) a r) c h' stop a" "\<not> stop"
proof -
  have n: "LeftChild (h a) = n" by (rule tree_child(2) [OF h(1)])
  have m: "RightChild (h n) = m" using h(1) by (auto simp: holds_tree_def)
  note d = apart_neq(1) [OF h(2)]
  have q: "holds_tree (RtlPromoteAvlTreeNode h m) (Some s) (Node (Node (Node x n y) m z) a r) c"
    "apart (RtlPromoteAvlTreeNode h m) (Some s) (Node (Node (Node x n y) m z) a r) c"
    using promote_right_child [of h s x n y m z "InLeft a r # c"] h by (simp_all add: holds_tree_up apart_up)
  let ?t = "Node (Node x n y) m (Node z a r)"
  have e: "h' = RtlSetBalance (RtlSetBalance (RtlSetBalance (RtlPromoteAvlTreeNode (RtlPromoteAvlTreeNode h m) m)
        n (if Balance (h m) = 1 then -1 else 0)) a (if Balance (h m) = -1 then 1 else 0)) m 0" and stop: "\<not> stop"
    unfolding h'_def stop_def using b B n m by (simp_all add: RtlpRebalanceAvlTreeNode_def Let_def link_simps)
  show "\<not> stop" by (rule stop)
  have "holds_tree h' (Some s) ?t c" "apart h' (Some s) ?t c"
    using promote_left_child [OF q] unfolding e by auto
  moreover have "avl h' ?t" using avl b B d H unfolding e by (auto simp: link_simps)
  moreover have "height ?t = height r + 2" using avl(1) b H by auto
  ultimately show "rebalanced h s (Node (Node x n (Node y m z)) a r) c h' stop a"
    using H tree_parent(1) [of h'] stop unfolding rebalanced_def
    by (intro exI [of _ "Node x n y"] exI [of _ m] exI [of _ "Node z a r"]) (auto simp: e link_simps)
qed

lemma rebalance_left:
  assumes h: "holds_tree h (Some s) (Node l a r) c" "apart h (Some s) (Node l a r) c"
    and avl: "avl h l" "avl h r" and B: "Balance (h a) = -1" and H: "height l = height r + 2"
  shows "rebalanced h s (Node l a r) c (fst (RtlpRebalanceAvlTreeNode h a)) (snd (RtlpRebalanceAvlTreeNode h a)) a"
    "snd (RtlpRebalanceAvlTreeNode h a) \<longleftrightarrow> Balance (h (LeftChild (h a))) = 0"
proof -
  obtain x n y where l: "l = Node x n y" using H by (cases l) auto
  have n: "LeftChild (h a) = n" using h(1) l tree_child(2) by blast
  have "rebalanced h s (Node l a r) c (fst (RtlpRebalanceAvlTreeNode h a)) (snd (RtlpRebalanceAvlTreeNode h a)) a \<and>
    (snd (RtlpRebalanceAvlTreeNode h a) \<longleftrightarrow> Balance (h n) = 0)"
  proof (cases "Balance (h n) = 1")
    case True
    then obtain y1 m y2 where y: "y = Node y1 m y2" using avl l by (cases y) auto
    show ?thesis
      using rebalance_left_double [OF h [unfolded l y] avl [unfolded l y] B H [unfolded l y] True] True l y by simp
  next
    case False
    show ?thesis using rebalance_left_single [OF h [unfolded l] avl [unfolded l] B H [unfolded l] False] l by simp
  qed
  then show "rebalanced h s (Node l a r) c (fst (RtlpRebalanceAvlTreeNode h a)) (snd (RtlpRebalanceAvlTreeNode h a)) a"
    "snd (RtlpRebalanceAvlTreeNode h a) \<longleftrightarrow> Balance (h (LeftChild (h a))) = 0" using n by auto
qed

lemma rebalance_right_single:
  assumes h: "holds_tree h (Some s) (Node l a (Node x n y)) c" "apart h (Some s) (Node l a (Node x n y)) c"
    and avl: "avl h (Node x n y)" "avl h l" and B: "Balance (h a) = 1"
    and H: "height (Node x n y) = height l + 2" and b: "Balance (h n) \<noteq> -1"
  defines "h' \<equiv> fst (RtlpRebalanceAvlTreeNode h a)" and "stop \<equiv> snd (RtlpRebalanceAvlTreeNode h a)"
  shows "rebalanced h s (Node l a (Node x n y)) c h' stop a" "stop \<longleftrightarrow> Balance (h n) = 0"
proof -
  have n: "RightChild (h a) = n" by (rule tree_child(1) [OF h(1)])
  note d = apart_neq(1) [OF h(2)]
  note p = promote_right_child [OF h]
  have e: "h' = (if Balance (h n) = 1 then RtlSetBalance (RtlSetBalance (RtlPromoteAvlTreeNode h n) n 0) a 0
      else RtlSetBalance (RtlPromoteAvlTreeNode h n) n (-1))" and stop: "stop \<longleftrightarrow> Balance (h n) \<noteq> 1"
    unfolding h'_def stop_def using b B n by (simp_all add: RtlpRebalanceAvlTreeNode_def Let_def)
  show "stop \<longleftrightarrow> Balance (h n) = 0" using stop avl(1) b by auto
  have "holds_tree h' (Some s) (Node (Node l a x) n y) c" "apart h' (Some s) (Node (Node l a x) n y) c"
    using p unfolding e by auto
  moreover have "avl h' (Node (Node l a x) n y)"
    using avl b B d H unfolding e by (auto simp: link_simps)
  moreover have "height (Node (Node l a x) n y) = (if stop then height l + 3 else height l + 2)"
    using avl(1) b H unfolding stop by auto
  ultimately show "rebalanced h s (Node l a (Node x n y)) c h' stop a"
    using H tree_parent(2) [of h'] unfolding rebalanced_def
    by (intro exI [of _ "Node l a x"] exI [of _ n] exI [of _ y]) (auto simp: e link_simps)
qed

lemma rebalance_right_double:
  assumes h: "holds_tree h (Some s) (Node l a (Node (Node x m y) n z)) c" "apart h (Some s) (Node l a (Node (Node x m y) n z)) c"
    and avl: "avl h (Node (Node x m y) n z)" "avl h l" and B: "Balance (h a) = 1"
    and H: "height (Node (Node x m y) n z) = height l + 2" and b: "Balance (h n) = -1"
  defines "h' \<equiv> fst (RtlpRebalanceAvlTreeNode h a)" and "stop \<equiv> snd (RtlpRebalanceAvlTreeNode h a)"
  shows "rebalanced h s (Node l a (Node (Node x m y) n z)) c h' stop a" "\<not> stop"
proof -
  have n: "RightChild (h a) = n" by (rule tree_child(1) [OF h(1)])
  have m: "LeftChild (h n) = m" using h(1) by (auto simp: holds_tree_def)
  note d = apart_neq(1) [OF h(2)]
  have q: "holds_tree (RtlPromoteAvlTreeNode h m) (Some s) (Node l a (Node x m (Node y n z))) c"
    "apart (RtlPromoteAvlTreeNode h m) (Some s) (Node l a (Node x m (Node y n z))) c"
    using promote_left_child [of h s x m y n z "InRight l a # c"] h by (simp_all add: holds_tree_up apart_up)
  let ?t = "Node (Node l a x) m (Node y n z)"
  have e: "h' = RtlSetBalance (RtlSetBalance (RtlSetBalance (RtlPromoteAvlTreeNode (RtlPromoteAvlTreeNode h m) m)
        n (if Balance (h m) = -1 then 1 else 0)) a (if Balance (h m) = 1 then -1 else 0)) m 0" and stop: "\<not> stop"
    unfolding h'_def stop_def using b B n m by (simp_all add: RtlpRebalanceAvlTreeNode_def Let_def link_simps)
  show "\<not> stop" by (rule stop)
  have "holds_tree h' (Some s) ?t c" "apart h' (Some s) ?t c"
    using promote_right_child [OF q] unfolding e by auto
  moreover have "avl h' ?t" using avl b B d H unfolding e by (auto simp: link_simps)
  moreover have "height ?t = height l + 2" using avl(1) b H by auto
  ultimately show "rebalanced h s (Node l a (Node (Node x m y) n z)) c h' stop a"
    using H tree_parent(2) [of h'] stop unfolding rebalanced_def
    by (intro exI [of _ "Node l a x"] exI [of _ m] exI [of _ "Node y n z"]) (auto simp: e link_simps)
qed

lemma rebalance_right:
  assumes h: "holds_tree h (Some s) (Node l a r) c" "apart h (Some s) (Node l a r) c"
    and avl: "avl h l" "avl h r" and B: "Balance (h a) = 1" and H: "height r = height l + 2"
  shows "rebalanced h s (Node l a r) c (fst (RtlpRebalanceAvlTreeNode h a)) (snd (RtlpRebalanceAvlTreeNode h a)) a"
    "snd (RtlpRebalanceAvlTreeNode h a) \<longleftrightarrow> Balance (h (RightChild (h a))) = 0"
proof -
  obtain x n y where r: "r = Node x n y" using H by (cases r) auto
  have n: "RightChild (h a) = n" using h(1) r tree_child(1) by blast
  have "rebalanced h s (Node l a r) c (fst (RtlpRebalanceAvlTreeNode h a)) (snd (RtlpRebalanceAvlTreeNode h a)) a \<and>
    (snd (RtlpRebalanceAvlTreeNode h a) \<longleftrightarrow> Balance (h n) = 0)"
  proof (cases "Balance (h n) = -1")
    case True
    then obtain y1 m y2 where y: "x = Node y1 m y2" using avl r by (cases x) auto
    show ?thesis
      using rebalance_right_double [OF h [unfolded r y] avl(2,1) [unfolded r y] B H [unfolded r y] True] True r y by simp
  next
    case False
    show ?thesis using rebalance_right_single [OF h [unfolded r] avl(2,1) [unfolded r] B H [unfolded r] False] r by simp
  qed
  then show "rebalanced h s (Node l a r) c (fst (RtlpRebalanceAvlTreeNode h a)) (snd (RtlpRebalanceAvlTreeNode h a)) a"
    "snd (RtlpRebalanceAvlTreeNode h a) \<longleftrightarrow> Balance (h (RightChild (h a))) = 0" using n by auto
qed

section \<open>Insertion\<close>

text \<open>The table holds the tree: linked below \<open>BalancedRoot\<close>, balanced, and as deep as recorded.\<close>

definition avl_tree :: "'b RTL_AVL_TABLE \<Rightarrow> avl_links \<Rightarrow> nat tree \<Rightarrow> bool" where
  "avl_tree Table h t \<longleftrightarrow> holds_tree h (Some (BalancedRoot Table)) t [] \<and> apart h (Some (BalancedRoot Table)) t [] \<and>
     avl h t \<and> DepthOfTree Table = of_nat (height t)"

lemma avl_tree_plug:
  assumes "holds_tree h (Some (BalancedRoot Table)) t c" "apart h (Some (BalancedRoot Table)) t c"
    and "avl h t" "avl_frames h c (height t)" "DepthOfTree Table = of_nat (frames_height c (height t))"
  shows "avl_tree Table h (plug t c)"
  using assms unfolding avl_tree_def
  by (simp add: avl_plug height_plug flip: holds_tree_plug apart_plug)

text \<open>The tree after a change: another depth at most, and the given nodes in order.\<close>

definition avl_result :: "'b RTL_AVL_TABLE \<Rightarrow> ('b RTL_AVL_TABLE \<times> avl_links) option \<Rightarrow> nat list \<Rightarrow> bool" where
  "avl_result Table res ns \<longleftrightarrow> (\<exists>Table' h' t'. res = Some (Table', h') \<and> avl_tree Table' h' t' \<and> inorder t' = ns \<and>
     Table' = Table\<lparr>DepthOfTree := DepthOfTree Table'\<rparr>)"

lemma avl_resultI:
  assumes "res = Some (Table', h')" "avl_tree Table' h' t'" "inorder t' = ns" "Table' = Table\<lparr>DepthOfTree := d\<rparr>"
  shows "avl_result Table res ns"
  using assms unfolding avl_result_def by auto

lemma frame_nodes_notin:
  "apart h rt t (InLeft a q # c) \<Longrightarrow> a \<notin> frame_nodes c \<and> a \<notin> set_tree t \<and> a \<notin> set_tree q \<and> Some a \<noteq> rt"
  "apart h rt t (InRight q a # c) \<Longrightarrow> a \<notin> frame_nodes c \<and> a \<notin> set_tree t \<and> a \<notin> set_tree q \<and> Some a \<noteq> rt"
  unfolding apart_def set_frames [symmetric] by auto

lemma avl_result_rebalanced:
  assumes "rebalanced h s t c h' False a" "apart h (Some s) t c" "avl_frames h c k" "Suc k = height t"
    and "s = BalancedRoot Table" "DepthOfTree Table = of_nat (frames_height c k)"
  shows "avl_result Table (Some (Table, h')) (inorder (plug t c))"
proof -
  from assms(1) obtain l n r where r: "holds_tree h' (Some s) (Node l n r) c" "apart h' (Some s) (Node l n r) c"
    "inorder (Node l n r) = inorder t" "avl h' (Node l n r)" "\<forall>x. x \<notin> set_tree t \<longrightarrow> Balance (h' x) = Balance (h x)"
    "height (Node l n r) = k"
    unfolding rebalanced_def using assms(4) by auto
  have "avl_frames h' c k"
    using assms(3) r(5) apart_neq(3) [OF assms(2)] avl_frames_cong [of c h' h] by blast
  then have "avl_tree Table h' (plug (Node l n r) c)"
    using r assms(5,6) by (intro avl_tree_plug) (simp_all only:)
  then show ?thesis
    by (rule avl_resultI [OF refl, where d = "DepthOfTree Table"]) (use r(3) in \<open>simp_all add: inorder_plug\<close>)
qed

text \<open>The subtree of \<open>n\<close> has become one deeper than its context is balanced for.\<close>

definition insert_inv ::
  "'b RTL_AVL_TABLE \<Rightarrow> avl_links \<Rightarrow> nat tree \<Rightarrow> nat \<Rightarrow> nat tree \<Rightarrow> frame list \<Rightarrow> nat \<Rightarrow> bool" where
  "insert_inv Table h l n r c k \<longleftrightarrow> holds_tree h (Some (BalancedRoot Table)) (Node l n r) c \<and>
     apart h (Some (BalancedRoot Table)) (Node l n r) c \<and> avl h (Node l n r) \<and> height (Node l n r) = Suc k \<and>
     avl_frames h c k \<and> (Balance (h n) = 0 \<longrightarrow> k = 0) \<and> Balance (h (BalancedRoot Table)) = -1 \<and>
     DepthOfTree Table = of_nat (frames_height c k)"

lemma insert_root:
  assumes "insert_inv Table h l n r [] k"
  shows "avl_result Table (RtlpInsertAvlTreeNode_loop Table h n (Parent (h n))) (inorder (Node l n r))"
proof -
  let ?s = "BalancedRoot Table"
  have p: "Parent (h n) = ?s" "LeftChild (h ?s) = 0" "n \<noteq> 0" "?s \<noteq> n" "?s \<notin> set_tree (Node l n r)"
    using assms by (auto simp: insert_inv_def holds_tree_def apart_def)
  with assms have "RtlpInsertAvlTreeNode_loop Table h n (Parent (h n)) =
      Some (Table\<lparr>DepthOfTree := DepthOfTree Table + 1\<rparr>, RtlSetBalance h ?s 0)"
    by (simp add: insert_inv_def RtlpInsertAvlTreeNode_loop.simps RtlIsLeftChild_def link_simps)
  moreover have "avl_tree (Table\<lparr>DepthOfTree := DepthOfTree Table + 1\<rparr>) (RtlSetBalance h ?s 0) (Node l n r)"
    using assms p(5) unfolding avl_tree_def insert_inv_def by (auto simp: link_simps)
  ultimately show ?thesis by (rule avl_resultI) simp_all
qed

lemma insert_left:
  assumes "insert_inv Table h l n r (InLeft a q # c) k"
  shows "(\<exists>h'. RtlpInsertAvlTreeNode_loop Table h n (Parent (h n)) = RtlpInsertAvlTreeNode_loop Table h' a (Parent (h' a)) \<and>
      insert_inv Table h' (Node l n r) a q c (Suc k)) \<or>
    avl_result Table (RtlpInsertAvlTreeNode_loop Table h n (Parent (h n))) (inorder (plug (Node (Node l n r) a q) c))"
proof -
  let ?t = "Node (Node l n r) a q" and ?loop = "RtlpInsertAvlTreeNode_loop Table"
  note inv = assms [unfolded insert_inv_def holds_tree_up apart_up]
  have p: "Parent (h n) = a" "LeftChild (h a) = n" "RtlIsLeftChild h n"
    using inv by (auto simp: holds_tree_def RtlIsLeftChild_def)
  have a: "a \<notin> frame_nodes c" "a \<notin> set_tree (Node l n r)" "a \<notin> set_tree q" "a \<noteq> BalancedRoot Table"
    using frame_nodes_notin(1) assms unfolding insert_inv_def by blast+
  have b: "Balance (h a) = int (height q) - int k" "avl h q" "\<bar>Balance (h a)\<bar> \<le> 1"
    "avl_frames h c (Suc (max k (height q)))" using inv by auto
  consider "Balance (h a) = 0" | "Balance (h a) = 1" | "Balance (h a) = -1" using b(3) by linarith
  then show ?thesis
  proof cases
    case 1
    let ?h = "RtlSetBalance h a (-1)"
    have "?loop h n (Parent (h n)) = ?loop ?h a (Parent (?h a))"
      using 1 p by (subst RtlpInsertAvlTreeNode_loop.simps) (simp add: Let_def)
    moreover have "insert_inv Table ?h (Node l n r) a q c (Suc k)"
      using inv a b 1 unfolding insert_inv_def by (auto simp: link_simps)
    ultimately show ?thesis by blast
  next
    case 2
    let ?h = "RtlSetBalance h a 0"
    have "?loop h n (Parent (h n)) = Some (Table, ?h)"
      using 2 p inv a by (subst RtlpInsertAvlTreeNode_loop.simps) (auto simp: link_simps)
    moreover have "height ?t = Suc (max k (height q))" using inv b 2 by auto
    then have "avl_tree Table ?h (plug ?t c)"
      using inv a b 2 by (intro avl_tree_plug) (auto simp: link_simps simp del: height_tree.simps)
    ultimately show ?thesis by (intro disjI2 avl_resultI [where d = "DepthOfTree Table"]) simp_all
  next
    case 3
    have "height (Node l n r) = height q + 2" using inv b 3 by linarith
    then have r: "rebalanced h (BalancedRoot Table) ?t c (fst (RtlpRebalanceAvlTreeNode h a)) False a"
      using rebalance_left [of h "BalancedRoot Table" "Node l n r" a q c] inv b 3 p(2) by auto
    have "?loop h n (Parent (h n)) = Some (Table, fst (RtlpRebalanceAvlTreeNode h a))"
      using 3 p by (subst RtlpInsertAvlTreeNode_loop.simps) simp
    moreover have "max k (height q) = k" "height ?t = Suc (Suc k)" using inv b 3 by auto
    then have "avl_result Table (Some (Table, fst (RtlpRebalanceAvlTreeNode h a))) (inorder (plug ?t c))"
      using inv b by (intro avl_result_rebalanced [OF r, of "Suc k"]) simp_all
    ultimately show ?thesis by simp
  qed
qed

lemma insert_right:
  assumes "insert_inv Table h l n r (InRight q a # c) k"
  shows "(\<exists>h'. RtlpInsertAvlTreeNode_loop Table h n (Parent (h n)) = RtlpInsertAvlTreeNode_loop Table h' a (Parent (h' a)) \<and>
      insert_inv Table h' q a (Node l n r) c (Suc k)) \<or>
    avl_result Table (RtlpInsertAvlTreeNode_loop Table h n (Parent (h n))) (inorder (plug (Node q a (Node l n r)) c))"
proof -
  let ?t = "Node q a (Node l n r)" and ?loop = "RtlpInsertAvlTreeNode_loop Table"
  note inv = assms [unfolded insert_inv_def holds_tree_up apart_up]
  have p: "Parent (h n) = a" "RightChild (h a) = n" "\<not> RtlIsLeftChild h n"
    using inv by (auto simp: holds_tree_def RtlIsLeftChild_def apart_def dest: child_neq)
  have a: "a \<notin> frame_nodes c" "a \<notin> set_tree (Node l n r)" "a \<notin> set_tree q" "a \<noteq> BalancedRoot Table"
    using frame_nodes_notin(2) assms unfolding insert_inv_def by blast+
  have b: "Balance (h a) = int k - int (height q)" "avl h q" "\<bar>Balance (h a)\<bar> \<le> 1"
    "avl_frames h c (Suc (max (height q) k))" using inv by auto
  consider "Balance (h a) = 0" | "Balance (h a) = -1" | "Balance (h a) = 1" using b(3) by linarith
  then show ?thesis
  proof cases
    case 1
    let ?h = "RtlSetBalance h a 1"
    have "?loop h n (Parent (h n)) = ?loop ?h a (Parent (?h a))"
      using 1 p by (subst RtlpInsertAvlTreeNode_loop.simps) (simp add: Let_def)
    moreover have "insert_inv Table ?h q a (Node l n r) c (Suc k)"
      using inv a b 1 unfolding insert_inv_def by (auto simp: link_simps)
    ultimately show ?thesis by blast
  next
    case 2
    let ?h = "RtlSetBalance h a 0"
    have "?loop h n (Parent (h n)) = Some (Table, ?h)"
      using 2 p inv a by (subst RtlpInsertAvlTreeNode_loop.simps) (auto simp: link_simps)
    moreover have "height ?t = Suc (max (height q) k)" using inv b 2 by auto
    then have "avl_tree Table ?h (plug ?t c)"
      using inv a b 2 by (intro avl_tree_plug) (auto simp: link_simps simp del: height_tree.simps)
    ultimately show ?thesis by (intro disjI2 avl_resultI [where d = "DepthOfTree Table"]) simp_all
  next
    case 3
    have "height (Node l n r) = height q + 2" using inv b 3 by linarith
    then have r: "rebalanced h (BalancedRoot Table) ?t c (fst (RtlpRebalanceAvlTreeNode h a)) False a"
      using rebalance_right [of h "BalancedRoot Table" q a "Node l n r" c] inv b 3 p(2) by auto
    have "?loop h n (Parent (h n)) = Some (Table, fst (RtlpRebalanceAvlTreeNode h a))"
      using 3 p by (subst RtlpInsertAvlTreeNode_loop.simps) simp
    moreover have "max (height q) k = k" "height ?t = Suc (Suc k)" using inv b 3 by auto
    then have "avl_result Table (Some (Table, fst (RtlpRebalanceAvlTreeNode h a))) (inorder (plug ?t c))"
      using inv b by (intro avl_result_rebalanced [OF r, of "Suc k"]) simp_all
    ultimately show ?thesis by simp
  qed
qed

lemma insert_loop:
  "insert_inv Table h l n r c k \<Longrightarrow>
    avl_result Table (RtlpInsertAvlTreeNode_loop Table h n (Parent (h n))) (inorder (plug (Node l n r) c))"
proof (induction c arbitrary: h l n r k rule: frame_nodes.induct)
  case 1
  then show ?case using insert_root by simp
next
  case (2 a q c)
  then show ?case using insert_left [OF "2.prems"] "2.IH" by fastforce
next
  case (3 q a c)
  then show ?case using insert_right [OF "3.prems"] "3.IH" by fastforce
qed

lemma attach_inv:
  assumes "holds_tree h (Some (BalancedRoot Table)) (Node Leaf n Leaf) c" "apart h (Some (BalancedRoot Table)) (Node Leaf n Leaf) c"
    and "avl h\<^sub>0 (plug Leaf c)" "\<And>x. x \<noteq> BalancedRoot Table \<Longrightarrow> Balance (h x) = Balance (h\<^sub>0 x)" "Balance (h\<^sub>0 n) = 0"
    and "DepthOfTree Table = of_nat (height (plug Leaf c))" "Balance (h (BalancedRoot Table)) = -1"
  shows "insert_inv Table h Leaf n Leaf c 0"
proof -
  have "BalancedRoot Table \<notin> frame_nodes c" "n \<noteq> BalancedRoot Table" using apart_neq(4) [OF assms(2)] by auto
  moreover from this have "avl_frames h c 0 = avl_frames h\<^sub>0 c 0"
    using assms(4) by (intro avl_frames_cong) metis
  ultimately have "avl_frames h c 0" "Balance (h n) = 0" using assms(3-5) by (auto simp: avl_plug)
  then show ?thesis using assms unfolding insert_inv_def by (simp add: height_plug)
qed

text \<open>A fresh node: an address that is neither \<open>NULL\<close> nor in the tree.\<close>

definition fresh_node :: "'b RTL_AVL_TABLE \<Rightarrow> nat tree \<Rightarrow> nat \<Rightarrow> bool" where
  "fresh_node Table t n \<longleftrightarrow> n \<noteq> 0 \<and> n \<notin> set_tree t \<and> n \<noteq> BalancedRoot Table"

abbreviation counted :: "'b RTL_AVL_TABLE \<Rightarrow> 'b RTL_AVL_TABLE" where
  "counted Table \<equiv> Table\<lparr>NumberGenericTableElements := NumberGenericTableElements Table + 1\<rparr>"

lemma avl_tree_counted [simp]:
  "avl_tree (Table\<lparr>NumberGenericTableElements := k\<rparr>) h t \<longleftrightarrow> avl_tree Table h t"
  by (simp add: avl_tree_def)

lemma set_tree_plug: "set_tree (plug t c) = set_tree t \<union> frame_nodes c"
  by (induction t c rule: plug.induct) auto

lemma insert_node_left:
  assumes "avl_tree Table h t" "fresh_node Table t n" "Balance (h n) = 0" "t = plug Leaf (InLeft q r # c)"
  shows "avl_result (counted Table) (RtlpInsertAvlTreeNode Table h n q TableInsertAsLeft)
    (before (InLeft q r # c) @ n # after (InLeft q r # c))"
proof -
  let ?s = "BalancedRoot Table" and ?c = "InLeft q r # c"
  let ?h = "RtlSetBalance (RtlInsertAsLeftChild (set_LeftChild (set_RightChild h n 0) n 0) q n) ?s (-1)"
  have t: "holds_tree h (Some ?s) Leaf ?c" "apart h (Some ?s) Leaf ?c"
    using assms(1,4) holds_tree_plug [of h _ Leaf ?c] apart_plug [of h _ Leaf ?c] by (simp_all add: avl_tree_def)
  have f: "n \<noteq> 0" "n \<notin> frame_nodes ?c" "Some ?s \<noteq> Some n" "n \<noteq> q"
    using assms(2,4) by (auto simp: fresh_node_def set_tree_plug)
  have "holds_tree ?h (Some ?s) (Node Leaf n Leaf) ?c \<and> apart ?h (Some ?s) (Node Leaf n Leaf) ?c"
    by (rule attach_left [OF t f(1-3)])
      (use f(4) in \<open>simp_all add: RtlInsertAsLeftChild_def same_links_def link_simps\<close>)
  then have i: "insert_inv (counted Table) ?h Leaf n Leaf ?c 0"
    by (intro attach_inv [where h\<^sub>0 = h])
      (use assms in \<open>simp_all add: avl_tree_def RtlInsertAsLeftChild_def link_simps\<close>)
  have "Parent (?h n) = q" by (simp add: RtlInsertAsLeftChild_def link_simps)
  then show ?thesis using insert_loop [OF i]
    by (simp add: RtlpInsertAvlTreeNode_def Let_def inorder_plug)
qed

lemma insert_node_right:
  assumes "avl_tree Table h t" "fresh_node Table t n" "Balance (h n) = 0" "t = plug Leaf (InRight l q # c)"
  shows "avl_result (counted Table) (RtlpInsertAvlTreeNode Table h n q TableInsertAsRight)
    (before (InRight l q # c) @ n # after (InRight l q # c))"
proof -
  let ?s = "BalancedRoot Table" and ?c = "InRight l q # c"
  let ?h = "RtlSetBalance (RtlInsertAsRightChild (set_LeftChild (set_RightChild h n 0) n 0) q n) ?s (-1)"
  have t: "holds_tree h (Some ?s) Leaf ?c" "apart h (Some ?s) Leaf ?c"
    using assms(1,4) holds_tree_plug [of h _ Leaf ?c] apart_plug [of h _ Leaf ?c] by (simp_all add: avl_tree_def)
  have f: "n \<noteq> 0" "n \<notin> frame_nodes ?c" "Some ?s \<noteq> Some n" "n \<noteq> q"
    using assms(2,4) by (auto simp: fresh_node_def set_tree_plug)
  have "holds_tree ?h (Some ?s) (Node Leaf n Leaf) ?c \<and> apart ?h (Some ?s) (Node Leaf n Leaf) ?c"
    by (rule attach_right [OF t f(1-3)])
      (use f(4) in \<open>simp_all add: RtlInsertAsRightChild_def same_links_def link_simps\<close>)
  then have i: "insert_inv (counted Table) ?h Leaf n Leaf ?c 0"
    by (intro attach_inv [where h\<^sub>0 = h])
      (use assms in \<open>simp_all add: avl_tree_def RtlInsertAsRightChild_def link_simps\<close>)
  have "Parent (?h n) = q" by (simp add: RtlInsertAsRightChild_def link_simps)
  then show ?thesis using insert_loop [OF i]
    by (simp add: RtlpInsertAvlTreeNode_def Let_def inorder_plug)
qed

lemma insert_node_empty:
  assumes "avl_tree Table h Leaf" "fresh_node Table Leaf n" "Balance (h n) = 0"
  shows "avl_result (counted Table) (RtlpInsertAvlTreeNode Table h n q TableEmptyTree) [n]"
proof -
  let ?h = "RtlInsertAsRightChild (set_LeftChild (set_RightChild h n 0) n 0) (BalancedRoot Table) n"
  have "avl_tree ((counted Table)\<lparr>DepthOfTree := 1\<rparr>) ?h (Node Leaf n Leaf)"
    using assms by (auto simp: avl_tree_def holds_tree_def apart_def fresh_node_def RtlInsertAsRightChild_def link_simps)
  then show ?thesis
    by (rule avl_resultI [rotated, where d = 1]) (simp_all add: RtlpInsertAvlTreeNode_def Let_def)
qed

section \<open>Deletion\<close>

text \<open>The balance factor of a node that is heavier on the side the context goes up from.\<close>

fun side :: "frame list \<Rightarrow> int" where
  "side (InLeft a r # c) = -1"
| "side c = 1"

lemma side_right:
  assumes "holds_tree h (Some s) (Node l n r) c" "apart h (Some s) (Node l n r) c"
  shows "(if RtlIsRightChild h n then 1 else -1) = side c"
  using assms
  by (cases c rule: frame_nodes.cases) (auto simp: RtlIsRightChild_def holds_tree_def apart_def dest: child_neq)

lemma side_left:
  assumes "tree_at h par n (Node l n r)" "frames_at h (Some s) n par c" "apart h (Some s) (Node l n r) c"
  shows "(if RtlIsLeftChild h n then -1 else 1) = side c"
  using assms
  by (cases c rule: frame_nodes.cases) (auto simp: RtlIsLeftChild_def apart_def dest: child_neq)

text \<open>The subtree has become one less deep than its context is balanced for.\<close>

definition delete_inv ::
  "'b RTL_AVL_TABLE \<Rightarrow> avl_links \<Rightarrow> nat tree \<Rightarrow> frame list \<Rightarrow> nat \<Rightarrow> bool" where
  "delete_inv Table h t c par \<longleftrightarrow>
     (\<exists>p. tree_at h par p t \<and> frames_at h (Some (BalancedRoot Table)) p par c) \<and>
     apart h (Some (BalancedRoot Table)) t c \<and> avl h t \<and> avl_frames h c (Suc (height t)) \<and>
     Balance (h (BalancedRoot Table)) = 0 \<and> DepthOfTree Table = of_nat (frames_height c (Suc (height t)))"

lemma delete_inv_Node:
  "delete_inv Table h (Node l n r) c (Parent (h n)) \<longleftrightarrow>
     holds_tree h (Some (BalancedRoot Table)) (Node l n r) c \<and>
     apart h (Some (BalancedRoot Table)) (Node l n r) c \<and> avl h (Node l n r) \<and> avl_frames h c (Suc (height (Node l n r))) \<and>
     Balance (h (BalancedRoot Table)) = 0 \<and> DepthOfTree Table = of_nat (frames_height c (Suc (height (Node l n r))))"
  unfolding delete_inv_def holds_tree_def by auto

text \<open>One turn of the loop: it goes on one level higher, or it ends with the tree in order.\<close>

definition delete_turn :: "'b RTL_AVL_TABLE \<Rightarrow> avl_links \<Rightarrow> nat tree \<Rightarrow> frame list \<Rightarrow> nat \<Rightarrow> int \<Rightarrow> bool" where
  "delete_turn Table h t c par b \<longleftrightarrow>
     (\<exists>h' l n r. RtlpDeleteAvlTreeNode_loop Table h par b = RtlpDeleteAvlTreeNode_loop Table h' (Parent (h' n)) (side c) \<and>
       delete_inv Table h' (Node l n r) c (Parent (h' n)) \<and> inorder (Node l n r) = inorder t) \<or>
     avl_result Table (RtlpDeleteAvlTreeNode_loop Table h par b) (inorder (plug t c))"

lemma delete_turn_up:
  assumes "RtlpDeleteAvlTreeNode_step Table h par b = Inr (h', n)"
    and "delete_inv Table h' (Node l n r) c (Parent (h' n))" "inorder (Node l n r) = inorder t"
  shows "delete_turn Table h t c par b"
proof -
  have "(if RtlIsRightChild h' n then 1 else -1) = side c"
    using assms(2) side_right unfolding delete_inv_Node by blast
  then have "RtlpDeleteAvlTreeNode_loop Table h par b = RtlpDeleteAvlTreeNode_loop Table h' (Parent (h' n)) (side c)"
    using assms(1) by (subst RtlpDeleteAvlTreeNode_loop.simps) simp
  then show ?thesis using assms unfolding delete_turn_def by blast
qed

lemma delete_turn_end:
  assumes "RtlpDeleteAvlTreeNode_step Table h par b = Inl res" "avl_result Table (Some res) (inorder (plug t c))"
  shows "delete_turn Table h t c par b"
  using assms unfolding delete_turn_def by (subst (2) RtlpDeleteAvlTreeNode_loop.simps) simp

lemma delete_turn_rebalance:
  assumes "rebalanced h s t c h' stop a" "RtlpDeleteAvlTreeNode_step Table h a b = (if stop then Inl (Table, h') else Inr (h', Parent (h' a)))"
    and "s = BalancedRoot Table" "apart h (Some s) t c" "avl_frames h c (height t)"
    and "Balance (h s) = 0" "DepthOfTree Table = of_nat (frames_height c (height t))"
  shows "delete_turn Table h t c a b"
proof -
  from assms(1) obtain l n r where r: "holds_tree h' (Some s) (Node l n r) c" "apart h' (Some s) (Node l n r) c"
    "inorder (Node l n r) = inorder t" "avl h' (Node l n r)" "\<forall>x. x \<notin> set_tree t \<longrightarrow> Balance (h' x) = Balance (h x)"
    "if stop then height (Node l n r) = height t else Suc (height (Node l n r)) = height t \<and> Parent (h' a) = n"
    unfolding rebalanced_def by blast
  have c: "avl_frames h' c (height t)" "Balance (h' s) = 0"
    using assms(5,6) r(5) apart_neq(3,4) [OF assms(4)] avl_frames_cong [of c h' h "height t"] by auto
  show ?thesis
  proof (cases stop)
    case True
    have "avl_tree Table h' (plug (Node l n r) c)"
      using r c True assms(3,7) by (intro avl_tree_plug) (simp_all only: if_True)
    then have "avl_result Table (Some (Table, h')) (inorder (plug t c))"
      by (rule avl_resultI [OF refl, where d = "DepthOfTree Table"]) (use r(3) in \<open>simp_all add: inorder_plug\<close>)
    then show ?thesis using True assms(2) delete_turn_end by auto
  next
    case False
    then have i: "delete_inv Table h' (Node l n r) c (Parent (h' n))"
      using r c assms(3,7) unfolding delete_inv_Node by (simp only: if_False)
    show ?thesis by (rule delete_turn_up [OF _ i r(3)]) (use False assms(2) r(6) in simp)
  qed
qed

lemma delete_left:
  assumes "delete_inv Table h t (InLeft a q # c) par"
  shows "delete_turn Table h (Node t a q) c par (-1)"
proof -
  let ?s = "BalancedRoot Table" and ?k = "Suc (height t)"
  have par: "par = a" using assms by (auto simp: delete_inv_def)
  have inv: "holds_tree h (Some ?s) (Node t a q) c" "apart h (Some ?s) (Node t a q) c" "avl h t"
      "Balance (h ?s) = 0" "DepthOfTree Table = of_nat (frames_height c (Suc (max ?k (height q))))"
    and b: "Balance (h a) = int (height q) - int ?k" "avl h q" "\<bar>Balance (h a)\<bar> \<le> 1"
      "avl_frames h c (Suc (max ?k (height q)))"
    using assms unfolding delete_inv_def by (auto simp: holds_tree_def simp flip: apart_up(1))
  have a: "a \<notin> frame_nodes c" "a \<notin> set_tree t" "a \<notin> set_tree q" "a \<noteq> ?s"
    using frame_nodes_notin(1) assms unfolding delete_inv_def by blast+
  consider "Balance (h a) = -1" | "Balance (h a) = 0" | "Balance (h a) = 1" using b(3) by linarith
  then show ?thesis
  proof cases
    case 1
    let ?h = "RtlSetBalance h a 0"
    have "height q = height t" using b(1) 1 by simp
    then have "delete_inv Table ?h (Node t a q) c (Parent (?h a))"
      using inv a b 1 unfolding delete_inv_Node by (auto simp: link_simps)
    moreover have "RtlpDeleteAvlTreeNode_step Table h a (-1) = Inr (?h, a)"
      using 1 by (simp add: RtlpDeleteAvlTreeNode_step_def)
    ultimately show ?thesis using par delete_turn_up by blast
  next
    case 2
    let ?h = "RtlSetBalance h a 1"
    have "height q = ?k" using b(1) 2 by simp
    then have "avl_tree Table ?h (plug (Node t a q) c)"
      using inv a b(2-4) by (intro avl_tree_plug) (auto simp: link_simps)
    then have "avl_result Table (Some (Table, ?h)) (inorder (plug (Node t a q) c))"
      by (rule avl_resultI [OF refl, where d = "DepthOfTree Table"]) simp_all
    moreover have "RtlpDeleteAvlTreeNode_step Table h a (-1) = Inl (Table, ?h)"
      using 2 inv(4) a(4) by (simp add: RtlpDeleteAvlTreeNode_step_def link_simps)
    ultimately show ?thesis using par delete_turn_end by blast
  next
    case 3
    have H: "height q = height t + 2" using b(1) 3 by simp
    note r = rebalance_right(1) [OF inv(1-3) b(2) 3 H]
    show ?thesis unfolding par
      by (rule delete_turn_rebalance [OF r])
        (use 3 inv b H in \<open>auto simp: RtlpDeleteAvlTreeNode_step_def split: prod.split\<close>)
  qed
qed

lemma delete_right:
  assumes "delete_inv Table h t (InRight q a # c) par"
  shows "delete_turn Table h (Node q a t) c par 1"
proof -
  let ?s = "BalancedRoot Table" and ?k = "Suc (height t)"
  have par: "par = a" using assms by (auto simp: delete_inv_def)
  have inv: "holds_tree h (Some ?s) (Node q a t) c" "apart h (Some ?s) (Node q a t) c" "avl h t"
      "Balance (h ?s) = 0" "DepthOfTree Table = of_nat (frames_height c (Suc (max (height q) ?k)))"
    and b: "Balance (h a) = int ?k - int (height q)" "avl h q" "\<bar>Balance (h a)\<bar> \<le> 1"
      "avl_frames h c (Suc (max (height q) ?k))"
    using assms unfolding delete_inv_def by (auto simp: holds_tree_def simp flip: apart_up(2))
  have a: "a \<notin> frame_nodes c" "a \<notin> set_tree t" "a \<notin> set_tree q" "a \<noteq> ?s"
    using frame_nodes_notin(2) assms unfolding delete_inv_def by blast+
  consider "Balance (h a) = 1" | "Balance (h a) = 0" | "Balance (h a) = -1" using b(3) by linarith
  then show ?thesis
  proof cases
    case 1
    let ?h = "RtlSetBalance h a 0"
    have "height q = height t" using b(1) 1 by simp
    then have "delete_inv Table ?h (Node q a t) c (Parent (?h a))"
      using inv a b 1 unfolding delete_inv_Node by (auto simp: link_simps)
    moreover have "RtlpDeleteAvlTreeNode_step Table h a 1 = Inr (?h, a)"
      using 1 by (simp add: RtlpDeleteAvlTreeNode_step_def)
    ultimately show ?thesis using par delete_turn_up by blast
  next
    case 2
    let ?h = "RtlSetBalance h a (-1)"
    have "height q = ?k" using b(1) 2 by simp
    then have "avl_tree Table ?h (plug (Node q a t) c)"
      using inv a b(2-4) by (intro avl_tree_plug) (auto simp: link_simps)
    then have "avl_result Table (Some (Table, ?h)) (inorder (plug (Node q a t) c))"
      by (rule avl_resultI [OF refl, where d = "DepthOfTree Table"]) simp_all
    moreover have "RtlpDeleteAvlTreeNode_step Table h a 1 = Inl (Table, ?h)"
      using 2 inv(4) a(4) by (simp add: RtlpDeleteAvlTreeNode_step_def link_simps)
    ultimately show ?thesis using par delete_turn_end by blast
  next
    case 3
    have H: "height q = height t + 2" using b(1) 3 by simp
    note r = rebalance_left(1) [OF inv(1,2) b(2) inv(3) 3 H]
    show ?thesis unfolding par
      by (rule delete_turn_rebalance [OF r])
        (use 3 inv b H in \<open>auto simp: RtlpDeleteAvlTreeNode_step_def split: prod.split\<close>)
  qed
qed

lemma delete_root:
  assumes "delete_inv Table h t [] par"
  shows "avl_result Table (RtlpDeleteAvlTreeNode_loop Table h par 1) (inorder t)"
proof -
  let ?s = "BalancedRoot Table" and ?h = "RtlSetBalance h (BalancedRoot Table) (-1)"
  let ?T = "Table\<lparr>DepthOfTree := DepthOfTree Table - 1\<rparr>"
  have p: "par = ?s" "?s \<notin> set_tree t" using assms by (auto simp: delete_inv_def apart_def)
  have "RtlpDeleteAvlTreeNode_loop Table h par 1 = Some (?T, ?h)"
    using assms p by (simp add: delete_inv_def RtlpDeleteAvlTreeNode_loop.simps RtlpDeleteAvlTreeNode_step_def link_simps)
  moreover have "holds_tree h (Some ?s) t []" using assms by (auto simp: delete_inv_def holds_tree_def)
  then have "avl_tree ?T ?h t" using assms p by (simp add: avl_tree_def delete_inv_def)
  ultimately show ?thesis by (rule avl_resultI) simp_all
qed

lemma delete_loop:
  "delete_inv Table h t c par \<Longrightarrow>
    avl_result Table (RtlpDeleteAvlTreeNode_loop Table h par (side c)) (inorder (plug t c))"
proof (induction c arbitrary: h t par rule: frame_nodes.induct)
  case 1
  then show ?case using delete_root by simp
next
  case (2 a q c)
  have *: "plug t (InLeft a q # c) = plug (Node t a q) c" "side (InLeft a q # c) = -1" by simp_all
  from delete_left [OF "2.prems"] show ?case unfolding delete_turn_def *
  proof (elim disjE exE conjE)
    fix h' l n r
    assume "RtlpDeleteAvlTreeNode_loop Table h par (- 1) = RtlpDeleteAvlTreeNode_loop Table h' (Parent (h' n)) (side c)"
      "delete_inv Table h' (Node l n r) c (Parent (h' n))" "inorder (Node l n r) = inorder (Node t a q)"
    then show "avl_result Table (RtlpDeleteAvlTreeNode_loop Table h par (- 1)) (inorder (plug (Node t a q) c))"
      using "2.IH" inorder_plug by metis
  qed
next
  case (3 q a c)
  have *: "plug t (InRight q a # c) = plug (Node q a t) c" "side (InRight q a # c) = 1" by simp_all
  from delete_right [OF "3.prems"] show ?case unfolding delete_turn_def *
  proof (elim disjE exE conjE)
    fix h' l n r
    assume "RtlpDeleteAvlTreeNode_loop Table h par 1 = RtlpDeleteAvlTreeNode_loop Table h' (Parent (h' n)) (side c)"
      "delete_inv Table h' (Node l n r) c (Parent (h' n))" "inorder (Node l n r) = inorder (Node q a t)"
    then show "avl_result Table (RtlpDeleteAvlTreeNode_loop Table h par 1) (inorder (plug (Node q a t) c))"
      using "3.IH" inorder_plug by metis
  qed
qed

lemma unlink_inv:
  assumes "avl_tree Table h (plug (Node l d r) c)" "l = Leaf \<or> r = Leaf"
  shows "delete_inv Table (RtlSetBalance (unlink h d) (BalancedRoot Table) 0) (if l = Leaf then r else l) c (Parent (h d))"
    "(if RtlIsLeftChild h d then -1 else 1) = side c"
proof -
  let ?s = "BalancedRoot Table" and ?u = "if l = Leaf then r else l" and ?h = "unlink h d"
  let ?ch = "if LeftChild (h d) \<noteq> 0 then LeftChild (h d) else RightChild (h d)"
  have a: "apart h (Some ?s) (Node l d r) c" and "holds_tree h (Some ?s) (Node l d r) c"
    and avl: "avl h (Node l d r)" "avl_frames h c (height (Node l d r))"
    and D: "DepthOfTree Table = of_nat (frames_height c (height (Node l d r)))"
    using assms(1) holds_tree_plug [of h _ "Node l d r" c] apart_plug [of h _ "Node l d r" c]
    by (auto simp: avl_tree_def avl_plug height_plug)
  then obtain par where t: "tree_at h par d (Node l d r)" and f: "frames_at h (Some ?s) d par c"
    by (auto simp: holds_tree_def)
  note n = apart_neq [OF a]
  have par: "Parent (h d) = par" "par \<noteq> d" using t frames_par [OF f] n(3,4) by auto
  have u: "tree_at ?h par ?ch ?u" "frames_at ?h (Some ?s) ?ch par c" "apart ?h (Some ?s) ?u c"
    by (rule unlink_node [OF t f a assms(2) refl refl];
      use par in \<open>simp add: unlink_def Let_def RtlIsLeftChild_def link_simps\<close>)+
  have B: "Balance (?h x) = Balance (h x)" for x by (simp add: unlink_def Let_def link_simps)
  have H: "height (Node l d r) = Suc (height ?u)" using assms(2) by auto
  have s: "?s \<notin> frame_nodes c" "?s \<notin> set_tree ?u" using n(4) by auto
  have eq: "tree_at (RtlSetBalance ?h ?s 0) p q v = tree_at ?h p q v"
    "frames_at (RtlSetBalance ?h ?s 0) rt p q e = frames_at ?h rt p q e" for p q v rt e
    by (auto intro!: tree_at_cong frames_at_cong same_links_balance)
  have "avl ?h ?u" "avl_frames ?h c (Suc (height ?u))"
    using avl H B avl_cong [of ?u ?h h] avl_frames_cong [of c ?h h] by auto
  then show "delete_inv Table (RtlSetBalance ?h ?s 0) ?u c (Parent (h d))"
    using u s D H par(1) unfolding delete_inv_def eq by (auto simp: link_simps)
  show "(if RtlIsLeftChild h d then -1 else 1) = side c" by (rule side_left [OF t f a])
qed

lemma take_over_fields:
  assumes "Parent (h n) = par" "par \<noteq> n" "par \<noteq> d" "LeftChild (h n) \<noteq> d" "RightChild (h n) \<noteq> d" "n \<noteq> d"
  shows "Parent (take_over h d n d) = par" "LeftChild (take_over h d n d) = LeftChild (h n)"
    "RightChild (take_over h d n d) = RightChild (h n)" "Balance (take_over h d n d) = Balance (h n)"
    "x \<noteq> d \<Longrightarrow> Parent (take_over h d n x) =
      (if x \<noteq> 0 \<and> (x = LeftChild (h n) \<or> x = RightChild (h n)) then d else Parent (h x))"
    "x \<noteq> d \<Longrightarrow> LeftChild (take_over h d n x) = (if x = par \<and> LeftChild (h par) = n then d else LeftChild (h x))"
    "x \<noteq> d \<Longrightarrow> RightChild (take_over h d n x) = (if x = par \<and> LeftChild (h par) \<noteq> n then d else RightChild (h x))"
    "x \<noteq> d \<Longrightarrow> Balance (take_over h d n x) = Balance (h x)"
proof -
  define g where "g = (if LeftChild (h par) = n then set_LeftChild (h(d := h n)) par d else set_RightChild (h(d := h n)) par d)"
  have g: "LeftChild (g d) = LeftChild (h n)" "RightChild (g d) = RightChild (h n)" "Parent (g d) = par" "Balance (g d) = Balance (h n)"
    "\<And>x. x \<noteq> d \<Longrightarrow> Parent (g x) = Parent (h x)" "\<And>x. x \<noteq> d \<Longrightarrow> Balance (g x) = Balance (h x)"
    "\<And>x. x \<noteq> d \<Longrightarrow> LeftChild (g x) = (if x = par \<and> LeftChild (h par) = n then d else LeftChild (h x))"
    "\<And>x. x \<noteq> d \<Longrightarrow> RightChild (g x) = (if x = par \<and> LeftChild (h par) \<noteq> n then d else RightChild (h x))"
    using assms by (simp_all add: g_def link_simps)
  have "RtlIsLeftChild (RtlpCopyAvlNodeData h d n) n \<longleftrightarrow> LeftChild (h par) = n"
    using assms by (simp add: RtlIsLeftChild_def RtlpCopyAvlNodeData_def)
  then have "take_over h d n = (let k = (if LeftChild (g d) \<noteq> 0 then set_Parent g (LeftChild (g d)) d else g)
      in if RightChild (k d) \<noteq> 0 then set_Parent k (RightChild (k d)) d else k)"
    using assms by (simp add: take_over_def RtlpCopyAvlNodeData_def g_def Let_def)
  then have e: "take_over h d n = (let k = (if LeftChild (h n) \<noteq> 0 then set_Parent g (LeftChild (h n)) d else g)
      in if RightChild (h n) \<noteq> 0 then set_Parent k (RightChild (h n)) d else k)"
    using g(1,2) by (simp add: Let_def link_simps)
  show "x \<noteq> d \<Longrightarrow> Parent (take_over h d n x) =
      (if x \<noteq> 0 \<and> (x = LeftChild (h n) \<or> x = RightChild (h n)) then d else Parent (h x))"
    unfolding e using g(5) by (simp add: Let_def link_simps del: neq0_conv)
  have eq: "LeftChild (take_over h d n x) = LeftChild (g x)" "RightChild (take_over h d n x) = RightChild (g x)"
    "Balance (take_over h d n x) = Balance (g x)" for x
    unfolding e by (simp_all add: Let_def link_simps)
  show "Parent (take_over h d n d) = par" unfolding e using assms g(3) by (simp add: Let_def link_simps)
  show "LeftChild (take_over h d n d) = LeftChild (h n)" "RightChild (take_over h d n d) = RightChild (h n)"
    "Balance (take_over h d n d) = Balance (h n)" by (simp_all add: eq g)
  show "LeftChild (take_over h d n x) = (if x = par \<and> LeftChild (h par) = n then d else LeftChild (h x))"
    "RightChild (take_over h d n x) = (if x = par \<and> LeftChild (h par) \<noteq> n then d else RightChild (h x))"
    "Balance (take_over h d n x) = Balance (h x)" if "x \<noteq> d" using that by (simp_all add: eq g)
qed

lemma take_over_tree:
  assumes "avl_tree Table h t" "inorder t = xs @ n # ys" "fresh_node Table t d"
  shows "\<exists>t'. avl_tree Table (take_over h d n) t' \<and> inorder t' = xs @ d # ys"
proof -
  let ?s = "BalancedRoot Table" and ?h = "take_over h d n"
  from assms(1,2) obtain l r c where t: "plug (Node l n r) c = t" and h: "holds_tree h (Some ?s) (Node l n r) c"
    and a: "apart h (Some ?s) (Node l n r) c" and xy: "xs = before c @ inorder l" "ys = inorder r @ after c"
    unfolding avl_tree_def by (elim conjE) (rule focus_at)
  obtain par where p: "tree_at h par n (Node l n r)" and f: "frames_at h (Some ?s) n par c"
    using h by (auto simp: holds_tree_def)
  note no = apart_neq [OF a]
  have d: "d \<noteq> 0" "d \<notin> set_tree (Node l n r)" "d \<notin> frame_nodes c" "Some ?s \<noteq> Some d"
    using assms(3) unfolding fresh_node_def t [symmetric] set_tree_plug by auto
  have "Parent (h n) = par" "par \<noteq> n" "par \<noteq> d" "LeftChild (h n) \<noteq> d" "RightChild (h n) \<noteq> d" "n \<noteq> d"
    using p frames_par [OF f] no(3,4) d by (auto dest: child_neq)
  note fields = take_over_fields [of h n par d, OF this]
  have 1: "holds_tree ?h (Some ?s) (Node l d r) c" "apart ?h (Some ?s) (Node l d r) c"
    using replace_node [OF p f a d, of ?h par] fields by auto
  have "avl ?h l = avl h l" "avl ?h r = avl h r" "avl_frames ?h c k = avl_frames h c k" for k
    using d(2,3) by (auto intro!: avl_cong avl_frames_cong fields(8))
  then have "avl_tree Table ?h (plug (Node l d r) c)"
    using 1 assms(1) fields(4) by (intro avl_tree_plug) (auto simp: avl_tree_def avl_plug height_plug simp flip: t)
  then show ?thesis using xy by (intro exI [of _ "plug (Node l d r) c"]) (simp add: inorder_plug)
qed

lemma left_most_focus: "t \<noteq> Leaf \<Longrightarrow> \<exists>r c. plug (Node Leaf (hd (inorder t)) r) c = t"
proof (induction t)
  case (Node l a r)
  show ?case
  proof (cases "l = Leaf")
    case True
    then show ?thesis by (intro exI [of _ r] exI [of _ "[]"]) simp
  next
    case False
    then obtain s c where "plug (Node Leaf (hd (inorder l)) s) c = l" using Node.IH by blast
    then show ?thesis using False
      by (intro exI [of _ s] exI [of _ "c @ [InLeft a r]"]) (simp add: plug_append hd_append)
  qed
qed simp

lemma right_most_focus: "t \<noteq> Leaf \<Longrightarrow> \<exists>l c. plug (Node l (last (inorder t)) Leaf) c = t"
proof (induction t)
  case (Node l a r)
  show ?case
  proof (cases "r = Leaf")
    case True
    then show ?thesis by (intro exI [of _ l] exI [of _ "[]"]) simp
  next
    case False
    then obtain s c where "plug (Node s (last (inorder r)) Leaf) c = r" using Node.IH by blast
    then show ?thesis using False
      by (intro exI [of _ s] exI [of _ "c @ [InRight l a]"]) (simp add: plug_append hd_append)
  qed
qed simp

text \<open>The node that leaves its place has an empty side and is the node itself or its neighbour.\<close>

lemma delete_node_neighbour:
  assumes "avl_tree Table h t" "inorder t = xs @ n # ys"
  shows "\<exists>d l r c. delete_node h n = Some d \<and> plug (Node l d r) c = t \<and> (l = Leaf \<or> r = Leaf) \<and>
    (d = n \<or> (\<exists>zs. xs = zs @ [d]) \<or> (\<exists>zs. ys = d # zs))"
proof -
  from assms obtain l r c where t: "plug (Node l n r) c = t" and "holds_tree h (Some (BalancedRoot Table)) (Node l n r) c"
    and xy: "xs = before c @ inorder l" "ys = inorder r @ after c"
    unfolding avl_tree_def by (elim conjE) (rule focus_at)
  then have at: "tree_at h n (LeftChild (h n)) l" "tree_at h n (RightChild (h n)) r" by (auto simp: holds_tree_def)
  then have nil: "LeftChild (h n) = 0 \<longleftrightarrow> l = Leaf" "RightChild (h n) = 0 \<longleftrightarrow> r = Leaf"
    by (cases l; auto) (use at in \<open>cases r; auto\<close>)
  consider "l = Leaf \<or> r = Leaf" | "l \<noteq> Leaf" "r \<noteq> Leaf" "Balance (h n) \<ge> 0" | "l \<noteq> Leaf" "r \<noteq> Leaf" "Balance (h n) < 0"
    by linarith
  then show ?thesis
  proof cases
    case 1
    then show ?thesis using nil t by (auto simp: delete_node_def)
  next
    case 2
    then obtain s e where "plug (Node Leaf (hd (inorder r)) s) e = r" using left_most_focus by blast
    then have "plug (Node Leaf (hd (inorder r)) s) (e @ InRight l n # c) = t" using t by (simp add: plug_append)
    moreover have "delete_node h n = Some (hd (inorder r))"
      using 2 nil left_most_hd [OF at(2)] by (simp add: delete_node_def)
    moreover have "ys = hd (inorder r) # (tl (inorder r) @ after c)" using xy 2 by (cases "inorder r") auto
    ultimately show ?thesis by blast
  next
    case 3
    then obtain s e where "plug (Node s (last (inorder l)) Leaf) e = l" using right_most_focus by blast
    then have "plug (Node s (last (inorder l)) Leaf) (e @ InLeft n r # c) = t" using t by (simp add: plug_append)
    moreover have "delete_node h n = Some (last (inorder l))"
      using 3 nil right_most_last [OF at(1)] by (simp add: delete_node_def)
    moreover have "xs = (before c @ butlast (inorder l)) @ [last (inorder l)]" using xy 3 by simp
    ultimately show ?thesis by blast
  qed
qed

lemma neighbour_lists:
  assumes "xs @ n # ys = as @ d # bs" "distinct (xs @ n # ys)" "(\<exists>zs. xs = zs @ [d]) \<or> (\<exists>zs. ys = d # zs)"
  shows "\<exists>us vs. as @ bs = us @ n # vs \<and> us @ d # vs = xs @ ys"
  using assms(3)
proof (elim disjE exE)
  fix zs assume z: "xs = zs @ [d]"
  then have "as = zs \<and> bs = n # ys" using assms(1,2) by (intro distinct_split [of _ d]) simp_all
  with z show ?thesis by auto
next
  fix zs assume z: "ys = d # zs"
  then have "as = xs @ [n] \<and> bs = zs" using assms(1,2) by (intro distinct_split [of _ d]) simp_all
  with z show ?thesis by auto
qed

lemma delete_tree:
  assumes "avl_tree Table h t" "inorder t = xs @ n # ys"
  shows "avl_result Table (RtlpDeleteAvlTreeNode Table h n) (xs @ ys)"
proof -
  from delete_node_neighbour [OF assms] obtain d l r c where d: "delete_node h n = Some d" "plug (Node l d r) c = t"
    "l = Leaf \<or> r = Leaf" "d = n \<or> (\<exists>zs. xs = zs @ [d]) \<or> (\<exists>zs. ys = d # zs)" by blast
  let ?h = "RtlSetBalance (unlink h d) (BalancedRoot Table) 0"
  note u = unlink_inv [OF assms(1) [folded d(2)] d(3)]
  obtain T' h' t' where r: "RtlpDeleteAvlTreeNode_loop Table ?h (Parent (h d)) (side c) = Some (T', h')"
    and t': "avl_tree T' h' t'" "inorder t' = inorder (plug (if l = Leaf then r else l) c)"
    and T: "T' = Table\<lparr>DepthOfTree := DepthOfTree T'\<rparr>"
    using delete_loop [OF u(1)] unfolding avl_result_def by blast
  have res: "RtlpDeleteAvlTreeNode Table h n = Some (T', if n = d then h' else take_over h' d n)"
    using r u(2) d(1) by (simp add: RtlpDeleteAvlTreeNode_def Let_def)
  have i: "xs @ n # ys = before c @ (inorder l @ d # inorder r) @ after c"
    using d(2) assms(2) inorder_plug [of "Node l d r" c] by simp
  have t'_in: "inorder t' = before c @ (inorder l @ inorder r) @ after c" using t'(2) d(3) by (auto simp: inorder_plug)
  have dist: "distinct (xs @ n # ys)" using assms by (simp add: avl_tree_def apart_def)
  have "d \<in> set_tree t" using d(2) set_tree_plug by force
  moreover have "0 \<notin> set_tree t" "BalancedRoot Table \<notin> set_tree t"
    using assms(1) tree_at_notin by (auto simp: avl_tree_def apart_def holds_tree_def)
  ultimately have f: "d \<noteq> 0" "d \<noteq> BalancedRoot T'" using T by (metis RTL_AVL_TABLE.select_convs(1) RTL_AVL_TABLE.surjective RTL_AVL_TABLE.update_convs(5))+
  have dn: "d \<notin> set_tree t'" using dist i t'_in by (auto simp flip: set_inorder)
  show ?thesis
  proof (cases "d = n")
    case True
    then have "xs = before c @ inorder l" "ys = inorder r @ after c"
      using distinct_split [of xs n ys "before c @ inorder l" "inorder r @ after c"] i dist by auto
    then show ?thesis using True res t' t'_in T by (intro avl_resultI [where Table' = T' and t' = t' and d = "DepthOfTree T'"]) simp_all
  next
    case False
    then obtain as bs where ab: "inorder t' = as @ n # bs" "as @ d # bs = xs @ ys"
      using neighbour_lists [of xs n ys "before c @ inorder l" d "inorder r @ after c"] i dist d(4) t'_in by auto
    then obtain t'' where "avl_tree T' (take_over h' d n) t''" "inorder t'' = xs @ ys"
      using take_over_tree [OF t'(1), of as n bs d] f dn by (auto simp: fresh_node_def)
    then show ?thesis using False res T by (intro avl_resultI [where Table' = T' and t' = t'' and d = "DepthOfTree T'"]) simp_all
  qed
qed

end
