(* ===== verification/Rtl_AvlTable.thy ===== *)
theory Rtl_AvlTable
  imports Rtl_Avl
begin

text \<open>
  The generic tables over AVL trees, \<open>lib/rtl/avltable.c\<close>. To its user a table is the list of its
  nodes, with their data ascending by the comparison routine (\<open>avl_table\<close>): insertion, lookup,
  deletion and enumeration are shown to be the operations on that list, and the depth of the tree
  to stay logarithmic.
\<close>

section \<open>The tables of \<open>avltable.c\<close>\<close>

text \<open>
  The state of a table: its fields, the links of the nodes and their data. A pointer to the data
  of a node is given as the address of the node, \<open>NULL\<close> as 0.
\<close>

type_synonym 'b avl_state = "'b RTL_AVL_TABLE \<times> avl_links \<times> (nat \<Rightarrow> 'b)"

definition zero_links :: RTL_BALANCED_LINKS where
  "zero_links = \<lparr>Parent = 0, LeftChild = 0, RightChild = 0, Balance = 0\<rparr>"

definition RtlInitializeGenericTableAvl ::
  "avl_links \<Rightarrow> nat \<Rightarrow> ('b \<Rightarrow> 'b \<Rightarrow> RTL_GENERIC_COMPARE_RESULTS) \<Rightarrow> 'b RTL_AVL_TABLE \<times> avl_links" where
  "RtlInitializeGenericTableAvl h Root cmp =
     (\<lparr>BalancedRoot = Root, OrderedPointer = 0, WhichOrderedElement = 0, NumberGenericTableElements = 0,
       DepthOfTree = 0, RestartKey = 0, DeleteCount = 0, CompareRoutine = cmp\<rparr>,
      h(Root := zero_links\<lparr>Parent := Root\<rparr>))"

text \<open>\<open>NewNode\<close> is what \<open>AllocateRoutine\<close> returns. The results are the pointer, \<open>NewElement\<close> and the state.\<close>

fun RtlInsertElementGenericTableFullAvl ::
  "'b avl_state \<Rightarrow> 'b \<Rightarrow> nat \<Rightarrow> nat \<Rightarrow> TABLE_SEARCH_RESULT \<Rightarrow> (nat \<times> bool \<times> 'b avl_state) option" where
  "RtlInsertElementGenericTableFullAvl (Table, h, UserData) Buffer NewNode NodeOrParent SearchResult =
     (if SearchResult \<noteq> TableFoundNode
      then if NewNode = 0 then Some (0, False, (Table, h, UserData))
           else do {
             (Table, h) \<leftarrow> RtlpInsertAvlTreeNode Table (h(NewNode := zero_links)) NewNode NodeOrParent SearchResult;
             Some (NewNode, SearchResult \<noteq> TableFoundNode, (Table, h, UserData(NewNode := Buffer)))
           }
      else Some (NodeOrParent, SearchResult \<noteq> TableFoundNode, (Table, h, UserData)))"

fun RtlInsertElementGenericTableAvl :: "'b avl_state \<Rightarrow> 'b \<Rightarrow> nat \<Rightarrow> (nat \<times> bool \<times> 'b avl_state) option" where
  "RtlInsertElementGenericTableAvl (Table, h, UserData) Buffer NewNode =
     do {
       (Result, NodeOrParent) \<leftarrow> RtlpFindAvlTableNodeOrParent Table h UserData Buffer 0;
       RtlInsertElementGenericTableFullAvl (Table, h, UserData) Buffer NewNode NodeOrParent Result
     }"

definition RtlIsGenericTableEmptyAvl :: "'b RTL_AVL_TABLE \<Rightarrow> bool" where
  "RtlIsGenericTableEmptyAvl Table \<longleftrightarrow> NumberGenericTableElements Table = 0"

definition RtlNumberGenericTableElementsAvl :: "'b RTL_AVL_TABLE \<Rightarrow> ULONG" where
  "RtlNumberGenericTableElementsAvl Table = NumberGenericTableElements Table"

text \<open>The pointer, \<open>NodeOrParent\<close> and \<open>SearchResult\<close>.\<close>

fun RtlLookupElementGenericTableFullAvl :: "'b avl_state \<Rightarrow> 'b \<Rightarrow> nat \<Rightarrow> (nat \<times> nat \<times> TABLE_SEARCH_RESULT) option" where
  "RtlLookupElementGenericTableFullAvl (Table, h, UserData) Buffer NodeOrParent =
     do {
       (SearchResult, NodeOrParent) \<leftarrow> RtlpFindAvlTableNodeOrParent Table h UserData Buffer NodeOrParent;
       Some (if SearchResult \<noteq> TableFoundNode then 0 else NodeOrParent, NodeOrParent, SearchResult)
     }"

text \<open>\<open>NodeOrParent\<close> is a local variable without an initial value, the last argument.\<close>

definition RtlLookupElementGenericTableAvl :: "'b avl_state \<Rightarrow> 'b \<Rightarrow> nat \<Rightarrow> nat option" where
  "RtlLookupElementGenericTableAvl st Buffer NodeOrParent =
     map_option fst (RtlLookupElementGenericTableFullAvl st Buffer NodeOrParent)"

definition RtlEnumerateGenericTableWithoutSplayingAvl ::
  "'b RTL_AVL_TABLE \<Rightarrow> avl_links \<Rightarrow> nat \<Rightarrow> (nat \<times> nat) option" where
  "RtlEnumerateGenericTableWithoutSplayingAvl Table h Key =
     (if RtlIsGenericTableEmptyAvl Table then Some (0, Key)
      else if Key = 0
      then map_option (\<lambda>CurrentNode. (CurrentNode, CurrentNode)) (left_most h (RightChild (h (BalancedRoot Table))))
      else map_option (\<lambda>CurrentNode. (CurrentNode, if CurrentNode \<noteq> 0 then CurrentNode else Key))
             (RtlRealSuccessor h Key))"

definition RtlEnumerateGenericTableAvl ::
  "'b RTL_AVL_TABLE \<Rightarrow> avl_links \<Rightarrow> bool \<Rightarrow> (nat \<times> 'b RTL_AVL_TABLE) option" where
  "RtlEnumerateGenericTableAvl Table h Restart =
     (let Table = (if Restart then Table\<lparr>RestartKey := 0\<rparr> else Table)
      in map_option (\<lambda>(CurrentNode, Key). (CurrentNode, Table\<lparr>RestartKey := Key\<rparr>))
           (RtlEnumerateGenericTableWithoutSplayingAvl Table h (RestartKey Table)))"

partial_function (option) first_matching_loop ::
  "'b RTL_AVL_TABLE \<Rightarrow> avl_links \<Rightarrow> (nat \<Rightarrow> 'b) \<Rightarrow> 'b \<Rightarrow> nat \<Rightarrow> nat option" where
  "first_matching_loop Table h UserData Buffer Links =
     Option.bind (RtlRealPredecessor h Links) (\<lambda>PreviousNode.
       if PreviousNode = 0 \<or> Parent (h PreviousNode) = PreviousNode then Some Links
       else if CompareRoutine Table Buffer (UserData PreviousNode) = GenericEqual
       then first_matching_loop Table h UserData Buffer PreviousNode
       else Some Links)"

text \<open>The pointer and \<open>RestartKey\<close>.\<close>

fun RtlLookupFirstMatchingElementGenericTableAvl :: "'b avl_state \<Rightarrow> 'b \<Rightarrow> nat \<Rightarrow> (nat \<times> nat) option" where
  "RtlLookupFirstMatchingElementGenericTableAvl (Table, h, UserData) Buffer Links =
     do {
       (SearchResult, Links) \<leftarrow> RtlpFindAvlTableNodeOrParent Table h UserData Buffer Links;
       if SearchResult \<noteq> TableFoundNode then Some (0, 0)
       else map_option (\<lambda>Links. (Links, Links)) (first_matching_loop Table h UserData Buffer Links)
     }"

definition RtlGetElementGenericTableAvl :: "'b RTL_AVL_TABLE \<Rightarrow> ULONG \<Rightarrow> nat" where
  "RtlGetElementGenericTableAvl Table I = 0"

text \<open>The result, the node handed to \<open>FreeRoutine\<close> and the state.\<close>

fun RtlDeleteElementGenericTableAvl ::
  "'b avl_state \<Rightarrow> 'b \<Rightarrow> nat \<Rightarrow> (bool \<times> nat option \<times> 'b avl_state) option" where
  "RtlDeleteElementGenericTableAvl (Table, h, UserData) Buffer Links =
     do {
       (SearchResult, Links) \<leftarrow> RtlpFindAvlTableNodeOrParent Table h UserData Buffer Links;
       if SearchResult \<noteq> TableFoundNode then Some (False, None, (Table, h, UserData))
       else do {
         Table \<leftarrow> (if Links = RestartKey Table
                  then map_option (\<lambda>Key. Table\<lparr>RestartKey := Key\<rparr>) (RtlRealPredecessor h Links)
                  else Some Table);
         let Table = Table\<lparr>DeleteCount := DeleteCount Table + 1\<rparr>;
         (Table, h) \<leftarrow> RtlpDeleteAvlTreeNode Table h Links;
         let Table = Table\<lparr>NumberGenericTableElements := NumberGenericTableElements Table - 1,
                          WhichOrderedElement := 0, OrderedPointer := 0\<rparr>;
         Some (True, Some Links, (Table, h, UserData))
       }
     }"

section \<open>Tables as ordered lists\<close>

text \<open>A table as its user sees it: the list of its nodes, with their data ascending.\<close>

fun avl_table :: "'b avl_state \<Rightarrow> nat list \<Rightarrow> bool" where
  "avl_table (Table, h, UserData) ns \<longleftrightarrow> (\<exists>t. avl_tree Table h t \<and> inorder t = ns) \<and>
     NumberGenericTableElements Table = of_nat (length ns) \<and> length ns < 2 ^ 32 \<and>
     ascending (CompareRoutine Table) UserData ns"

text \<open>A buffer enters behind the nodes it compares greater than.\<close>

definition place :: "('b \<Rightarrow> 'b \<Rightarrow> RTL_GENERIC_COMPARE_RESULTS) \<Rightarrow> (nat \<Rightarrow> 'b) \<Rightarrow> 'b \<Rightarrow> nat \<Rightarrow> nat list \<Rightarrow> nat list" where
  "place cmp ud b n ns = takeWhile (\<lambda>x. cmp b (ud x) = GenericGreaterThan) ns @ n #
     dropWhile (\<lambda>x. cmp b (ud x) = GenericGreaterThan) ns"

lemma place_splits: "splits cmp ud b xs ys \<Longrightarrow> place cmp ud b n (xs @ ys) = xs @ n # ys"
  by (cases ys) (auto simp: place_def splits_def takeWhile_append dropWhile_append)

lemma ascending_place:
  assumes "compare_ok cmp" "ascending cmp ud (xs @ ys)" "splits cmp ud b xs ys" "n \<notin> set (xs @ ys)"
  shows "ascending cmp (ud(n := b)) (xs @ n # ys)"
proof -
  have eq: "ascending cmp (ud(n := b)) zs = ascending cmp ud zs" if "n \<notin> set zs" for zs
    using that by (induction zs) auto
  show ?thesis using assms eq compare_okD(2) [OF assms(1)] by (auto simp: splits_def)
qed

lemma length_place [simp]: "length (place cmp ud b n ns) = Suc (length ns)"
proof -
  have "length (takeWhile P ns) + length (dropWhile P ns) = length ns" for P :: "nat \<Rightarrow> bool"
    by (metis length_append takeWhile_dropWhile_id)
  then show ?thesis by (simp add: place_def)
qed

lemma count_eq_0: "k < 2 ^ 32 \<Longrightarrow> (of_nat k :: ULONG) = 0 \<longleftrightarrow> k = 0"
  by (auto simp: word_of_nat_eq_0_iff nat_dvd_not_less)

interpretation avl_search: table_search "CompareRoutine Table" h ud buf
  "RtlpFindAvlTableNodeOrParent_loop Table h ud buf" for Table :: "'b RTL_AVL_TABLE" and h ud buf
  by unfold_locales (rule RtlpFindAvlTableNodeOrParent_loop.simps)

lemma find_graded:
  assumes "avl_tree Table h t" "NumberGenericTableElements Table = 0 \<longleftrightarrow> t = Leaf" "graded (CompareRoutine Table) ud b (inorder t)"
  shows "\<exists>res q. RtlpFindAvlTableNodeOrParent Table h ud b q0 = Some (res, q) \<and>
    search_ok (CompareRoutine Table) ud b t res q"
proof (cases "t = Leaf")
  case True
  then show ?thesis using assms(2) by (auto simp: RtlpFindAvlTableNodeOrParent_def)
next
  case False
  obtain par where "tree_at h par (RightChild (h (BalancedRoot Table))) t"
    using assms(1) by (auto simp: avl_tree_def holds_tree_def)
  then obtain res q where "RtlpFindAvlTableNodeOrParent_loop Table h ud b (RightChild (h (BalancedRoot Table))) = Some (res, q)"
    "search_ok (CompareRoutine Table) ud b t res q"
    using avl_search.search_finds [OF _ False assms(3)] by blast
  then show ?thesis using False assms(2) by (simp add: RtlpFindAvlTableNodeOrParent_def)
qed

lemma find_ok:
  assumes "compare_ok (CompareRoutine Table)" "avl_table (Table, h, ud) (inorder t)" "avl_tree Table h t"
  shows "\<exists>res q. RtlpFindAvlTableNodeOrParent Table h ud b q0 = Some (res, q) \<and>
    search_ok (CompareRoutine Table) ud b t res q"
  using assms(2) count_eq_0 [of "length (inorder t)"]
  by (intro find_graded [OF assms(3)] ascending_graded [OF assms(1)]) auto

text \<open>A found node is the only one that compares equal.\<close>

lemma equal_unique:
  assumes "compare_ok cmp" "ascending cmp ud ns" "x \<in> set ns" "y \<in> set ns" "cmp b (ud x) = GenericEqual" "cmp b (ud y) = GenericEqual"
  shows "x = y"
proof (rule ccontr)
  assume "x \<noteq> y"
  with assms(2-4) have "cmp (ud x) (ud y) = GenericLessThan \<or> cmp (ud y) (ud x) = GenericLessThan"
    by (induction ns) auto
  then have "cmp (ud x) (ud y) \<noteq> GenericEqual" using compare_okD(2) [OF assms(1), of "ud y" "ud x"] by auto
  then show False using assms(5,6) compare_okD(4) [OF assms(1), of b "ud x" "ud y"] by simp
qed

lemma splits_no_equal: "splits cmp ud b xs ys \<Longrightarrow> x \<in> set (xs @ ys) \<Longrightarrow> cmp b (ud x) \<noteq> GenericEqual"
  by (auto simp: splits_def)


lemma avl_tree_upd:
  assumes "fresh_node Table t n"
  shows "avl_tree Table (h(n := v)) t \<longleftrightarrow> avl_tree Table h t"
proof -
  have n: "n \<notin> set_tree t" "n \<noteq> BalancedRoot Table" using assms by (simp_all add: fresh_node_def)
  then have "tree_at (h(n := v)) par p t = tree_at h par p t" "avl (h(n := v)) t = avl h t" for par p
    by (auto intro!: tree_at_cong avl_cong simp: same_links_def)
  then show ?thesis using n by (auto simp: avl_tree_def holds_tree_def apart_def)
qed

lemma avl_table_counted:
  assumes "avl_result (counted Table) res ms" "avl_table (Table, h, ud) ns" "length ms = Suc (length ns)" "Suc (length ns) < 2 ^ 32"
    and "ascending (CompareRoutine Table) ud' ms"
  shows "\<exists>T' h'. res = Some (T', h') \<and> avl_table (T', h', ud') ms \<and> CompareRoutine T' = CompareRoutine Table \<and>
    BalancedRoot T' = BalancedRoot Table \<and> RestartKey T' = RestartKey Table"
proof -
  from assms(1) obtain T' h' t' d where r: "res = Some (T', h')" "avl_tree T' h' t'" "inorder t' = ms"
    and T: "T' = (counted Table)\<lparr>DepthOfTree := d\<rparr>" unfolding avl_result_def by blast
  then show ?thesis using assms(2-5) by (auto intro: exI [of _ t'] simp: add.commute)
qed

lemma insert_node_place:
  assumes "compare_ok (CompareRoutine Table)" "avl_tree Table h t" "fresh_node Table t n" "Balance (h n) = 0"
    and "search_ok (CompareRoutine Table) ud b t res q" "res \<noteq> TableFoundNode" "ascending (CompareRoutine Table) ud (inorder t)"
  defines "ms \<equiv> place (CompareRoutine Table) ud b n (inorder t)"
  shows "avl_result (counted Table) (RtlpInsertAvlTreeNode Table h n q res) ms \<and>
    ascending (CompareRoutine Table) (ud(n := b)) ms \<and> (\<forall>x \<in> set_tree t. CompareRoutine Table b (ud x) \<noteq> GenericEqual)"
proof -
  have n: "n \<notin> set (inorder t)" using assms(3) by (simp add: fresh_node_def)
  have "\<exists>xs ys. inorder t = xs @ ys \<and> splits (CompareRoutine Table) ud b xs ys \<and>
    avl_result (counted Table) (RtlpInsertAvlTreeNode Table h n q res) (xs @ n # ys)"
  proof (cases res)
    case TableEmptyTree
    then show ?thesis using assms(2-5) insert_node_empty
      by (intro exI [of _ "[]"]) (auto simp: splits_def)
  next
    case TableInsertAsLeft
    then obtain r c where p: "t = plug Leaf (InLeft q r # c)"
      and "splits (CompareRoutine Table) ud b (before (InLeft q r # c)) (after (InLeft q r # c))" using assms(5) by auto
    moreover note insert_node_left [OF assms(2-4) p]
    moreover have "inorder t = before (InLeft q r # c) @ after (InLeft q r # c)" unfolding p by (simp only: inorder_plug inorder.simps append_Nil)
    ultimately show ?thesis using TableInsertAsLeft by blast
  next
    case TableInsertAsRight
    then obtain l c where p: "t = plug Leaf (InRight l q # c)"
      and "splits (CompareRoutine Table) ud b (before (InRight l q # c)) (after (InRight l q # c))" using assms(5) by auto
    moreover note insert_node_right [OF assms(2-4) p]
    moreover have "inorder t = before (InRight l q # c) @ after (InRight l q # c)" unfolding p by (simp only: inorder_plug inorder.simps append_Nil)
    ultimately show ?thesis using TableInsertAsRight by blast
  qed (use assms(6) in simp)
  then obtain xs ys where x: "inorder t = xs @ ys" "splits (CompareRoutine Table) ud b xs ys"
    "avl_result (counted Table) (RtlpInsertAvlTreeNode Table h n q res) (xs @ n # ys)" by blast
  have "ms = xs @ n # ys" using x(1,2) place_splits unfolding ms_def by metis
  moreover have "\<forall>x \<in> set_tree t. CompareRoutine Table b (ud x) \<noteq> GenericEqual"
    using splits_no_equal [OF x(2)] x(1) set_inorder by metis
  ultimately show ?thesis using x ascending_place [OF assms(1) _ x(2)] assms(7) n by simp
qed

lemma insert_places:
  assumes "compare_ok (CompareRoutine Table)" "avl_table (Table, h, ud) ns" "Suc (length ns) < 2 ^ 32"
    and "n \<noteq> 0" "n \<notin> set ns" "n \<noteq> BalancedRoot Table"
  shows "\<exists>p new st. RtlInsertElementGenericTableAvl (Table, h, ud) b n = Some (p, new, st) \<and>
    (if \<exists>x \<in> set ns. CompareRoutine Table b (ud x) = GenericEqual
     then \<not> new \<and> p \<in> set ns \<and> CompareRoutine Table b (ud p) = GenericEqual \<and> st = (Table, h, ud)
     else new \<and> p = n \<and> snd (snd st) = ud(n := b) \<and> CompareRoutine (fst st) = CompareRoutine Table \<and>
       BalancedRoot (fst st) = BalancedRoot Table \<and> RestartKey (fst st) = RestartKey Table \<and>
       avl_table st (place (CompareRoutine Table) ud b n ns))"
proof -
  from assms(2) obtain t where t: "avl_tree Table h t" "inorder t = ns" by auto
  have f: "fresh_node Table t n" using assms(4-6) t(2) by (auto simp: fresh_node_def)
  from find_ok [OF assms(1) _ t(1)] assms(2) t(2) obtain res q where
    r: "RtlpFindAvlTableNodeOrParent Table h ud b 0 = Some (res, q)" "search_ok (CompareRoutine Table) ud b t res q" by blast
  show ?thesis
  proof (cases "res = TableFoundNode")
    case True
    have "q \<in> set ns" "CompareRoutine Table b (ud q) = GenericEqual" using r(2) True by (simp_all flip: t(2))
    moreover have "RtlInsertElementGenericTableAvl (Table, h, ud) b n = Some (q, False, (Table, h, ud))" using r(1) True by simp
    ultimately show ?thesis by (intro exI [of _ q] exI [of _ False] exI [of _ "(Table, h, ud)"]) auto
  next
    case False
    let ?h = "h(n := zero_links)" and ?ms = "place (CompareRoutine Table) ud b n ns"
    have "avl_tree Table ?h t" using t(1) avl_tree_upd [OF f] by blast
    then have i: "avl_result (counted Table) (RtlpInsertAvlTreeNode Table ?h n q res) ?ms"
      "ascending (CompareRoutine Table) (ud(n := b)) ?ms" "\<forall>x \<in> set ns. CompareRoutine Table b (ud x) \<noteq> GenericEqual"
      using insert_node_place [OF assms(1) _ f _ r(2) False] assms(2) unfolding t(2) set_inorder [symmetric]
      by (simp_all add: zero_links_def)
    then obtain T' h' where "RtlpInsertAvlTreeNode Table ?h n q res = Some (T', h')" "avl_table (T', h', ud(n := b)) ?ms"
      "CompareRoutine T' = CompareRoutine Table" "BalancedRoot T' = BalancedRoot Table" "RestartKey T' = RestartKey Table"
      using avl_table_counted [OF i(1) assms(2) length_place assms(3) i(2)] by blast
    moreover from this have "RtlInsertElementGenericTableAvl (Table, h, ud) b n = Some (n, True, (T', h', ud(n := b)))"
      using r(1) False assms(4) by simp
    ultimately show ?thesis using i(3)
      by (intro exI [of _ n] exI [of _ True] exI [of _ "(T', h', ud(n := b))"]) auto
  qed
qed

section \<open>Looking up and deleting\<close>

lemma table_nodes:
  assumes "avl_table (Table, h, ud) ns"
  shows "distinct ns" "0 \<notin> set ns" "BalancedRoot Table \<notin> set ns" "BalancedRoot Table \<noteq> 0"
proof -
  from assms obtain t where t: "avl_tree Table h t" "inorder t = ns" by auto
  then obtain par where "tree_at h par (RightChild (h (BalancedRoot Table))) t"
    by (auto simp: avl_tree_def holds_tree_def)
  then show "0 \<notin> set ns" using tree_at_notin t(2) by (metis set_inorder)
  show "distinct ns" "BalancedRoot Table \<notin> set ns" "BalancedRoot Table \<noteq> 0"
    using t by (auto simp: avl_tree_def apart_def)
qed

lemma search_ok_none:
  assumes "search_ok cmp ud b t res q" "res \<noteq> TableFoundNode"
  shows "\<forall>x \<in> set_tree t. cmp b (ud x) \<noteq> GenericEqual"
proof (cases res)
  case TableInsertAsLeft
  then obtain s c where "t = plug Leaf (InLeft q s # c)" "splits cmp ud b (before (InLeft q s # c)) (after (InLeft q s # c))"
    using assms(1) by auto
  then show ?thesis using splits_no_equal inorder_plug [of Leaf "InLeft q s # c"] by (metis append_Nil inorder.simps(1) set_inorder)
next
  case TableInsertAsRight
  then obtain s c where "t = plug Leaf (InRight s q # c)" "splits cmp ud b (before (InRight s q # c)) (after (InRight s q # c))"
    using assms(1) by auto
  then show ?thesis using splits_no_equal inorder_plug [of Leaf "InRight s q # c"] by (metis append_Nil inorder.simps(1) set_inorder)
qed (use assms in auto)

lemma find_cases:
  assumes "compare_ok (CompareRoutine Table)" "avl_table (Table, h, ud) ns"
  shows "(\<exists>p \<in> set ns. RtlpFindAvlTableNodeOrParent Table h ud b q0 = Some (TableFoundNode, p) \<and>
      CompareRoutine Table b (ud p) = GenericEqual) \<or>
    (\<exists>res q. RtlpFindAvlTableNodeOrParent Table h ud b q0 = Some (res, q) \<and> res \<noteq> TableFoundNode \<and>
      (\<forall>x \<in> set ns. CompareRoutine Table b (ud x) \<noteq> GenericEqual))"
proof -
  from assms(2) obtain t where t: "avl_tree Table h t" "inorder t = ns" by auto
  from find_ok [OF assms(1) _ t(1)] assms(2) t(2) obtain res q where
    r: "RtlpFindAvlTableNodeOrParent Table h ud b q0 = Some (res, q)" "search_ok (CompareRoutine Table) ud b t res q" by blast
  have "\<forall>x \<in> set ns. CompareRoutine Table b (ud x) \<noteq> GenericEqual" if "res \<noteq> TableFoundNode"
    using search_ok_none [OF r(2) that] by (simp flip: t(2))
  then show ?thesis using r by (cases "res = TableFoundNode") (auto simp flip: t(2))
qed

text \<open>A lookup returns the node that compares equal, or \<open>NULL\<close>.\<close>

lemma lookup_finds:
  assumes "compare_ok (CompareRoutine Table)" "avl_table (Table, h, ud) ns"
  shows "\<exists>p. RtlLookupElementGenericTableAvl (Table, h, ud) b q = Some p \<and>
    (if \<exists>x \<in> set ns. CompareRoutine Table b (ud x) = GenericEqual
     then p \<in> set ns \<and> CompareRoutine Table b (ud p) = GenericEqual else p = 0)"
  using find_cases [OF assms, of b q]
  by (elim disjE bexE exE conjE) (auto simp: RtlLookupElementGenericTableAvl_def)

declare avl_table.simps [simp del]

lemma table_tree:
  assumes "avl_table (Table, h, ud) ns"
  obtains t where "avl_tree Table h t" "inorder t = ns"
  using assms by (auto simp: avl_table.simps)

lemma table_empty:
  "avl_table (Table, h, ud) ns \<Longrightarrow> NumberGenericTableElements Table = 0 \<longleftrightarrow> ns = []"
  using count_eq_0 [of "length ns"] by (simp add: avl_table.simps)

lemma delete_removes:
  assumes "compare_ok (CompareRoutine Table)" "avl_table (Table, h, ud) ns"
  shows "\<exists>res freed st. RtlDeleteElementGenericTableAvl (Table, h, ud) b q = Some (res, freed, st) \<and>
    (if \<exists>x \<in> set ns. CompareRoutine Table b (ud x) = GenericEqual
     then res \<and> (\<exists>xs p ys. ns = xs @ p # ys \<and> CompareRoutine Table b (ud p) = GenericEqual \<and> freed = Some p \<and>
       avl_table st (xs @ ys) \<and> snd (snd st) = ud \<and> CompareRoutine (fst st) = CompareRoutine Table \<and> BalancedRoot (fst st) = BalancedRoot Table \<and>
       RestartKey (fst st) = (if RestartKey Table = p then if xs = [] then BalancedRoot Table else last xs else RestartKey Table))
     else \<not> res \<and> freed = None \<and> st = (Table, h, ud))"
  using find_cases [OF assms, of b q]
proof (elim disjE bexE exE conjE)
  fix p assume p: "p \<in> set ns" "RtlpFindAvlTableNodeOrParent Table h ud b q = Some (TableFoundNode, p)"
    "CompareRoutine Table b (ud p) = GenericEqual"
  from assms(2) obtain t where t: "avl_tree Table h t" "inorder t = ns" by (rule table_tree)
  obtain xs ys where xy: "ns = xs @ p # ys" using p(1) by (metis in_set_conv_decomp)
  define K where "K = (if RestartKey Table = p then if xs = [] then BalancedRoot Table else last xs else RestartKey Table)"
  let ?T = "Table\<lparr>RestartKey := K, DeleteCount := DeleteCount Table + 1\<rparr>"
  have "RtlRealPredecessor h p = Some (if xs = [] then BalancedRoot Table else last xs)"
    using real_neighbours [of h "Some (BalancedRoot Table)" t xs p ys] t xy by (simp add: avl_tree_def)
  then have K: "(if p = RestartKey Table then map_option (\<lambda>Key. Table\<lparr>RestartKey := Key\<rparr>) (RtlRealPredecessor h p)
      else Some Table) = Some (Table\<lparr>RestartKey := K\<rparr>)"
    by (auto simp: K_def)
  have "avl_tree ?T h t" using t(1) by (simp add: avl_tree_def)
  then obtain T' h' t' d where r: "RtlpDeleteAvlTreeNode ?T h p = Some (T', h')" "avl_tree T' h' t'" "inorder t' = xs @ ys"
    and T': "T' = ?T\<lparr>DepthOfTree := d\<rparr>"
    using delete_tree [of ?T h t xs p ys] t(2) xy unfolding avl_result_def by blast
  let ?T' = "T'\<lparr>NumberGenericTableElements := NumberGenericTableElements T' - 1, WhichOrderedElement := 0, OrderedPointer := 0\<rparr>"
  have "RtlDeleteElementGenericTableAvl (Table, h, ud) b q = Some (True, Some p, (?T', h', ud))"
    using p(2) K r(1) by (simp add: Let_def)
  moreover have "avl_tree ?T' h' t'" using r(2) by (simp add: avl_tree_def)
  then have "avl_table (?T', h', ud) (xs @ ys)" using r(3) assms(2) xy T' by (auto simp: avl_table.simps)
  moreover have "CompareRoutine ?T' = CompareRoutine Table" "BalancedRoot ?T' = BalancedRoot Table" "RestartKey ?T' = K" using T' by simp_all
  moreover have "\<exists>x \<in> set ns. CompareRoutine Table b (ud x) = GenericEqual" using p by blast
  ultimately show ?thesis using p(3) xy K_def
    by (intro exI [of _ True] exI [of _ "Some p"] exI [of _ "(?T', h', ud)"])
      (simp only: if_True fst_conv snd_conv, blast)
next
  fix res r assume "RtlpFindAvlTableNodeOrParent Table h ud b q = Some (res, r)" "res \<noteq> TableFoundNode"
    "\<forall>x \<in> set ns. CompareRoutine Table b (ud x) \<noteq> GenericEqual"
  then show ?thesis by auto
qed

section \<open>Enumerating\<close>

lemma enumerate_first:
  assumes "avl_table (Table, h, ud) ns" "key = 0 \<or> key = BalancedRoot Table" "ns \<noteq> []"
  shows "RtlEnumerateGenericTableWithoutSplayingAvl Table h key = Some (hd ns, hd ns)"
proof -
  from assms(1) obtain t where t: "avl_tree Table h t" "inorder t = ns" by (rule table_tree)
  then obtain par where p: "tree_at h par (RightChild (h (BalancedRoot Table))) t"
    by (auto simp: avl_tree_def holds_tree_def)
  have "left_most h (RightChild (h (BalancedRoot Table))) = Some (hd ns)"
    using left_most_hd [OF p] t(2) assms(3) by auto
  moreover have "RightChild (h (BalancedRoot Table)) \<noteq> 0" using p t(2) assms(3) tree_at_null inorder_Nil by metis
  moreover have "NumberGenericTableElements Table \<noteq> 0" using table_empty [OF assms(1)] assms(3) by simp
  moreover have "hd ns \<noteq> 0" using table_nodes(2) [OF assms(1)] assms(3) by (metis list.set_sel(1))
  ultimately show ?thesis using assms(2)
    by (auto simp: RtlEnumerateGenericTableWithoutSplayingAvl_def RtlIsGenericTableEmptyAvl_def RtlRealSuccessor_def)
qed

lemma enumerate_next:
  assumes "avl_table (Table, h, ud) (xs @ n # ys)"
  shows "RtlEnumerateGenericTableWithoutSplayingAvl Table h n = Some (if ys = [] then (0, n) else (hd ys, hd ys))"
proof -
  from assms obtain t where t: "avl_tree Table h t" "inorder t = xs @ n # ys" by (rule table_tree)
  have "RtlRealSuccessor h n = Some (if ys = [] then 0 else hd ys)"
    using real_neighbours [of h "Some (BalancedRoot Table)" t xs n ys] t by (simp add: avl_tree_def)
  moreover have "NumberGenericTableElements Table \<noteq> 0" using table_empty [OF assms] by simp
  moreover have "0 \<notin> set (xs @ n # ys)" using table_nodes(2) [OF assms] .
  then have "n \<noteq> 0" "ys \<noteq> [] \<Longrightarrow> hd ys \<noteq> 0" by (cases ys; auto)+
  ultimately show ?thesis
    by (auto simp: RtlEnumerateGenericTableWithoutSplayingAvl_def RtlIsGenericTableEmptyAvl_def)
qed

text \<open>What the first \<open>k\<close> calls return, each with the key of the one before.\<close>

fun visits :: "nat \<Rightarrow> 'b RTL_AVL_TABLE \<Rightarrow> avl_links \<Rightarrow> nat \<Rightarrow> nat list option" where
  "visits 0 Table h key = Some []"
| "visits (Suc k) Table h key =
     do { (n, key) \<leftarrow> RtlEnumerateGenericTableWithoutSplayingAvl Table h key; ms \<leftarrow> visits k Table h key; Some (n # ms) }"

lemma visits_rest:
  "avl_table (Table, h, ud) (xs @ n # ys) \<Longrightarrow> visits (Suc (length ys)) Table h n = Some (ys @ [0])"
proof (induction ys arbitrary: xs n)
  case Nil
  then show ?case using enumerate_next [OF Nil] by simp
next
  case (Cons y ys)
  then show ?case using Cons.IH [of "xs @ [n]" y] enumerate_next [OF Cons.prems]
    by (subst visits.simps(2)) (simp del: visits.simps(2))
qed

text \<open>
  C16: an enumeration that starts with a \<open>NULL\<close> key and passes on the key of each call returns
  every element of the table once, in ascending order, and then \<open>NULL\<close>.
\<close>

theorem enumeration_visits_all:
  assumes "avl_table (Table, h, ud) ns"
  shows "visits (Suc (length ns)) Table h 0 = Some (ns @ [0])"
proof (cases ns)
  case Nil
  then show ?thesis using table_empty [OF assms]
    by (simp add: RtlEnumerateGenericTableWithoutSplayingAvl_def RtlIsGenericTableEmptyAvl_def)
next
  case (Cons n ys)
  then show ?thesis using assms enumerate_first [OF assms, of 0] visits_rest [of Table h ud "[]" n ys]
    by (subst visits.simps(2)) (simp del: visits.simps(2))
qed

text \<open>
  C17: deleting the element an enumeration stands at does not make it miss or repeat another. When
  \<open>RestartKey\<close> is the node of the deleted element, the next call of \<open>RtlEnumerateGenericTableAvl\<close>
  returns the element that followed it, or \<open>NULL\<close> if it was the last.
\<close>

theorem enumeration_survives_delete:
  assumes "compare_ok (CompareRoutine Table)" "avl_table (Table, h, ud) (xs @ p # ys)"
    and "CompareRoutine Table b (ud p) = GenericEqual" "RestartKey Table = p"
  shows "\<exists>freed Table' h'. RtlDeleteElementGenericTableAvl (Table, h, ud) b q = Some (True, freed, (Table', h', ud)) \<and>
    map_option fst (RtlEnumerateGenericTableAvl Table' h' False) = Some (if ys = [] then 0 else hd ys)"
proof -
  let ?ns = "xs @ p # ys"
  have ex: "\<exists>x \<in> set ?ns. CompareRoutine Table b (ud x) = GenericEqual" using assms(3) by auto
  from delete_removes [OF assms(1,2), of b q]
  obtain freed Table' h' as p' bs where
    d: "RtlDeleteElementGenericTableAvl (Table, h, ud) b q = Some (True, freed, (Table', h', ud))"
    and ab: "?ns = as @ p' # bs" "CompareRoutine Table b (ud p') = GenericEqual"
    and t: "avl_table (Table', h', ud) (as @ bs)" "BalancedRoot Table' = BalancedRoot Table"
    and K: "RestartKey Table' = (if RestartKey Table = p' then if as = [] then BalancedRoot Table else last as else RestartKey Table)"
    unfolding if_P [OF ex] by auto
  have "p' \<in> set ?ns" unfolding ab(1) by simp
  moreover have "p \<in> set ?ns" "ascending (CompareRoutine Table) ud ?ns" using assms(2) by (simp_all add: avl_table.simps)
  ultimately have "p' = p" using equal_unique [OF assms(1) _ _ _ ab(2) assms(3)] by blast
  then have "xs = as \<and> ys = bs" using distinct_split [of xs p ys as bs] ab(1) table_nodes(1) [OF assms(2)] by simp
  then have t: "avl_table (Table', h', ud) (xs @ ys)" "RestartKey Table' = (if xs = [] then BalancedRoot Table' else last xs)"
    using t K \<open>p' = p\<close> assms(4) by auto
  have "map_option fst (RtlEnumerateGenericTableWithoutSplayingAvl Table' h' (RestartKey Table')) = Some (if ys = [] then 0 else hd ys)"
  proof (cases "xs = []")
    case True
    then show ?thesis using t enumerate_first [OF t(1)] table_empty [OF t(1)]
      by (cases "ys = []") (auto simp: RtlEnumerateGenericTableWithoutSplayingAvl_def RtlIsGenericTableEmptyAvl_def)
  next
    case False
    then have "butlast xs @ last xs # ys = xs @ ys"
      by (metis append_butlast_last_id append.assoc append_Cons append_Nil)
    then have "avl_table (Table', h', ud) (butlast xs @ last xs # ys)" using t(1) by metis
    then show ?thesis using enumerate_next t(2) False by fastforce
  qed
  then show ?thesis using d by (auto simp: RtlEnumerateGenericTableAvl_def)
qed

section \<open>Properties of the tables\<close>

lemma initialize_table:
  "Root \<noteq> 0 \<Longrightarrow> avl_table (fst (RtlInitializeGenericTableAvl h Root cmp), snd (RtlInitializeGenericTableAvl h Root cmp), ud) []"
  by (auto simp: avl_table.simps RtlInitializeGenericTableAvl_def avl_tree_def holds_tree_def apart_def zero_links_def
      intro!: exI [of _ Leaf])

text \<open>
  C9: insertion into a table. With a comparison routine that is a linear preorder and a fresh
  node from the allocation, \<open>RtlInsertElementGenericTableAvl\<close> ends. When an element compares equal
  to the buffer it returns that element and changes nothing; otherwise it returns the new node,
  which holds the buffer and stands in the table's ascending order behind the smaller elements,
  and the links, balance factors, depth and count again form a table with all the others.
\<close>

theorem RtlInsertElementGenericTableAvl_places:
  assumes "compare_ok (CompareRoutine Table)" "avl_table (Table, h, ud) ns" "Suc (length ns) < 2 ^ 32"
    and "n \<noteq> 0" "n \<notin> set ns" "n \<noteq> BalancedRoot Table"
  shows "\<exists>p new st. RtlInsertElementGenericTableAvl (Table, h, ud) b n = Some (p, new, st) \<and>
    (if \<exists>x \<in> set ns. CompareRoutine Table b (ud x) = GenericEqual
     then \<not> new \<and> p \<in> set ns \<and> CompareRoutine Table b (ud p) = GenericEqual \<and> st = (Table, h, ud)
     else new \<and> p = n \<and> snd (snd st) = ud(n := b) \<and> CompareRoutine (fst st) = CompareRoutine Table \<and>
       BalancedRoot (fst st) = BalancedRoot Table \<and> RestartKey (fst st) = RestartKey Table \<and>
       avl_table st (place (CompareRoutine Table) ud b n ns))"
  by (rule insert_places [OF assms])

text \<open>
  C10: deletion from a table. \<open>RtlDeleteElementGenericTableAvl\<close> ends. When an element compares equal to
  the buffer, exactly its node leaves the table and is handed to \<open>FreeRoutine\<close>, the rest is again
  a table in the same order, and a \<open>RestartKey\<close> at the node moves to its predecessor; otherwise
  nothing changes.
\<close>

theorem RtlDeleteElementGenericTableAvl_removes:
  assumes "compare_ok (CompareRoutine Table)" "avl_table (Table, h, ud) ns"
  shows "\<exists>res freed st. RtlDeleteElementGenericTableAvl (Table, h, ud) b q = Some (res, freed, st) \<and>
    (if \<exists>x \<in> set ns. CompareRoutine Table b (ud x) = GenericEqual
     then res \<and> (\<exists>xs p ys. ns = xs @ p # ys \<and> CompareRoutine Table b (ud p) = GenericEqual \<and> freed = Some p \<and>
       avl_table st (xs @ ys) \<and> snd (snd st) = ud \<and> CompareRoutine (fst st) = CompareRoutine Table \<and> BalancedRoot (fst st) = BalancedRoot Table \<and>
       RestartKey (fst st) = (if RestartKey Table = p then if xs = [] then BalancedRoot Table else last xs else RestartKey Table))
     else \<not> res \<and> freed = None \<and> st = (Table, h, ud))"
  by (rule delete_removes [OF assms])

subsection \<open>A lookup after an insertion\<close>

lemma lookup_value:
  assumes "compare_ok (CompareRoutine Table)" "avl_table (Table, h, ud) ns"
  shows "p \<in> set ns \<Longrightarrow> CompareRoutine Table b (ud p) = GenericEqual \<Longrightarrow>
      RtlLookupElementGenericTableAvl (Table, h, ud) b q = Some p"
    "\<forall>x \<in> set ns. CompareRoutine Table b (ud x) \<noteq> GenericEqual \<Longrightarrow>
      RtlLookupElementGenericTableAvl (Table, h, ud) b q = Some 0"
proof -
  have asc: "ascending (CompareRoutine Table) ud ns" using assms(2) by (simp add: avl_table.simps)
  obtain r where r: "RtlLookupElementGenericTableAvl (Table, h, ud) b q = Some r"
    "if \<exists>x \<in> set ns. CompareRoutine Table b (ud x) = GenericEqual
     then r \<in> set ns \<and> CompareRoutine Table b (ud r) = GenericEqual else r = 0"
    using lookup_finds [OF assms] by blast
  show "p \<in> set ns \<Longrightarrow> CompareRoutine Table b (ud p) = GenericEqual \<Longrightarrow>
      RtlLookupElementGenericTableAvl (Table, h, ud) b q = Some p"
    using r equal_unique [OF assms(1) asc] by (metis (no_types, lifting))
  show "\<forall>x \<in> set ns. CompareRoutine Table b (ud x) \<noteq> GenericEqual \<Longrightarrow>
      RtlLookupElementGenericTableAvl (Table, h, ud) b q = Some 0"
    using r by auto
qed

lemma set_place: "set (place cmp ud b n ns) = insert n (set ns)"
proof -
  have "set (takeWhile P ns) \<union> set (dropWhile P ns) = set ns" for P :: "nat \<Rightarrow> bool"
    by (metis set_append takeWhile_dropWhile_id)
  then show ?thesis by (auto simp: place_def)
qed

text \<open>
  C15: a lookup after an insertion. After \<open>RtlInsertElementGenericTableAvl\<close> has added an element,
  \<open>RtlLookupElementGenericTableAvl\<close> returns the new node for every buffer that compares equal to the
  added one, and for every other buffer what it returned before.
\<close>

theorem insert_then_lookup:
  assumes "compare_ok (CompareRoutine Table)" "avl_table (Table, h, ud) ns" "Suc (length ns) < 2 ^ 32"
    and "n \<noteq> 0" "n \<notin> set ns" "n \<noteq> BalancedRoot Table" "\<forall>x \<in> set ns. CompareRoutine Table b (ud x) \<noteq> GenericEqual"
  shows "\<exists>st. RtlInsertElementGenericTableAvl (Table, h, ud) b n = Some (n, True, st) \<and>
    RtlLookupElementGenericTableAvl st b' q =
      (if CompareRoutine Table b' b = GenericEqual then Some n else RtlLookupElementGenericTableAvl (Table, h, ud) b' q)"
proof -
  let ?cmp = "CompareRoutine Table" and ?ud = "ud(n := b)"
  from insert_places [OF assms(1-6), of b] assms(7) obtain T' h' where
    i: "RtlInsertElementGenericTableAvl (Table, h, ud) b n = Some (n, True, (T', h', ?ud))" "CompareRoutine T' = ?cmp"
    "avl_table (T', h', ?ud) (place ?cmp ud b n ns)" by auto
  have c': "compare_ok (CompareRoutine T')" using assms(1) i(2) by simp
  note look = lookup_value [OF assms(1,2), where b = b' and q = q]
    and look' = lookup_value [OF c' i(3), unfolded i(2) set_place, where b = b' and q = q]
  have "RtlLookupElementGenericTableAvl (T', h', ?ud) b' q =
      (if ?cmp b' b = GenericEqual then Some n else RtlLookupElementGenericTableAvl (Table, h, ud) b' q)"
  proof (cases "?cmp b' b = GenericEqual")
    case True
    then show ?thesis using look'(1) [of n] by simp
  next
    case False
    show ?thesis
    proof (cases "\<exists>x \<in> set ns. ?cmp b' (ud x) = GenericEqual")
      case True
      then obtain x where "x \<in> set ns" "?cmp b' (ud x) = GenericEqual" by blast
      moreover from this have "x \<noteq> n" using assms(5) by blast
      ultimately show ?thesis using look(1) [of x] look'(1) [of x] False by simp
    next
      case no: False
      then show ?thesis using look(2) look'(2) False by auto
    qed
  qed
  then show ?thesis using i(1) by auto
qed

subsection \<open>The depth of the tree\<close>

lemma avl_size: "avl h t \<Longrightarrow> 2 ^ (height t div 2) \<le> size t + 1"
proof (induction t)
  case (Node l a r)
  let ?k = "height (Node l a r) - 2"
  have IH: "2 ^ (height l div 2) \<le> size l + 1" "2 ^ (height r div 2) \<le> size r + 1" using Node by simp_all
  have "?k \<le> height l" "?k \<le> height r" using Node.prems by auto
  then have "2 ^ (?k div 2) \<le> (2 :: nat) ^ (height l div 2)" "2 ^ (?k div 2) \<le> (2 :: nat) ^ (height r div 2)"
    by (intro power_increasing div_le_mono; simp)+
  with IH have "2 ^ (?k div 2) \<le> size l + 1" "2 ^ (?k div 2) \<le> size r + 1" by (blast intro: order_trans)+
  then have s: "2 * 2 ^ (?k div 2) \<le> size (Node l a r) + 1" unfolding tree.size by linarith
  show ?case
  proof (cases "height (Node l a r) = 1")
    case False
    then have "2 \<le> height (Node l a r)" unfolding height_tree.simps by linarith
    then obtain m where m: "height (Node l a r) = 2 + m" using le_Suc_ex by blast
    show ?thesis using s unfolding m by simp
  qed simp
qed simp

text \<open>\<open>DepthOfTree\<close> is the height of the tree, at most \<open>2 * log2 (k + 1) + 1\<close> for \<open>k\<close> elements.\<close>

lemma table_depth:
  assumes "avl_table (Table, h, ud) ns"
  shows "\<exists>t. tree_at h (BalancedRoot Table) (RightChild (h (BalancedRoot Table))) t \<and> inorder t = ns \<and>
    unat (DepthOfTree Table) = height t \<and> 2 ^ (height t div 2) \<le> length ns + 1"
proof -
  obtain t where t: "avl_tree Table h t" "inorder t = ns" using assms by (rule table_tree)
  have l: "length ns < 2 ^ 32" "size t = length ns" using assms by (simp_all add: avl_table.simps flip: t(2))
  have "height t < 2 ^ 32" using height_le_size_tree [of t] l by linarith
  then have "unat (DepthOfTree Table) = height t" using t(1) by (simp add: avl_tree_def unat_of_nat)
  then show ?thesis using t l(2) avl_size [of h t] by (auto simp: avl_tree_def holds_tree_def intro!: exI [of _ t])
qed

subsection \<open>The first of several matching elements\<close>

lemma parent_neq:
  assumes "holds_tree h (Some s) t []" "apart h (Some s) t []" "inorder t = xs @ z # ys"
  shows "Parent (h z) \<noteq> z"
proof -
  from assms obtain l r d where d: "holds_tree h (Some s) (Node l z r) d" "apart h (Some s) (Node l z r) d" by (rule focus_at)
  then obtain par where "tree_at h par z (Node l z r)" "frames_at h (Some s) z par d" by (auto simp: holds_tree_def)
  then show ?thesis using frames_par [of h "Some s" z par d] apart_neq(3,4) [OF d(2)] by auto
qed

lemma first_matching_first:
  assumes "avl_tree Table h t" "inorder t = xs @ p # ys" "graded (CompareRoutine Table) ud b (inorder t)"
    and "CompareRoutine Table b (ud p) = GenericEqual"
  shows "first_matching_loop Table h ud b p =
    Some (hd (filter (\<lambda>x. CompareRoutine Table b (ud x) = GenericEqual) (inorder t)))"
  using assms(2,4)
proof (induction xs arbitrary: p ys rule: rev_induct)
  case Nil
  have "RtlRealPredecessor h p = Some (BalancedRoot Table)" "Parent (h (BalancedRoot Table)) = BalancedRoot Table"
    using real_neighbours [of h "Some (BalancedRoot Table)" t "[]" p ys] assms(1) Nil by (auto simp: avl_tree_def apart_def)
  then show ?case using Nil by (subst first_matching_loop.simps) simp
next
  case (snoc z zs)
  let ?eq = "\<lambda>x. CompareRoutine Table b (ud x) = GenericEqual"
  have t: "holds_tree h (Some (BalancedRoot Table)) t []" "apart h (Some (BalancedRoot Table)) t []"
    using assms(1) by (simp_all add: avl_tree_def)
  have pre: "RtlRealPredecessor h p = Some z" using real_neighbours [OF t snoc.prems(1)] by simp
  have "z \<in> set_tree t" using snoc.prems(1) by (simp flip: set_inorder)
  moreover have "0 \<notin> set_tree t" using t(1) tree_at_notin unfolding holds_tree_def by blast
  ultimately have z: "z \<noteq> 0" "Parent (h z) \<noteq> z"
    using parent_neq [OF t, of zs z "p # ys"] snoc.prems(1) by (metis, simp)
  show ?case
  proof (cases "?eq z")
    case True
    then show ?thesis using snoc.IH [of z "p # ys"] snoc.prems(1) pre z
      by (subst first_matching_loop.simps) simp
  next
    case False
    have g: "graded (CompareRoutine Table) ud b (zs @ z # p # ys)" using assms(3) snoc.prems(1) by simp
    then have "CompareRoutine Table b (ud z) = GenericGreaterThan"
      using snoc.prems(2) False by (cases "CompareRoutine Table b (ud z)") (auto simp: graded_def sorted_wrt_append)
    then have "\<forall>x \<in> set (zs @ [z]). \<not> ?eq x" using g by (auto simp: graded_def sorted_wrt_append)
    then have "filter ?eq (zs @ [z]) = []" by (simp only: filter_empty_conv)
    then have "hd (filter ?eq (inorder t)) = p" using snoc.prems False by simp
    then show ?thesis using pre z False by (subst first_matching_loop.simps) simp
  qed
qed

text \<open>
  With a comparison that lets several elements match a buffer, next to each other,
  \<open>RtlLookupFirstMatchingElementGenericTableAvl\<close> returns the first of them.
\<close>

theorem RtlLookupFirstMatchingElementGenericTableAvl_first:
  assumes "avl_tree Table h t" "NumberGenericTableElements Table = 0 \<longleftrightarrow> t = Leaf"
    and "graded (CompareRoutine Table) ud b (inorder t)"
  shows "RtlLookupFirstMatchingElementGenericTableAvl (Table, h, ud) b q =
    (case filter (\<lambda>x. CompareRoutine Table b (ud x) = GenericEqual) (inorder t) of
       [] \<Rightarrow> Some (0, 0)
     | p # _ \<Rightarrow> Some (p, p))"
proof -
  let ?eq = "\<lambda>x. CompareRoutine Table b (ud x) = GenericEqual"
  obtain res r where r: "RtlpFindAvlTableNodeOrParent Table h ud b q = Some (res, r)" "search_ok (CompareRoutine Table) ud b t res r"
    using find_graded [OF assms] by blast
  show ?thesis
  proof (cases "res = TableFoundNode")
    case True
    then have p: "r \<in> set (inorder t)" "?eq r" using r(2) by simp_all
    then obtain xs ys where "inorder t = xs @ r # ys" by (metis in_set_conv_decomp)
    then have "first_matching_loop Table h ud b r = Some (hd (filter ?eq (inorder t)))"
      using first_matching_first [OF assms(1) _ assms(3) p(2)] by blast
    moreover have "filter ?eq (inorder t) \<noteq> []" using p by (auto simp: filter_empty_conv)
    ultimately show ?thesis using r(1) True by (cases "filter ?eq (inorder t)") auto
  next
    case False
    then have "\<forall>x \<in> set (inorder t). \<not> ?eq x" using search_ok_none [OF r(2)] by simp
    then have "filter ?eq (inorder t) = []" by (simp only: filter_empty_conv)
    then show ?thesis using r(1) False by simp
  qed
qed

section \<open>A table of three elements\<close>

definition compare_nat :: "nat \<Rightarrow> nat \<Rightarrow> RTL_GENERIC_COMPARE_RESULTS" where
  "compare_nat x y = (if x < y then GenericLessThan else if y < x then GenericGreaterThan else GenericEqual)"

lemma compare_nat_ok: "compare_ok compare_nat"
  by (auto simp: compare_ok_def compare_nat_def split: if_splits)

definition three :: "nat RTL_AVL_TABLE" where
  "three = \<lparr>BalancedRoot = 100, OrderedPointer = 0, WhichOrderedElement = 0, NumberGenericTableElements = 3,
     DepthOfTree = 2, RestartKey = 1, DeleteCount = 0, CompareRoutine = compare_nat\<rparr>"

definition three_links :: avl_links where
  "three_links a = (if a = 100 then \<lparr>Parent = 100, LeftChild = 0, RightChild = 2, Balance = 0\<rparr>
     else if a = 2 then \<lparr>Parent = 100, LeftChild = 1, RightChild = 3, Balance = 0\<rparr>
     else \<lparr>Parent = 2, LeftChild = 0, RightChild = 0, Balance = 0\<rparr>)"

definition tens :: "nat \<Rightarrow> nat" where
  "tens a = 10 * a"

lemma three_tree: "avl_tree three three_links (Node (Node Leaf 1 Leaf) 2 (Node Leaf 3 Leaf))"
  by (simp add: avl_tree_def holds_tree_def apart_def three_def three_links_def)

lemma three_table: "avl_table (three, three_links, tens) [1, 2, 3]"
  using three_tree unfolding avl_table.simps
  by (intro conjI exI [of _ "Node (Node Leaf 1 Leaf) 2 (Node Leaf 3 Leaf)"])
    (simp_all add: three_def tens_def compare_nat_def)

lemma three_fields [simp]: "CompareRoutine three = compare_nat" "BalancedRoot three = 100" "RestartKey three = 1"
  "NumberGenericTableElements three = 3"
  by (simp_all add: three_def)

theorem RtlInsertElementGenericTableAvl_places_witness:
  "\<exists>st. RtlInsertElementGenericTableAvl (three, three_links, tens) 25 4 = Some (4, True, st) \<and> avl_table st [1, 2, 4, 3]"
  using RtlInsertElementGenericTableAvl_places [of three three_links tens "[1, 2, 3]" 4 25] three_table compare_nat_ok
  by (auto simp: compare_nat_def tens_def place_def)

theorem RtlDeleteElementGenericTableAvl_removes_witness:
  "\<exists>st. RtlDeleteElementGenericTableAvl (three, three_links, tens) 10 0 = Some (True, Some 1, st) \<and> avl_table st [2, 3]"
proof -
  obtain res freed st xs p ys where r: "RtlDeleteElementGenericTableAvl (three, three_links, tens) 10 0 = Some (res, freed, st)"
    "res" "[1, 2, 3] = xs @ p # ys" "compare_nat 10 (tens p) = GenericEqual" "freed = Some p" "avl_table st (xs @ ys)"
    using RtlDeleteElementGenericTableAvl_removes [of three three_links tens "[1, 2, 3]" 10 0] three_table compare_nat_ok
    by (auto simp: compare_nat_def tens_def)
  have "p = 1" using r(4) by (simp add: compare_nat_def tens_def split: if_splits)
  then show ?thesis using r by (cases xs) (auto simp: Cons_eq_append_conv)
qed

theorem insert_then_lookup_witness:
  "\<exists>st. RtlInsertElementGenericTableAvl (three, three_links, tens) 25 4 = Some (4, True, st) \<and>
    RtlLookupElementGenericTableAvl st 25 0 = Some 4"
  using insert_then_lookup [of three three_links tens "[1, 2, 3]" 4 25 25 0] three_table compare_nat_ok
  by (auto simp: compare_nat_def tens_def)

theorem enumeration_visits_all_witness:
  "visits 4 three three_links 0 = Some [1, 2, 3, 0]"
  using enumeration_visits_all [OF three_table] by (simp add: numeral_eq_Suc del: visits.simps)

theorem enumeration_survives_delete_witness:
  "\<exists>freed T h. RtlDeleteElementGenericTableAvl (three, three_links, tens) 10 0 = Some (True, freed, (T, h, tens)) \<and>
    map_option fst (RtlEnumerateGenericTableAvl T h False) = Some 2"
  using enumeration_survives_delete [of three three_links tens "[]" 1 "[2, 3]" 10 0] three_table compare_nat_ok
  by (auto simp: compare_nat_def tens_def)

theorem RtlLookupFirstMatchingElementGenericTableAvl_first_witness:
  "RtlLookupFirstMatchingElementGenericTableAvl (three\<lparr>CompareRoutine := \<lambda>x y. compare_nat (x div 20) (y div 20)\<rparr>, three_links, tens) 20 0 =
    Some (2, 2)"
proof -
  let ?T = "three\<lparr>CompareRoutine := \<lambda>x y. compare_nat (x div 20) (y div 20)\<rparr>"
  let ?t = "Node (Node Leaf 1 Leaf) (2 :: nat) (Node Leaf 3 Leaf)"
  have "avl_tree ?T three_links ?t" using three_tree by (simp add: avl_tree_def three_def)
  moreover have "graded (CompareRoutine ?T) tens 20 (inorder ?t)" by (simp add: graded_def tens_def compare_nat_def)
  ultimately show ?thesis
    using RtlLookupFirstMatchingElementGenericTableAvl_first [of ?T three_links ?t tens 20 0]
    by (simp add: tens_def compare_nat_def)
qed

section \<open>Every table a program can build\<close>

text \<open>
  An address the allocation may return: \<open>NULL\<close>, or a block that is neither a node of the table
  nor its \<open>BalancedRoot\<close>.
\<close>

definition unused :: "'b RTL_AVL_TABLE \<Rightarrow> avl_links \<Rightarrow> nat \<Rightarrow> bool" where
  "unused Table h n \<longleftrightarrow> n = 0 \<or> n \<noteq> BalancedRoot Table \<and>
     (\<forall>t. tree_at h (BalancedRoot Table) (RightChild (h (BalancedRoot Table))) t \<longrightarrow> n \<notin> set_tree t)"

text \<open>
  The states of a table under any sequence of calls that keep to the assertion on the number of
  elements: it is initialised, elements are inserted and deleted, and it is enumerated.
\<close>

inductive reachable_table :: "('b \<Rightarrow> 'b \<Rightarrow> RTL_GENERIC_COMPARE_RESULTS) \<Rightarrow> 'b avl_state \<Rightarrow> bool" for cmp where
  initialize: "Root \<noteq> 0 \<Longrightarrow> RtlInitializeGenericTableAvl h Root cmp = (Table, h') \<Longrightarrow> reachable_table cmp (Table, h', ud)"
| insert: "reachable_table cmp (Table, h, ud) \<Longrightarrow> NumberGenericTableElements Table \<noteq> MAXULONG - 1 \<Longrightarrow> unused Table h n \<Longrightarrow>
    RtlInsertElementGenericTableAvl (Table, h, ud) b n = Some (p, new, st) \<Longrightarrow> reachable_table cmp st"
| delete: "reachable_table cmp st \<Longrightarrow> RtlDeleteElementGenericTableAvl st b q = Some (res, freed, st') \<Longrightarrow> reachable_table cmp st'"
| enumerate: "reachable_table cmp (Table, h, ud) \<Longrightarrow> RtlEnumerateGenericTableAvl Table h Restart = Some (p, Table') \<Longrightarrow>
    reachable_table cmp (Table', h, ud)"

definition table_inv :: "('b \<Rightarrow> 'b \<Rightarrow> RTL_GENERIC_COMPARE_RESULTS) \<Rightarrow> 'b avl_state \<Rightarrow> nat list \<Rightarrow> bool" where
  "table_inv cmp st ns \<longleftrightarrow> avl_table st ns \<and> CompareRoutine (fst st) = cmp \<and> length ns \<le> 4294967294 \<and>
     RestartKey (fst st) \<in> {0, BalancedRoot (fst st)} \<union> set ns"

lemma avl_table_key: "avl_table (Table\<lparr>RestartKey := k\<rparr>, h, ud) ns \<longleftrightarrow> avl_table (Table, h, ud) ns"
  by (simp add: avl_table.simps avl_tree_def)

lemma enumerate_inv:
  assumes "table_inv cmp (Table, h, ud) ns"
  shows "\<exists>p Table'. RtlEnumerateGenericTableAvl Table h Restart = Some (p, Table') \<and> table_inv cmp (Table', h, ud) ns"
proof -
  define T where "T = (if Restart then Table\<lparr>RestartKey := 0\<rparr> else Table)"
  have T: "table_inv cmp (T, h, ud) ns" using assms by (auto simp: T_def table_inv_def avl_table_key)
  then have tab: "avl_table (T, h, ud) ns" by (simp add: table_inv_def)
  have "\<exists>p k. RtlEnumerateGenericTableWithoutSplayingAvl T h (RestartKey T) = Some (p, k) \<and> k \<in> {0, BalancedRoot T} \<union> set ns"
  proof (cases "ns = []")
    case True
    then show ?thesis using T table_empty [OF tab]
      by (auto simp: RtlEnumerateGenericTableWithoutSplayingAvl_def RtlIsGenericTableEmptyAvl_def table_inv_def)
  next
    case ne: False
    show ?thesis
    proof (cases "RestartKey T \<in> {0, BalancedRoot T}")
      case True
      then show ?thesis using enumerate_first [OF tab _ ne] ne by auto
    next
      case False
      then have "RestartKey T \<in> set ns" using T by (simp add: table_inv_def)
      then obtain xs ys where ns: "ns = xs @ RestartKey T # ys" by (metis in_set_conv_decomp)
      with enumerate_next [of T h ud xs "RestartKey T" ys] tab show ?thesis by (cases ys) auto
    qed
  qed
  then obtain p k where e: "RtlEnumerateGenericTableWithoutSplayingAvl T h (RestartKey T) = Some (p, k)"
    "k \<in> {0, BalancedRoot T} \<union> set ns" by blast
  then have "RtlEnumerateGenericTableAvl Table h Restart = Some (p, T\<lparr>RestartKey := k\<rparr>)"
    by (simp add: RtlEnumerateGenericTableAvl_def T_def Let_def)
  moreover have "table_inv cmp (T\<lparr>RestartKey := k\<rparr>, h, ud) ns" using T e(2) by (simp add: table_inv_def avl_table_key)
  ultimately show ?thesis by blast
qed

lemma delete_inv:
  assumes "compare_ok cmp" "table_inv cmp st ns"
  shows "\<exists>res freed st' ns'. RtlDeleteElementGenericTableAvl st b q = Some (res, freed, st') \<and> table_inv cmp st' ns'"
proof -
  obtain Table h ud where st: "st = (Table, h, ud)" by (cases st)
  have tab: "avl_table (Table, h, ud) ns" "CompareRoutine Table = cmp" using assms(2) by (simp_all add: table_inv_def st)
  note d = delete_removes [of Table h ud ns b q, unfolded tab(2), OF assms(1) tab(1)]
  show ?thesis
  proof (cases "\<exists>x \<in> set ns. cmp b (ud x) = GenericEqual")
    case True
    with d obtain res freed st' xs p ys where r: "RtlDeleteElementGenericTableAvl st b q = Some (res, freed, st')"
      "ns = xs @ p # ys" "avl_table st' (xs @ ys)" "CompareRoutine (fst st') = cmp" "BalancedRoot (fst st') = BalancedRoot Table"
      "RestartKey (fst st') = (if RestartKey Table = p then if xs = [] then BalancedRoot Table else last xs else RestartKey Table)"
      unfolding st by auto
    have "RestartKey (fst st') \<in> {0, BalancedRoot (fst st')} \<union> set (xs @ ys)"
      using assms(2) r(2,5,6) by (auto simp: table_inv_def st split: if_splits)
    then have "table_inv cmp st' (xs @ ys)" using r assms(2) by (simp add: table_inv_def)
    with r(1) show ?thesis by blast
  next
    case False
    with d have "\<exists>res freed. RtlDeleteElementGenericTableAvl st b q = Some (res, freed, st)" unfolding st by auto
    with assms(2) show ?thesis by blast
  qed
qed

lemma table_unused:
  assumes "avl_table (Table, h, ud) ns" "unused Table h n" "n \<noteq> 0"
  shows "n \<notin> set ns" "n \<noteq> BalancedRoot Table"
proof -
  obtain t where t: "avl_tree Table h t" "inorder t = ns" using assms(1) by (rule table_tree)
  then have "tree_at h (BalancedRoot Table) (RightChild (h (BalancedRoot Table))) t"
    by (auto simp: avl_tree_def holds_tree_def)
  with assms(2,3) t(2) show "n \<notin> set ns" "n \<noteq> BalancedRoot Table"
    by (auto simp: unused_def simp flip: set_inorder)
qed

lemma insert_inv:
  assumes "compare_ok cmp" "table_inv cmp (Table, h, ud) ns" "NumberGenericTableElements Table \<noteq> MAXULONG - 1" "unused Table h n"
  shows "\<exists>p new st ns'. RtlInsertElementGenericTableAvl (Table, h, ud) b n = Some (p, new, st) \<and> table_inv cmp st ns'"
proof -
  have tab: "avl_table (Table, h, ud) ns" "CompareRoutine Table = cmp" using assms(2) by (simp_all add: table_inv_def)
  show ?thesis
  proof (cases "n = 0")
    case True
    have "\<exists>p. RtlInsertElementGenericTableAvl (Table, h, ud) b n = Some (p, False, (Table, h, ud))"
      using find_cases [of Table h ud ns b 0, unfolded tab(2), OF assms(1) tab(1)] True by auto
    with assms(2) show ?thesis by blast
  next
    case n: False
    have "length ns \<noteq> 4294967294"
      using tab(1) assms(3) by (auto simp: avl_table.simps)
    then have len: "Suc (length ns) < 2 ^ 32" "Suc (length ns) \<le> 4294967294" using assms(2) by (simp_all add: table_inv_def)
    note i = insert_places [of Table h ud ns n b, unfolded tab(2), OF assms(1) tab(1) len(1) n table_unused [OF tab(1) assms(4) n]]
    show ?thesis
    proof (cases "\<exists>x \<in> set ns. cmp b (ud x) = GenericEqual")
      case True
      with i have "\<exists>p new. RtlInsertElementGenericTableAvl (Table, h, ud) b n = Some (p, new, (Table, h, ud))" by auto
      with assms(2) show ?thesis by blast
    next
      case False
      with i obtain p new st where r: "RtlInsertElementGenericTableAvl (Table, h, ud) b n = Some (p, new, st)"
        "CompareRoutine (fst st) = cmp" "BalancedRoot (fst st) = BalancedRoot Table" "RestartKey (fst st) = RestartKey Table"
        "avl_table st (place cmp ud b n ns)" by auto
      then have "table_inv cmp st (place cmp ud b n ns)" using assms(2) len(2) by (auto simp: table_inv_def set_place)
      with r(1) show ?thesis by blast
    qed
  qed
qed

lemma reachable_table_inv:
  assumes "compare_ok cmp" "reachable_table cmp st"
  shows "\<exists>ns. table_inv cmp st ns"
  using assms(2)
proof induction
  case (initialize Root h Table h' ud)
  then have "avl_table (Table, h', ud) []" using initialize_table [of Root h cmp ud] by simp
  moreover have "CompareRoutine Table = cmp" "RestartKey Table = 0"
    using initialize(2) by (auto simp: RtlInitializeGenericTableAvl_def)
  ultimately show ?case by (intro exI [of _ "[]"]) (simp add: table_inv_def)
next
  case (insert Table h ud n b p new st)
  from insert.IH obtain ns where "table_inv cmp (Table, h, ud) ns" ..
  from insert_inv [OF assms(1) this insert.hyps(2,3), of b] insert.hyps(4) show ?case by auto
next
  case (delete st b q res freed st')
  from delete.IH obtain ns where "table_inv cmp st ns" ..
  from delete_inv [OF assms(1) this, of b q] delete.hyps(2) show ?case by auto
next
  case (enumerate Table h ud Restart p Table')
  from enumerate.IH obtain ns where "table_inv cmp (Table, h, ud) ns" ..
  from enumerate_inv [OF this, of Restart] enumerate.hyps(2) show ?case by auto
qed

text \<open>
  C3: every table a program can build. Under a comparison routine that is a linear preorder, after
  any sequence of calls that initialise a table, insert into it at unused addresses, delete from it
  and enumerate it, the links form a tree of distinct nodes in ascending order of their data,
  the table's count is its size and \<open>DepthOfTree\<close> its height, which is at most
  \<open>2 * log2 (size + 1) + 1\<close>; and every further lookup, deletion, enumeration and insertion ends.
\<close>

theorem reachable_table_sound:
  assumes "compare_ok cmp" and "reachable_table cmp (Table, h, ud)"
  shows "\<exists>t. tree_at h (BalancedRoot Table) (RightChild (h (BalancedRoot Table))) t \<and> distinct (inorder t) \<and>
    ascending cmp ud (inorder t) \<and> unat (NumberGenericTableElements Table) = size t \<and>
    unat (DepthOfTree Table) = height t \<and> 2 ^ (height t div 2) \<le> size t + 1 \<and>
    (\<forall>b q. RtlLookupElementGenericTableAvl (Table, h, ud) b q \<noteq> None) \<and>
    (\<forall>b q. RtlDeleteElementGenericTableAvl (Table, h, ud) b q \<noteq> None) \<and>
    (\<forall>Restart. RtlEnumerateGenericTableAvl Table h Restart \<noteq> None) \<and>
    (\<forall>b n. unused Table h n \<and> NumberGenericTableElements Table \<noteq> MAXULONG - 1 \<longrightarrow>
       RtlInsertElementGenericTableAvl (Table, h, ud) b n \<noteq> None)"
proof -
  obtain ns where inv: "table_inv cmp (Table, h, ud) ns" using reachable_table_inv [OF assms] by blast
  then have tab: "avl_table (Table, h, ud) ns" and cmp: "CompareRoutine Table = cmp" by (simp_all add: table_inv_def)
  obtain t where t: "tree_at h (BalancedRoot Table) (RightChild (h (BalancedRoot Table))) t" "inorder t = ns"
    "unat (DepthOfTree Table) = height t" "2 ^ (height t div 2) \<le> length ns + 1"
    using table_depth [OF tab] by blast
  have ns: "distinct (inorder t)" "ascending cmp ud (inorder t)" "unat (NumberGenericTableElements Table) = size t"
    "2 ^ (height t div 2) \<le> size t + 1"
    using table_nodes(1) [OF tab] tab t(2,4) cmp by (auto simp: avl_table.simps unat_of_nat take_bit_nat_eq_self)
  have ops: "RtlLookupElementGenericTableAvl (Table, h, ud) b q \<noteq> None" "RtlDeleteElementGenericTableAvl (Table, h, ud) b q \<noteq> None"
    "RtlEnumerateGenericTableAvl Table h Restart \<noteq> None"
    "unused Table h n \<Longrightarrow> NumberGenericTableElements Table \<noteq> MAXULONG - 1 \<Longrightarrow> RtlInsertElementGenericTableAvl (Table, h, ud) b n \<noteq> None"
    for b q Restart n
    using lookup_finds [of Table h ud ns b q] assms(1) tab cmp delete_inv [OF assms(1) inv, of b q]
      enumerate_inv [OF inv, of Restart] insert_inv [OF assms(1) inv, of n b] by auto
  show ?thesis using t(1,3) ns ops by (intro exI [of _ t] conjI allI impI) simp_all
qed

theorem reachable_table_sound_witness:
  "\<exists>Table h ud t. RtlInsertElementGenericTableAvl
      (fst (RtlInitializeGenericTableAvl (\<lambda>_. zero_links) 100 compare_nat),
       snd (RtlInitializeGenericTableAvl (\<lambda>_. zero_links) 100 compare_nat), \<lambda>_. 0) 25 4 = Some (4, True, (Table, h, ud)) \<and>
    tree_at h 100 4 t \<and> height t = 1 \<and> RtlDeleteElementGenericTableAvl (Table, h, ud) 25 0 \<noteq> None"
proof -
  let ?T0 = "fst (RtlInitializeGenericTableAvl (\<lambda>_. zero_links) 100 compare_nat)"
  let ?h0 = "snd (RtlInitializeGenericTableAvl (\<lambda>_. zero_links) 100 compare_nat)"
  have r0: "reachable_table compare_nat (?T0, ?h0, \<lambda>_. 0)" by (rule reachable_table.initialize [of 100]) simp_all
  obtain Table h ud where i: "RtlInsertElementGenericTableAvl (?T0, ?h0, \<lambda>_. 0) 25 4 = Some (4, True, (Table, h, ud))"
    and f: "BalancedRoot Table = 100" "RightChild (h 100) = 4" "DepthOfTree Table = 1"
    by (simp add: RtlInitializeGenericTableAvl_def RtlpFindAvlTableNodeOrParent_def RtlpInsertAvlTreeNode_def
        RtlInsertAsRightChild_def link_simps)
  have "NumberGenericTableElements ?T0 \<noteq> MAXULONG - 1" "unused ?T0 ?h0 4"
    by (auto simp: RtlInitializeGenericTableAvl_def unused_def zero_links_def tree_at_null)
  from reachable_table.insert [OF r0 this i] have "reachable_table compare_nat (Table, h, ud)" .
  from reachable_table_sound [OF compare_nat_ok this] obtain t where
    "tree_at h 100 4 t" "height t = 1" "RtlDeleteElementGenericTableAvl (Table, h, ud) 25 0 \<noteq> None"
    unfolding f by auto
  with i show ?thesis by blast
qed

end
