(* ===== verification/Ex_Rundown.thy ===== *)
theory Ex_Rundown
  imports Odyssey_Prelude
begin

text \<open>
  Run-down protection, \<open>ntoskrnl/ex/rundown.c\<close> and the inline fast paths of
  \<open>ntoskrnl/include/internal/ex.h\<close>: many threads take and drop references to an
  object while one thread waits for all references to go away.

  Every routine is split at its interlocked operations. A definition per loop
  body gives what one iteration does to the shared words, and \<open>rundown_step\<close>
  interleaves the iterations of any number of threads.
\<close>

section \<open>The shared words\<close>

abbreviation (input) EX_RUNDOWN_ACTIVE :: ULONG where
  "EX_RUNDOWN_ACTIVE \<equiv> 1"

abbreviation (input) EX_RUNDOWN_COUNT_SHIFT :: nat where
  "EX_RUNDOWN_COUNT_SHIFT \<equiv> 1"

abbreviation (input) EX_RUNDOWN_COUNT_INC :: ULONG where
  "EX_RUNDOWN_COUNT_INC \<equiv> 2"

text \<open>
  \<open>RunRef\<close> is the union of \<open>Count\<close> and \<open>Ptr\<close> in \<open>EX_RUNDOWN_REF\<close>; \<open>WaitCount\<close> and
  \<open>WakeEvent\<close> are the members of the waiter's \<open>EX_RUNDOWN_WAIT_BLOCK\<close>.
\<close>

record EX_RUNDOWN =
  RunRef :: ULONG
  WaitCount :: ULONG
  WakeEvent :: bool

text \<open>The compare-exchange returns the value found.\<close>

definition ExpChangeRundown ::
  "'a EX_RUNDOWN_scheme \<Rightarrow> ULONG \<Rightarrow> ULONG \<Rightarrow> ULONG \<times> 'a EX_RUNDOWN_scheme" where
  "ExpChangeRundown s y z = (RunRef s, if RunRef s = z then s\<lparr>RunRef := y\<rparr> else s)"

definition ExpSetRundown :: "'a EX_RUNDOWN_scheme \<Rightarrow> ULONG \<Rightarrow> 'a EX_RUNDOWN_scheme" where
  "ExpSetRundown s y = s\<lparr>RunRef := y\<rparr>"

section \<open>The routines, one iteration at a time\<close>

text \<open>\<open>Again Value\<close> is another iteration with the value the compare-exchange returned.\<close>

datatype 'r iteration = Return 'r | Again ULONG

definition ExfAcquireRundownProtection ::
  "'a EX_RUNDOWN_scheme \<Rightarrow> ULONG \<Rightarrow> bool iteration \<times> 'a EX_RUNDOWN_scheme" where
  "ExfAcquireRundownProtection s Value =
     (if Value AND EX_RUNDOWN_ACTIVE \<noteq> 0 then (Return False, s)
      else
        (let (NewValue, s) = ExpChangeRundown s (Value + EX_RUNDOWN_COUNT_INC) Value
         in if NewValue = Value then (Return True, s) else (Again NewValue, s)))"

definition ExfAcquireRundownProtectionEx ::
  "'a EX_RUNDOWN_scheme \<Rightarrow> ULONG \<Rightarrow> ULONG \<Rightarrow> bool iteration \<times> 'a EX_RUNDOWN_scheme" where
  "ExfAcquireRundownProtectionEx s Count Value =
     (if Value AND EX_RUNDOWN_ACTIVE \<noteq> 0 then (Return False, s)
      else
        (let (NewValue, s) = ExpChangeRundown s (Value + EX_RUNDOWN_COUNT_INC * Count) Value
         in if NewValue = Value then (Return True, s) else (Again NewValue, s)))"

definition ExfInitializeRundownProtection :: "'a EX_RUNDOWN_scheme \<Rightarrow> 'a EX_RUNDOWN_scheme" where
  "ExfInitializeRundownProtection s = s\<lparr>RunRef := 0\<rparr>"

definition ExfReInitializeRundownProtection :: "'a EX_RUNDOWN_scheme \<Rightarrow> 'a EX_RUNDOWN_scheme" where
  "ExfReInitializeRundownProtection s = ExpSetRundown s 0"

definition ExfRundownCompleted :: "'a EX_RUNDOWN_scheme \<Rightarrow> 'a EX_RUNDOWN_scheme" where
  "ExfRundownCompleted s = ExpSetRundown s EX_RUNDOWN_ACTIVE"

text \<open>
  A release returns whether the caller goes on to set the wake event. With the
  active bit set \<open>Value\<close> is the address of the wait block, the only one there is.
\<close>

definition ExfReleaseRundownProtection ::
  "'a EX_RUNDOWN_scheme \<Rightarrow> ULONG \<Rightarrow> bool iteration \<times> 'a EX_RUNDOWN_scheme" where
  "ExfReleaseRundownProtection s Value =
     (if Value AND EX_RUNDOWN_ACTIVE = 0 then
        (let (NewValue, s) = ExpChangeRundown s (Value - EX_RUNDOWN_COUNT_INC) Value
         in if NewValue = Value then (Return False, s) else (Again NewValue, s))
      else
        (let s = s\<lparr>WaitCount := WaitCount s - 1\<rparr>
         in (Return (WaitCount s = 0), s)))"

definition ExfReleaseRundownProtectionEx ::
  "'a EX_RUNDOWN_scheme \<Rightarrow> ULONG \<Rightarrow> ULONG \<Rightarrow> bool iteration \<times> 'a EX_RUNDOWN_scheme" where
  "ExfReleaseRundownProtectionEx s Count Value =
     (if Value AND EX_RUNDOWN_ACTIVE = 0 then
        (let (NewValue, s) = ExpChangeRundown s (Value - EX_RUNDOWN_COUNT_INC * Count) Value
         in if NewValue = Value then (Return False, s) else (Again NewValue, s))
      else (Return (WaitCount s = Count), s\<lparr>WaitCount := WaitCount s - Count\<rparr>))"

text \<open>
  The fast paths try one compare-exchange with the active bit masked off; they
  return whether it succeeded, and go to the slow path otherwise.
\<close>

definition ExAcquireRundownProtection_fast ::
  "'a EX_RUNDOWN_scheme \<Rightarrow> ULONG \<Rightarrow> bool \<times> 'a EX_RUNDOWN_scheme" where
  "ExAcquireRundownProtection_fast s Value =
     (let (NewValue, s) = ExpChangeRundown s (Value + EX_RUNDOWN_COUNT_INC) Value
      in (NewValue = Value, s))"

definition ExReleaseRundownProtection_fast ::
  "'a EX_RUNDOWN_scheme \<Rightarrow> ULONG \<Rightarrow> bool \<times> 'a EX_RUNDOWN_scheme" where
  "ExReleaseRundownProtection_fast s Value =
     (let (NewValue, s) = ExpChangeRundown s (Value - EX_RUNDOWN_COUNT_INC) Value
      in (NewValue = Value, s))"

text \<open>
  \<open>ExfWaitForRundownProtectionRelease\<close>: the first compare-exchange (\<open>None\<close> when the
  routine returns at once), the write of the wait block, whose event is
  initialised the first time there is something to wait for, and the
  compare-exchange that publishes it. \<open>wb\<close> is the address of the wait block. The publishing step
  returns whether the routine goes on to wait.
\<close>

definition rundown_wait_entry ::
  "'a EX_RUNDOWN_scheme \<Rightarrow> ULONG option \<times> 'a EX_RUNDOWN_scheme" where
  "rundown_wait_entry s =
     (let (Value, s) = ExpChangeRundown s EX_RUNDOWN_ACTIVE 0
      in (if Value = 0 \<or> Value = EX_RUNDOWN_ACTIVE then None else Some Value, s))"

definition rundown_wait_prepare ::
  "'a EX_RUNDOWN_scheme \<Rightarrow> bool \<Rightarrow> ULONG \<Rightarrow> bool \<times> 'a EX_RUNDOWN_scheme" where
  "rundown_wait_prepare s Event Value =
     (let Count = drop_bit EX_RUNDOWN_COUNT_SHIFT Value
      in if Count \<noteq> 0 \<and> \<not> Event then (True, s\<lparr>WakeEvent := False, WaitCount := Count\<rparr>)
         else (Event, s\<lparr>WaitCount := Count\<rparr>))"

definition rundown_wait_publish ::
  "'a EX_RUNDOWN_scheme \<Rightarrow> ULONG \<Rightarrow> ULONG \<Rightarrow> bool iteration \<times> 'a EX_RUNDOWN_scheme" where
  "rundown_wait_publish s wb Value =
     (let (NewValue, s) = ExpChangeRundown s (wb OR EX_RUNDOWN_ACTIVE) Value
      in if NewValue = Value then (Return (drop_bit EX_RUNDOWN_COUNT_SHIFT Value \<noteq> 0), s)
         else (Again NewValue, s))"

section \<open>Interleaving\<close>

text \<open>
  Where a thread stands between two interlocked operations; the words are the
  local variables it carries.
\<close>

datatype rundown_pc =
    Idle
  | AcquireFast ULONG
  | Acquire ULONG
  | AcquireEx ULONG ULONG
  | ReleaseFast ULONG
  | Release ULONG
  | ReleaseEx ULONG ULONG
  | SetWakeEvent
  | WaitLoop bool ULONG
  | WaitPublish bool ULONG
  | WaitEvent

text \<open>
  \<open>held\<close> counts the references that callers hold and have not yet passed to a
  release, \<open>started\<close> and \<open>completed\<close> record that the wait was called and has
  returned.
\<close>

record rundown_system = EX_RUNDOWN +
  pcs :: "rundown_pc list"
  held :: nat
  started :: bool
  completed :: bool

definition goto :: "nat \<Rightarrow> rundown_pc \<Rightarrow> rundown_system \<Rightarrow> rundown_system" where
  "goto i pc s = s\<lparr>pcs := (pcs s)[i := pc]\<rparr>"

fun acquired :: "nat \<Rightarrow> (ULONG \<Rightarrow> rundown_pc) \<Rightarrow> nat \<Rightarrow> bool iteration \<times> rundown_system \<Rightarrow> rundown_system" where
  "acquired i loop n (Return True, s) = goto i Idle (s\<lparr>held := held s + n\<rparr>)"
| "acquired i loop n (Return False, s) = goto i Idle s"
| "acquired i loop n (Again Value, s) = goto i (loop Value) s"

fun released :: "nat \<Rightarrow> (ULONG \<Rightarrow> rundown_pc) \<Rightarrow> bool iteration \<times> rundown_system \<Rightarrow> rundown_system" where
  "released i loop (Return True, s) = goto i SetWakeEvent s"
| "released i loop (Return False, s) = goto i Idle s"
| "released i loop (Again Value, s) = goto i (loop Value) s"

text \<open>
  One atomic action of thread \<open>i\<close>. A caller releases references it holds, and the
  wait is called once.
\<close>

inductive rundown_step :: "ULONG \<Rightarrow> rundown_system \<Rightarrow> rundown_system \<Rightarrow> bool" for wb where
  call_acquire_fast: "i < length (pcs s) \<Longrightarrow> pcs s ! i = Idle \<Longrightarrow>
    rundown_step wb s (goto i (AcquireFast (RunRef s AND NOT EX_RUNDOWN_ACTIVE)) s)"
| acquire_fast_hit: "i < length (pcs s) \<Longrightarrow> pcs s ! i = AcquireFast v \<Longrightarrow>
    ExAcquireRundownProtection_fast s v = (True, s') \<Longrightarrow>
    rundown_step wb s (goto i Idle (s'\<lparr>held := held s' + 1\<rparr>))"
| acquire_fast_miss: "i < length (pcs s) \<Longrightarrow> pcs s ! i = AcquireFast v \<Longrightarrow>
    ExAcquireRundownProtection_fast s v = (False, s') \<Longrightarrow>
    rundown_step wb s (goto i (Acquire (RunRef s')) s')"
| call_acquire: "i < length (pcs s) \<Longrightarrow> pcs s ! i = Idle \<Longrightarrow>
    rundown_step wb s (goto i (Acquire (RunRef s)) s)"
| acquire: "i < length (pcs s) \<Longrightarrow> pcs s ! i = Acquire v \<Longrightarrow>
    rundown_step wb s (acquired i Acquire 1 (ExfAcquireRundownProtection s v))"
| call_acquire_ex: "i < length (pcs s) \<Longrightarrow> pcs s ! i = Idle \<Longrightarrow>
    rundown_step wb s (goto i (AcquireEx n (RunRef s)) s)"
| acquire_ex: "i < length (pcs s) \<Longrightarrow> pcs s ! i = AcquireEx n v \<Longrightarrow>
    rundown_step wb s (acquired i (AcquireEx n) (unat n) (ExfAcquireRundownProtectionEx s n v))"
| call_release_fast: "i < length (pcs s) \<Longrightarrow> pcs s ! i = Idle \<Longrightarrow> 1 \<le> held s \<Longrightarrow>
    rundown_step wb s (goto i (ReleaseFast (RunRef s AND NOT EX_RUNDOWN_ACTIVE)) (s\<lparr>held := held s - 1\<rparr>))"
| release_fast_hit: "i < length (pcs s) \<Longrightarrow> pcs s ! i = ReleaseFast v \<Longrightarrow>
    ExReleaseRundownProtection_fast s v = (True, s') \<Longrightarrow>
    rundown_step wb s (goto i Idle s')"
| release_fast_miss: "i < length (pcs s) \<Longrightarrow> pcs s ! i = ReleaseFast v \<Longrightarrow>
    ExReleaseRundownProtection_fast s v = (False, s') \<Longrightarrow>
    rundown_step wb s (goto i (Release (RunRef s')) s')"
| call_release: "i < length (pcs s) \<Longrightarrow> pcs s ! i = Idle \<Longrightarrow> 1 \<le> held s \<Longrightarrow>
    rundown_step wb s (goto i (Release (RunRef s)) (s\<lparr>held := held s - 1\<rparr>))"
| release: "i < length (pcs s) \<Longrightarrow> pcs s ! i = Release v \<Longrightarrow>
    rundown_step wb s (released i Release (ExfReleaseRundownProtection s v))"
| call_release_ex: "i < length (pcs s) \<Longrightarrow> pcs s ! i = Idle \<Longrightarrow> 0 < n \<Longrightarrow> unat n \<le> held s \<Longrightarrow>
    rundown_step wb s (goto i (ReleaseEx n (RunRef s)) (s\<lparr>held := held s - unat n\<rparr>))"
| release_ex: "i < length (pcs s) \<Longrightarrow> pcs s ! i = ReleaseEx n v \<Longrightarrow>
    rundown_step wb s (released i (ReleaseEx n) (ExfReleaseRundownProtectionEx s n v))"
| set_wake_event: "i < length (pcs s) \<Longrightarrow> pcs s ! i = SetWakeEvent \<Longrightarrow>
    rundown_step wb s (goto i Idle (s\<lparr>WakeEvent := True\<rparr>))"
| wait_return: "i < length (pcs s) \<Longrightarrow> pcs s ! i = Idle \<Longrightarrow> \<not> started s \<Longrightarrow>
    rundown_wait_entry s = (None, s') \<Longrightarrow>
    rundown_step wb s (s'\<lparr>started := True, completed := True\<rparr>)"
| wait_enter: "i < length (pcs s) \<Longrightarrow> pcs s ! i = Idle \<Longrightarrow> \<not> started s \<Longrightarrow>
    rundown_wait_entry s = (Some v, s') \<Longrightarrow>
    rundown_step wb s (goto i (WaitLoop False v) (s'\<lparr>started := True\<rparr>))"
| wait_prepare: "i < length (pcs s) \<Longrightarrow> pcs s ! i = WaitLoop ev v \<Longrightarrow>
    rundown_wait_prepare s ev v = (ev', s') \<Longrightarrow>
    rundown_step wb s (goto i (WaitPublish ev' v) s')"
| wait_again: "i < length (pcs s) \<Longrightarrow> pcs s ! i = WaitPublish ev v \<Longrightarrow>
    rundown_wait_publish s wb v = (Again v', s') \<Longrightarrow>
    rundown_step wb s (goto i (WaitLoop ev v') s')"
| wait_nothing_left: "i < length (pcs s) \<Longrightarrow> pcs s ! i = WaitPublish ev v \<Longrightarrow>
    rundown_wait_publish s wb v = (Return False, s') \<Longrightarrow>
    rundown_step wb s (goto i Idle (s'\<lparr>completed := True\<rparr>))"
| wait_block: "i < length (pcs s) \<Longrightarrow> pcs s ! i = WaitPublish ev v \<Longrightarrow>
    rundown_wait_publish s wb v = (Return True, s') \<Longrightarrow>
    rundown_step wb s (goto i WaitEvent s')"
| wait_wake: "i < length (pcs s) \<Longrightarrow> pcs s ! i = WaitEvent \<Longrightarrow> WakeEvent s \<Longrightarrow>
    rundown_step wb s (goto i Idle (s\<lparr>WakeEvent := False, completed := True\<rparr>))"

section \<open>The invariant\<close>

text \<open>
  \<open>refs\<close> are the references all callers hold: those of \<open>held\<close> and those a release
  in flight has not given back yet.
\<close>

fun pc_refs :: "rundown_pc \<Rightarrow> nat" where
  "pc_refs (ReleaseFast v) = 1"
| "pc_refs (Release v) = 1"
| "pc_refs (ReleaseEx n v) = unat n"
| "pc_refs _ = 0"

fun pc_unpublished :: "rundown_pc \<Rightarrow> nat" where
  "pc_unpublished (WaitLoop ev v) = 1"
| "pc_unpublished (WaitPublish ev v) = 1"
| "pc_unpublished _ = 0"

definition count_pcs :: "(rundown_pc \<Rightarrow> nat) \<Rightarrow> rundown_system \<Rightarrow> nat" where
  "count_pcs f s = sum_list (map f (pcs s))"

definition refs :: "rundown_system \<Rightarrow> nat" where
  "refs s = held s + count_pcs pc_refs s"

abbreviation signals :: "rundown_system \<Rightarrow> nat" where
  "signals \<equiv> count_pcs (\<lambda>pc. if pc = SetWakeEvent then 1 else 0)"

abbreviation blocked :: "rundown_system \<Rightarrow> nat" where
  "blocked \<equiv> count_pcs (\<lambda>pc. if pc = WaitEvent then 1 else 0)"

definition active :: "ULONG \<Rightarrow> bool" where
  "active v \<longleftrightarrow> v AND EX_RUNDOWN_ACTIVE \<noteq> 0"

fun pc_ok :: "rundown_system \<Rightarrow> rundown_pc \<Rightarrow> bool" where
  "pc_ok s (AcquireFast v) \<longleftrightarrow> \<not> active v"
| "pc_ok s (ReleaseFast v) \<longleftrightarrow> \<not> active v"
| "pc_ok s (Release v) \<longleftrightarrow> (active v \<longrightarrow> active (RunRef s))"
| "pc_ok s (ReleaseEx n v) \<longleftrightarrow> 0 < n \<and> (active v \<longrightarrow> active (RunRef s))"
| "pc_ok s (WaitLoop ev v) \<longleftrightarrow> \<not> active v \<and> (ev \<longrightarrow> \<not> WakeEvent s)"
| "pc_ok s (WaitPublish ev v) \<longleftrightarrow> \<not> active v \<and> (ev \<longrightarrow> \<not> WakeEvent s) \<and>
     WaitCount s = drop_bit EX_RUNDOWN_COUNT_SHIFT v \<and> (WaitCount s \<noteq> 0 \<longrightarrow> ev)"
| "pc_ok s _ \<longleftrightarrow> True"

text \<open>The value of the word while \<open>r\<close> references are out and no rundown is active.\<close>

definition ref_word :: "nat \<Rightarrow> ULONG" where
  "ref_word r = of_nat (2 * r)"

definition rundown_inv :: "rundown_system \<Rightarrow> bool" where
  "rundown_inv s \<longleftrightarrow>
     refs s < 2147483648 \<and> (\<forall>j<length (pcs s). pc_ok s (pcs s ! j)) \<and>
     (if \<not> active (RunRef s) then
        RunRef s = ref_word (refs s) \<and> \<not> completed s \<and> signals s = 0 \<and> blocked s = 0 \<and>
        count_pcs pc_unpublished s = (if started s then 1 else 0)
      else
        started s \<and> count_pcs pc_unpublished s = 0 \<and>
        (if completed s then refs s = 0 \<and> signals s = 0 \<and> blocked s = 0
         else unat (WaitCount s) = refs s \<and> blocked s = 1 \<and>
           signals s = (if refs s = 0 \<and> \<not> WakeEvent s then 1 else 0) \<and>
           (WakeEvent s \<longrightarrow> refs s = 0)))"

lemma count_pcs_goto:
  assumes "i < length (pcs s)" "pcs s ! i = old"
  shows "count_pcs f (goto i new s) + f old = count_pcs f s + f new"
  using sum_list_map_update [OF assms(1), of f new] assms(2) by (simp add: count_pcs_def goto_def)

lemma count_pcs_ge: "i < length (pcs s) \<Longrightarrow> f (pcs s ! i) \<le> count_pcs f s"
  unfolding count_pcs_def by (metis elem_le_sum_list length_map nth_map)

lemma count_pcs_ge2:
  assumes "i < length (pcs s)" "j < length (pcs s)" "i \<noteq> j"
  shows "f (pcs s ! i) + f (pcs s ! j) \<le> count_pcs f s"
proof -
  have "sum_list (map f (pcs s)) = (\<Sum>k<length (pcs s). f (pcs s ! k))"
    by (simp add: sum_list_sum_nth atLeast0LessThan)
  also have "\<dots> \<ge> (\<Sum>k\<in>{i, j}. f (pcs s ! k))"
    using assms by (intro sum_mono2) auto
  finally show ?thesis using assms(3) by (simp add: count_pcs_def)
qed

section \<open>Every step keeps the invariant\<close>

definition phase_ok :: "rundown_system \<Rightarrow> nat \<Rightarrow> nat \<Rightarrow> nat \<Rightarrow> nat \<Rightarrow> bool" where
  "phase_ok s r u sg b \<longleftrightarrow> r < 2147483648 \<and>
     (if \<not> active (RunRef s) then
        RunRef s = ref_word r \<and> \<not> completed s \<and> sg = 0 \<and> b = 0 \<and> u = (if started s then 1 else 0)
      else
        started s \<and> u = 0 \<and>
        (if completed s then r = 0 \<and> sg = 0 \<and> b = 0
         else unat (WaitCount s) = r \<and> b = 1 \<and> sg = (if r = 0 \<and> \<not> WakeEvent s then 1 else 0) \<and>
           (WakeEvent s \<longrightarrow> r = 0)))"

lemma rundown_inv_phase:
  "rundown_inv s \<longleftrightarrow> (\<forall>j<length (pcs s). pc_ok s (pcs s ! j)) \<and>
     phase_ok s (refs s) (count_pcs pc_unpublished s) (signals s) (blocked s)"
  unfolding rundown_inv_def phase_ok_def by blast

lemma pc_ok_keep:
  assumes "pc_ok s pc" "active (RunRef s) \<longrightarrow> active (RunRef s')"
    and "WaitCount s' = WaitCount s \<and> WakeEvent s' = WakeEvent s \<or> pc_unpublished pc = 0"
  shows "pc_ok s' pc"
  using assms by (cases pc) auto

lemma goto_simps [simp]:
  "RunRef (goto i pc s) = RunRef s" "WaitCount (goto i pc s) = WaitCount s"
  "WakeEvent (goto i pc s) = WakeEvent s" "held (goto i pc s) = held s"
  "started (goto i pc s) = started s" "completed (goto i pc s) = completed s"
  "pcs (goto i pc s) = (pcs s)[i := pc]"
  by (simp_all add: goto_def)

lemma goto_inv:
  assumes inv: "rundown_inv s" and i: "i < length (pcs s)" "pcs s ! i = old"
    and pcs: "pcs s' = pcs s" and act: "active (RunRef s) \<longrightarrow> active (RunRef s')"
    and same: "WaitCount s' = WaitCount s \<and> WakeEvent s' = WakeEvent s \<or>
      count_pcs pc_unpublished s \<le> pc_unpublished old"
    and new: "pc_ok s' new"
    and phase: "phase_ok s' (held s' + (count_pcs pc_refs s - pc_refs old + pc_refs new))
      (count_pcs pc_unpublished s - pc_unpublished old + pc_unpublished new)
      (signals s - (if old = SetWakeEvent then 1 else 0) + (if new = SetWakeEvent then 1 else 0))
      (blocked s - (if old = WaitEvent then 1 else 0) + (if new = WaitEvent then 1 else 0))"
  shows "rundown_inv (goto i new s')"
proof -
  have i': "i < length (pcs s')" "pcs s' ! i = old" using i pcs by simp_all
  have cnt: "count_pcs f (goto i new s') = count_pcs f s - f old + f new" for f
    using count_pcs_goto [OF i', of f new] count_pcs_ge [OF i(1), of f] i(2) pcs
    by (simp add: count_pcs_def)
  have keep: "pc_ok s' pc \<Longrightarrow> pc_ok (goto i new s') pc" for pc
    by (erule pc_ok_keep) simp_all
  have "pc_ok (goto i new s') (pcs (goto i new s') ! j)" if j: "j < length (pcs (goto i new s'))" for j
  proof (cases "j = i")
    case True
    with i' keep [OF new] show ?thesis by simp
  next
    case False
    with j pcs have j': "j < length (pcs s)" by simp
    have okj: "pc_ok s (pcs s ! j)"
      using inv j' unfolding rundown_inv_phase by blast
    have "pc_unpublished (pcs s ! j) = 0" if "count_pcs pc_unpublished s \<le> pc_unpublished old"
      using count_pcs_ge2 [OF i(1) j', of pc_unpublished] False that i(2) by simp
    with same have "WaitCount s' = WaitCount s \<and> WakeEvent s' = WakeEvent s \<or>
        pc_unpublished (pcs s ! j) = 0"
      by (elim disjE) simp_all
    with okj act have "pc_ok s' (pcs s ! j)"
      by (rule pc_ok_keep)
    from keep [OF this] show ?thesis
      using False pcs by simp
  qed
  moreover have "phase_ok (goto i new s') (refs (goto i new s')) (count_pcs pc_unpublished (goto i new s'))
      (signals (goto i new s')) (blocked (goto i new s'))"
    using phase unfolding refs_def cnt phase_ok_def goto_simps .
  ultimately show ?thesis by (simp add: rundown_inv_phase)
qed

lemma active_iff_bit: "active v \<longleftrightarrow> bit v 0"
  by (simp add: active_def and_one_eq mod_2_eq_odd bit_0)

lemma not_active_ref_word [simp]: "\<not> active (ref_word n)"
  by (simp only: active_iff_bit ref_word_def bit_of_nat_iff bit_0) simp

lemma active_or [simp]: "active (v OR 1)"
  by (simp only: active_iff_bit bit_or_iff bit_1_iff) simp

lemma active_1 [simp]: "active 1"
  by (simp add: active_def)

lemma active_masked [simp]: "\<not> active (v AND - 2)"
proof -
  have "\<not> active (v AND NOT 1)"
    by (simp only: active_iff_bit bit_and_iff bit_not_iff bit_1_iff) simp
  then show ?thesis by simp
qed

lemma half_even: "n < 2147483648 \<Longrightarrow> unat (drop_bit 1 (ref_word n)) = n"
  by (simp add: ref_word_def drop_bit_eq_div unat_div unat_of_nat del: of_nat_mult)

lemma inv_facts:
  assumes "rundown_inv s" "i < length (pcs s)" "pcs s ! i = pc"
  shows "pc_ok s pc" "pc_refs pc \<le> count_pcs pc_refs s" "pc_unpublished pc \<le> count_pcs pc_unpublished s"
    "phase_ok s (held s + count_pcs pc_refs s) (count_pcs pc_unpublished s) (signals s) (blocked s)"
    "(if pc = SetWakeEvent then 1 else 0) \<le> signals s" "(if pc = WaitEvent then 1 else 0) \<le> blocked s"
  using assms count_pcs_ge [OF assms(2), of pc_refs] count_pcs_ge [OF assms(2), of pc_unpublished]
    count_pcs_ge [OF assms(2), of "\<lambda>pc. if pc = SetWakeEvent then 1 else 0"]
    count_pcs_ge [OF assms(2), of "\<lambda>pc. if pc = WaitEvent then 1 else 0"]
  by (auto simp: rundown_inv_phase refs_def)

lemma double_add: "ref_word (a + unat n) = ref_word a + 2 * n"
  by (simp add: ref_word_def distrib_left)

lemma double_diff: "unat n \<le> a \<Longrightarrow> ref_word (a - unat n) = ref_word a - 2 * n"
  by (simp add: ref_word_def right_diff_distrib of_nat_diff)

text \<open>Moving between operations without touching the shared words.\<close>

lemma inv_local_move:
  assumes inv: "rundown_inv s" and i: "i < length (pcs s)" "pcs s ! i = old"
    and zero: "pc_unpublished old = 0" "pc_unpublished new = 0" "old \<noteq> SetWakeEvent" "new \<noteq> SetWakeEvent"
      "old \<noteq> WaitEvent" "new \<noteq> WaitEvent"
    and h: "h + pc_refs new = held s + pc_refs old" and ok: "pc_ok s new"
  shows "rundown_inv (goto i new (s\<lparr>held := h\<rparr>))"
proof (rule goto_inv [OF inv i])
  note F = inv_facts [OF inv i]
  have "h + (count_pcs pc_refs s - pc_refs old + pc_refs new) = held s + count_pcs pc_refs s"
    using F(2) h by simp
  with F(4) zero show "phase_ok (s\<lparr>held := h\<rparr>)
      (held (s\<lparr>held := h\<rparr>) + (count_pcs pc_refs s - pc_refs old + pc_refs new))
      (count_pcs pc_unpublished s - pc_unpublished old + pc_unpublished new)
      (signals s - (if old = SetWakeEvent then 1 else 0) + (if new = SetWakeEvent then 1 else 0))
      (blocked s - (if old = WaitEvent then 1 else 0) + (if new = WaitEvent then 1 else 0))"
    by (simp add: phase_ok_def)
  show "pc_ok (s\<lparr>held := h\<rparr>) new" using ok by (cases new) auto
qed simp_all

text \<open>A successful compare-exchange that takes or drops \<open>n\<close> references.\<close>

lemma inv_take:
  assumes inv: "rundown_inv s" and i: "i < length (pcs s)" "pcs s ! i = old"
    and old: "pc_unpublished old = 0" "pc_refs old = 0" "old \<noteq> SetWakeEvent" "old \<noteq> WaitEvent"
    and v: "RunRef s = v" "\<not> active v" and bnd: "refs s + unat n < 2147483648"
  shows "rundown_inv (goto i Idle (s\<lparr>RunRef := v + 2 * n, held := held s + unat n\<rparr>))"
proof (rule goto_inv [OF inv i])
  note F = inv_facts [OF inv i]
  have v': "v + 2 * n = ref_word (held s + count_pcs pc_refs s + unat n)"
    using F(4) v unfolding double_add by (simp add: phase_ok_def)
  show "phase_ok (s\<lparr>RunRef := v + 2 * n, held := held s + unat n\<rparr>)
      (held (s\<lparr>RunRef := v + 2 * n, held := held s + unat n\<rparr>) +
        (count_pcs pc_refs s - pc_refs old + pc_refs Idle))
      (count_pcs pc_unpublished s - pc_unpublished old + pc_unpublished Idle)
      (signals s - (if old = SetWakeEvent then 1 else 0) + (if Idle = SetWakeEvent then 1 else 0))
      (blocked s - (if old = WaitEvent then 1 else 0) + (if Idle = WaitEvent then 1 else 0))"
    using F(4) v old bnd unfolding v' by (simp add: phase_ok_def refs_def add_ac)
qed (use v in simp_all)

lemma inv_drop:
  assumes inv: "rundown_inv s" and i: "i < length (pcs s)" "pcs s ! i = old"
    and old: "pc_unpublished old = 0" "pc_refs old = unat n" "old \<noteq> SetWakeEvent" "old \<noteq> WaitEvent"
    and v: "RunRef s = v" "\<not> active v"
  shows "rundown_inv (goto i Idle (s\<lparr>RunRef := v - 2 * n\<rparr>))"
proof (rule goto_inv [OF inv i])
  note F = inv_facts [OF inv i]
  have le: "unat n \<le> held s + count_pcs pc_refs s" using F(2) old(2) by simp
  have v': "v - 2 * n = ref_word (held s + count_pcs pc_refs s - unat n)"
    using F(4) v unfolding double_diff [OF le] by (simp add: phase_ok_def)
  have "held s + (count_pcs pc_refs s - unat n) = held s + count_pcs pc_refs s - unat n"
    using F(2) old(2) by simp
  then show "phase_ok (s\<lparr>RunRef := v - 2 * n\<rparr>)
      (held (s\<lparr>RunRef := v - 2 * n\<rparr>) + (count_pcs pc_refs s - pc_refs old + pc_refs Idle))
      (count_pcs pc_unpublished s - pc_unpublished old + pc_unpublished Idle)
      (signals s - (if old = SetWakeEvent then 1 else 0) + (if Idle = SetWakeEvent then 1 else 0))
      (blocked s - (if old = WaitEvent then 1 else 0) + (if Idle = WaitEvent then 1 else 0))"
    using F(4) v old unfolding v' by (simp add: phase_ok_def) linarith
qed (use v in simp_all)

text \<open>A release that finds the wait block gives back its references there.\<close>

lemma inv_give_back:
  assumes inv: "rundown_inv s" and i: "i < length (pcs s)" "pcs s ! i = old"
    and old: "pc_unpublished old = 0" "pc_refs old = unat n" "0 < unat n" "old \<noteq> SetWakeEvent" "old \<noteq> WaitEvent"
    and act: "active (RunRef s)"
  shows "rundown_inv (goto i (if WaitCount s = n then SetWakeEvent else Idle)
      (s\<lparr>WaitCount := WaitCount s - n\<rparr>))"
proof (rule goto_inv [OF inv i])
  note F = inv_facts [OF inv i]
  have P: "unat (WaitCount s) = held s + count_pcs pc_refs s" "blocked s = 1" "signals s = 0"
    "\<not> WakeEvent s" "\<not> completed s" "started s" "count_pcs pc_unpublished s = 0"
    "held s + count_pcs pc_refs s < 2147483648"
    using F(2,4) old(2,3) act by (auto simp: phase_ok_def split: if_splits)
  have le: "unat n \<le> unat (WaitCount s)" using P(1) F(2) old(2) by simp
  have w: "unat (WaitCount s - n) = held s + (count_pcs pc_refs s - unat n)"
    using P(1) F(2) old(2) by (simp add: unat_sub_small [OF le])
  have z: "WaitCount s = n \<longleftrightarrow> held s + (count_pcs pc_refs s - unat n) = 0"
    using P(1) F(2) old(2) by (auto simp: word_unat_eq_iff)
  show "phase_ok (s\<lparr>WaitCount := WaitCount s - n\<rparr>)
      (held (s\<lparr>WaitCount := WaitCount s - n\<rparr>) + (count_pcs pc_refs s - pc_refs old +
        pc_refs (if WaitCount s = n then SetWakeEvent else Idle)))
      (count_pcs pc_unpublished s - pc_unpublished old +
        pc_unpublished (if WaitCount s = n then SetWakeEvent else Idle))
      (signals s - (if old = SetWakeEvent then 1 else 0) +
        (if (if WaitCount s = n then SetWakeEvent else Idle) = SetWakeEvent then 1 else 0))
      (blocked s - (if old = WaitEvent then 1 else 0) +
        (if (if WaitCount s = n then SetWakeEvent else Idle) = WaitEvent then 1 else 0))"
    using P old act w by (simp add: phase_ok_def z) linarith
  show "WaitCount (s\<lparr>WaitCount := WaitCount s - n\<rparr>) = WaitCount s \<and>
      WakeEvent (s\<lparr>WaitCount := WaitCount s - n\<rparr>) = WakeEvent s \<or>
      count_pcs pc_unpublished s \<le> pc_unpublished old"
    using P(7) by simp
qed simp_all

lemma inv_signal:
  assumes inv: "rundown_inv s" and i: "i < length (pcs s)" "pcs s ! i = SetWakeEvent"
  shows "rundown_inv (goto i Idle (s\<lparr>WakeEvent := True\<rparr>))"
proof (rule goto_inv [OF inv i])
  note F = inv_facts [OF inv i]
  show "phase_ok (s\<lparr>WakeEvent := True\<rparr>)
      (held (s\<lparr>WakeEvent := True\<rparr>) + (count_pcs pc_refs s - pc_refs SetWakeEvent + pc_refs Idle))
      (count_pcs pc_unpublished s - pc_unpublished SetWakeEvent + pc_unpublished Idle)
      (signals s - (if SetWakeEvent = SetWakeEvent then 1 else 0) + (if Idle = SetWakeEvent then 1 else 0))
      (blocked s - (if SetWakeEvent = WaitEvent then 1 else 0) + (if Idle = WaitEvent then 1 else 0))"
    using F(4,5) by (auto simp: phase_ok_def split: if_splits)
  show "WaitCount (s\<lparr>WakeEvent := True\<rparr>) = WaitCount s \<and>
      WakeEvent (s\<lparr>WakeEvent := True\<rparr>) = WakeEvent s \<or>
      count_pcs pc_unpublished s \<le> pc_unpublished SetWakeEvent"
    using F(4,5) by (auto simp: phase_ok_def split: if_splits)
qed simp_all

lemma ref_word_0_iff: "r < 2147483648 \<Longrightarrow> ref_word r = 0 \<longleftrightarrow> r = 0"
  by (simp add: ref_word_def word_unat_eq_iff unat_of_nat del: of_nat_mult)

lemma goto_same: "pcs s ! i = pc \<Longrightarrow> goto i pc s = s"
  by (auto simp: goto_def)

lemma inv_wait_return:
  assumes inv: "rundown_inv s" and i: "i < length (pcs s)" "pcs s ! i = Idle"
    and st: "\<not> started s" and e: "rundown_wait_entry s = (None, s')"
  shows "rundown_inv (s'\<lparr>started := True, completed := True\<rparr>)"
proof -
  note F = inv_facts [OF inv i]
  have na: "\<not> active (RunRef s)" using F(4) st by (auto simp: phase_ok_def)
  then have "RunRef s = 0" and s': "s' = s\<lparr>RunRef := 1\<rparr>"
    using e by (auto simp: rundown_wait_entry_def ExpChangeRundown_def split: if_splits)
  then have z: "held s + count_pcs pc_refs s = 0"
    using F(4) na by (simp add: phase_ok_def ref_word_0_iff)
  have "rundown_inv (goto i Idle (s'\<lparr>started := True, completed := True\<rparr>))"
    by (rule goto_inv [OF inv i]) (use F(4) na st z in \<open>simp_all add: s' phase_ok_def\<close>)
  then show ?thesis using i(2) s' by (simp add: goto_same)
qed

lemma inv_wait_enter:
  assumes inv: "rundown_inv s" and i: "i < length (pcs s)" "pcs s ! i = Idle"
    and st: "\<not> started s" and e: "rundown_wait_entry s = (Some v, s')"
  shows "rundown_inv (goto i (WaitLoop False v) (s'\<lparr>started := True\<rparr>))"
proof -
  note F = inv_facts [OF inv i]
  have na: "\<not> active (RunRef s)" using F(4) st by (auto simp: phase_ok_def)
  have s': "s' = s" "v = RunRef s"
    using e by (auto simp: rundown_wait_entry_def ExpChangeRundown_def split: if_splits)
  show ?thesis
    by (rule goto_inv [OF inv i]) (use F(4) na st in \<open>simp_all add: s' phase_ok_def\<close>)
qed

lemma inv_wait_prepare:
  assumes inv: "rundown_inv s" and i: "i < length (pcs s)" "pcs s ! i = WaitLoop ev v"
    and p: "rundown_wait_prepare s ev v = (ev', s')"
  shows "rundown_inv (goto i (WaitPublish ev' v) s')"
proof -
  note F = inv_facts [OF inv i]
  have na: "\<not> active (RunRef s)" "count_pcs pc_unpublished s = 1"
    using F(3,4) by (auto simp: phase_ok_def split: if_splits)
  have s': "pcs s' = pcs s" "RunRef s' = RunRef s" "held s' = held s" "started s' = started s"
    "completed s' = completed s" "pc_ok s' (WaitPublish ev' v)"
    using p F(1) by (auto simp: rundown_wait_prepare_def Let_def split: if_splits)
  show ?thesis
  proof (rule goto_inv [OF inv i])
    show "phase_ok s' (held s' + (count_pcs pc_refs s - pc_refs (WaitLoop ev v) + pc_refs (WaitPublish ev' v)))
      (count_pcs pc_unpublished s - pc_unpublished (WaitLoop ev v) + pc_unpublished (WaitPublish ev' v))
      (signals s - (if WaitLoop ev v = SetWakeEvent then 1 else 0) +
        (if WaitPublish ev' v = SetWakeEvent then 1 else 0))
      (blocked s - (if WaitLoop ev v = WaitEvent then 1 else 0) +
        (if WaitPublish ev' v = WaitEvent then 1 else 0))"
      using F(4) na unfolding phase_ok_def s'(2-5) by simp
    show "WaitCount s' = WaitCount s \<and> WakeEvent s' = WakeEvent s \<or>
        count_pcs pc_unpublished s \<le> pc_unpublished (WaitLoop ev v)"
      using na(2) by simp
  qed (use s'(1,2,6) in \<open>simp_all only: simp_thms\<close>)
qed

lemma inv_wait_again:
  assumes inv: "rundown_inv s" and i: "i < length (pcs s)" "pcs s ! i = WaitPublish ev v"
    and p: "rundown_wait_publish s wb v = (Again v', s')"
  shows "rundown_inv (goto i (WaitLoop ev v') s')"
proof -
  note F = inv_facts [OF inv i]
  have na: "\<not> active (RunRef s)"
    using F(3,4) by (auto simp: phase_ok_def split: if_splits)
  have s': "s' = s" "v' = RunRef s"
    using p by (auto simp: rundown_wait_publish_def ExpChangeRundown_def split: if_splits)
  show ?thesis
    by (rule goto_inv [OF inv i]) (use F(1,3,4) na in \<open>auto simp: s' phase_ok_def split: if_splits\<close>)
qed

lemma publish_facts:
  assumes inv: "rundown_inv s" and i: "i < length (pcs s)" "pcs s ! i = WaitPublish ev v"
    and p: "rundown_wait_publish s wb v = (Return b, s')"
  shows "\<not> active (RunRef s)" "s' = s\<lparr>RunRef := wb OR 1\<rparr>" "unat (WaitCount s) = held s + count_pcs pc_refs s"
    "b \<longleftrightarrow> held s + count_pcs pc_refs s \<noteq> 0" "b \<longrightarrow> \<not> WakeEvent s"
proof -
  note F = inv_facts [OF inv i]
  show na: "\<not> active (RunRef s)"
    using F(3,4) by (auto simp: phase_ok_def split: if_splits)
  have v: "RunRef s = v" and b: "b \<longleftrightarrow> drop_bit 1 v \<noteq> 0"
    using p by (auto simp: rundown_wait_publish_def ExpChangeRundown_def split: if_splits)
  show "s' = s\<lparr>RunRef := wb OR 1\<rparr>"
    using p by (auto simp: rundown_wait_publish_def ExpChangeRundown_def split: if_splits)
  have "v = ref_word (held s + count_pcs pc_refs s)" "held s + count_pcs pc_refs s < 2147483648"
    using F(4) na v by (auto simp: phase_ok_def)
  then have h: "unat (drop_bit 1 v) = held s + count_pcs pc_refs s"
    using half_even by simp
  show "unat (WaitCount s) = held s + count_pcs pc_refs s" "b \<longleftrightarrow> held s + count_pcs pc_refs s \<noteq> 0"
    "b \<longrightarrow> \<not> WakeEvent s"
    using F(1) h b by (auto simp: word_unat_eq_iff)
qed

lemma inv_wait_nothing_left:
  assumes inv: "rundown_inv s" and i: "i < length (pcs s)" "pcs s ! i = WaitPublish ev v"
    and p: "rundown_wait_publish s wb v = (Return False, s')"
  shows "rundown_inv (goto i Idle (s'\<lparr>completed := True\<rparr>))"
  by (rule goto_inv [OF inv i])
    (use inv_facts(3,4) [OF inv i] publish_facts [OF inv i p] in \<open>auto simp: phase_ok_def split: if_splits\<close>)

lemma inv_wait_block:
  assumes inv: "rundown_inv s" and i: "i < length (pcs s)" "pcs s ! i = WaitPublish ev v"
    and p: "rundown_wait_publish s wb v = (Return True, s')"
  shows "rundown_inv (goto i WaitEvent s')"
  by (rule goto_inv [OF inv i])
    (use inv_facts(3,4) [OF inv i] publish_facts [OF inv i p] in \<open>auto simp: phase_ok_def split: if_splits\<close>)

lemma inv_wait_wake:
  assumes inv: "rundown_inv s" and i: "i < length (pcs s)" "pcs s ! i = WaitEvent" and w: "WakeEvent s"
  shows "rundown_inv (goto i Idle (s\<lparr>WakeEvent := False, completed := True\<rparr>))"
  by (rule goto_inv [OF inv i])
    (use inv_facts(4,6) [OF inv i] w in \<open>auto simp: phase_ok_def split: if_splits\<close>)

lemma acquire_eq_ex: "ExfAcquireRundownProtection s v = ExfAcquireRundownProtectionEx s 1 v"
  by (simp add: ExfAcquireRundownProtection_def ExfAcquireRundownProtectionEx_def)

lemma release_eq_ex: "ExfReleaseRundownProtection s v = ExfReleaseRundownProtectionEx s 1 v"
  by (simp add: ExfReleaseRundownProtection_def ExfReleaseRundownProtectionEx_def)

lemma inv_stay:
  assumes "rundown_inv s" "i < length (pcs s)" "pcs s ! i = old"
    and "pc_unpublished old = 0" "pc_unpublished new = 0" "old \<noteq> SetWakeEvent" "new \<noteq> SetWakeEvent"
      "old \<noteq> WaitEvent" "new \<noteq> WaitEvent" "pc_refs new = pc_refs old" "pc_ok s new"
  shows "rundown_inv (goto i new s)"
  using inv_local_move [OF assms(1-9), of "held s"] assms(10,11) by simp

lemma refs_take:
  assumes "i < length (pcs s)" "pcs s ! i = old" "pc_refs old = 0"
  shows "refs (goto i Idle (s\<lparr>RunRef := x, held := held s + k\<rparr>)) = refs s + k"
  using count_pcs_goto [of i "s\<lparr>RunRef := x, held := held s + k\<rparr>" old pc_refs Idle] assms
  by (simp add: refs_def count_pcs_def)

lemma inv_acquire_ex:
  assumes inv: "rundown_inv s" and i: "i < length (pcs s)" "pcs s ! i = loop v"
    and loop: "\<And>x. pc_unpublished (loop x) = 0" "\<And>x. pc_refs (loop x) = 0"
      "\<And>x. loop x \<noteq> SetWakeEvent" "\<And>x. loop x \<noteq> WaitEvent" "\<And>x. pc_ok s (loop x)"
    and bnd: "refs (acquired i loop (unat n) (ExfAcquireRundownProtectionEx s n v)) < 2147483648"
  shows "rundown_inv (acquired i loop (unat n) (ExfAcquireRundownProtectionEx s n v))"
proof -
  consider "active v" | "\<not> active v" "RunRef s = v" | "\<not> active v" "RunRef s \<noteq> v" by blast
  then show ?thesis
  proof cases
    case 1
    then have "acquired i loop (unat n) (ExfAcquireRundownProtectionEx s n v) = goto i Idle s"
      by (simp add: ExfAcquireRundownProtectionEx_def active_def)
    then show ?thesis using inv_stay [OF inv i, of Idle] loop by simp
  next
    case 2
    then have eq: "acquired i loop (unat n) (ExfAcquireRundownProtectionEx s n v) =
        goto i Idle (s\<lparr>RunRef := v + 2 * n, held := held s + unat n\<rparr>)"
      by (simp add: ExfAcquireRundownProtectionEx_def active_def ExpChangeRundown_def)
    have "refs s + unat n < 2147483648"
      using bnd refs_take [OF i loop(2), where x = "v + 2 * n" and k = "unat n"] by (simp add: eq)
    with 2 show ?thesis
      unfolding eq by (intro inv_take [OF inv i]) (use loop in simp_all)
  next
    case 3
    then have "acquired i loop (unat n) (ExfAcquireRundownProtectionEx s n v) = goto i (loop (RunRef s)) s"
      by (simp add: ExfAcquireRundownProtectionEx_def active_def ExpChangeRundown_def)
    then show ?thesis using inv_stay [OF inv i, of "loop (RunRef s)"] loop by simp
  qed
qed

lemma inv_release_ex:
  assumes inv: "rundown_inv s" and i: "i < length (pcs s)" "pcs s ! i = loop v"
    and loop: "\<And>x. pc_unpublished (loop x) = 0" "\<And>x. pc_refs (loop x) = unat n"
      "\<And>x. loop x \<noteq> SetWakeEvent" "\<And>x. loop x \<noteq> WaitEvent"
    and ok: "active v \<longrightarrow> active (RunRef s)" "0 < n" "pc_ok s (loop (RunRef s))"
  shows "rundown_inv (released i loop (ExfReleaseRundownProtectionEx s n v))"
proof -
  have n: "0 < unat n" using ok(2) by (simp add: word_less_nat_alt)
  consider "active v" | "\<not> active v" "RunRef s = v" | "\<not> active v" "RunRef s \<noteq> v" by blast
  then show ?thesis
  proof cases
    case 1
    then have "released i loop (ExfReleaseRundownProtectionEx s n v) =
        goto i (if WaitCount s = n then SetWakeEvent else Idle) (s\<lparr>WaitCount := WaitCount s - n\<rparr>)"
      by (simp add: ExfReleaseRundownProtectionEx_def active_def)
    moreover have "active (RunRef s)" using 1 ok(1) by simp
    ultimately show ?thesis
      using inv_give_back [OF inv i loop(1) loop(2) n loop(3,4)] by simp
  next
    case 2
    then have "released i loop (ExfReleaseRundownProtectionEx s n v) = goto i Idle (s\<lparr>RunRef := v - 2 * n\<rparr>)"
      by (simp add: ExfReleaseRundownProtectionEx_def active_def ExpChangeRundown_def)
    with 2 inv_drop [OF inv i loop(1) loop(2-4)] show ?thesis by simp
  next
    case 3
    then have "released i loop (ExfReleaseRundownProtectionEx s n v) = goto i (loop (RunRef s)) s"
      by (simp add: ExfReleaseRundownProtectionEx_def active_def ExpChangeRundown_def)
    with inv_stay [OF inv i, of "loop (RunRef s)"] loop ok(3) show ?thesis by simp
  qed
qed

definition bounded_step :: "ULONG \<Rightarrow> rundown_system \<Rightarrow> rundown_system \<Rightarrow> bool" where
  "bounded_step wb s s' \<longleftrightarrow> rundown_step wb s s' \<and> refs s' < 2147483648"

definition rundown_init :: "rundown_system \<Rightarrow> bool" where
  "rundown_init s \<longleftrightarrow> list_all (\<lambda>pc. pc = Idle) (pcs s) \<and> held s = 0 \<and> RunRef s = 0 \<and>
     \<not> started s \<and> \<not> completed s"

lemma count_pcs_idle: "list_all (\<lambda>pc. pc = Idle) (pcs s) \<Longrightarrow> f Idle = 0 \<Longrightarrow> count_pcs f s = 0"
  by (auto simp: count_pcs_def list_all_iff)

lemma rundown_init_inv: "rundown_init s \<Longrightarrow> rundown_inv s"
  by (auto simp: rundown_init_def rundown_inv_phase phase_ok_def refs_def count_pcs_idle active_def
      ref_word_def list_all_length)

lemma fast_acquire:
  assumes "ExAcquireRundownProtection_fast s v = (b, s')"
  shows "b \<longleftrightarrow> RunRef s = v" "b \<Longrightarrow> s' = s\<lparr>RunRef := v + 2\<rparr>" "\<not> b \<Longrightarrow> s' = s"
  using assms by (auto simp: ExAcquireRundownProtection_fast_def ExpChangeRundown_def split: if_splits)

lemma fast_release:
  assumes "ExReleaseRundownProtection_fast s v = (b, s')"
  shows "b \<longleftrightarrow> RunRef s = v" "b \<Longrightarrow> s' = s\<lparr>RunRef := v - 2\<rparr>" "\<not> b \<Longrightarrow> s' = s"
  using assms by (auto simp: ExReleaseRundownProtection_fast_def ExpChangeRundown_def split: if_splits)

lemma inv_acquire_fast_hit:
  assumes inv: "rundown_inv s" and i: "i < length (pcs s)" "pcs s ! i = AcquireFast v"
    and hit: "ExAcquireRundownProtection_fast s v = (True, s')"
    and bnd: "refs (goto i Idle (s'\<lparr>held := held s' + 1\<rparr>)) < 2147483648"
  shows "rundown_inv (goto i Idle (s'\<lparr>held := held s' + 1\<rparr>))"
proof -
  have v: "RunRef s = v" and s': "s' = s\<lparr>RunRef := v + 2\<rparr>"
    using fast_acquire [OF hit] by auto
  have "\<not> active v" using inv_facts(1) [OF inv i] by simp
  moreover have "refs s + unat (1 :: ULONG) < 2147483648"
    using bnd refs_take [OF i, where x = "v + 2" and k = 1] by (simp add: s')
  ultimately show ?thesis
    using inv_take [OF inv i, of v 1] v by (simp add: s')
qed

lemma rundown_step_inv:
  assumes step: "rundown_step wb s s'" and inv: "rundown_inv s" and bnd: "refs s' < 2147483648"
  shows "rundown_inv s'"
  using step
proof cases
  case (call_acquire_fast i)
  then show ?thesis using inv_stay [OF inv] by simp
next
  case (acquire_fast_hit i v s1)
  then show ?thesis using inv_acquire_fast_hit [OF inv] bnd by simp
next
  case (acquire_fast_miss i v s1)
  then have "s1 = s" using fast_acquire by blast
  with acquire_fast_miss show ?thesis using inv_stay [OF inv] by simp
next
  case (call_acquire i)
  then show ?thesis using inv_stay [OF inv] by simp
next
  case (acquire i v)
  then show ?thesis
    using inv_acquire_ex [OF inv, of i Acquire v 1] bnd by (simp add: acquire_eq_ex)
next
  case (call_acquire_ex i n)
  then show ?thesis using inv_stay [OF inv] by simp
next
  case (acquire_ex i n v)
  then show ?thesis
    using inv_acquire_ex [OF inv, of i "AcquireEx n" v n] bnd by simp
next
  case (call_release_fast i)
  then show ?thesis using inv_local_move [OF inv, of i Idle _ "held s - 1"] by simp
next
  case (release_fast_hit i v s1)
  then have "RunRef s = v" "s1 = s\<lparr>RunRef := v - 2\<rparr>" using fast_release by blast+
  with release_fast_hit show ?thesis
    using inv_drop [OF inv, of i "ReleaseFast v" 1 v] inv_facts(1) [OF inv, of i "ReleaseFast v"] by simp
next
  case (release_fast_miss i v s1)
  then have "s1 = s" using fast_release by blast
  with release_fast_miss show ?thesis using inv_stay [OF inv] by simp
next
  case (call_release i)
  then show ?thesis using inv_local_move [OF inv, of i Idle _ "held s - 1"] by simp
next
  case (release i v)
  then show ?thesis
    using inv_release_ex [OF inv, of i Release v 1] inv_facts(1) [OF inv, of i "Release v"]
    by (simp add: release_eq_ex)
next
  case (call_release_ex i n)
  then show ?thesis using inv_local_move [OF inv, of i Idle _ "held s - unat n"] by simp
next
  case (release_ex i n v)
  then show ?thesis
    using inv_release_ex [OF inv, of i "ReleaseEx n" v n] inv_facts(1) [OF inv, of i "ReleaseEx n v"] by simp
next
  case (set_wake_event i)
  then show ?thesis using inv_signal [OF inv] by simp
next
  case (wait_return i s1)
  then show ?thesis using inv_wait_return [OF inv] by simp
next
  case (wait_enter i v s1)
  then show ?thesis using inv_wait_enter [OF inv] by simp
next
  case (wait_prepare i ev v ev' s1)
  then show ?thesis using inv_wait_prepare [OF inv] by simp
next
  case (wait_again i ev v v' s1)
  then show ?thesis using inv_wait_again [OF inv] by simp
next
  case (wait_nothing_left i ev v s1)
  then show ?thesis using inv_wait_nothing_left [OF inv] by simp
next
  case (wait_block i ev v s1)
  then show ?thesis using inv_wait_block [OF inv] by simp
next
  case (wait_wake i)
  then show ?thesis using inv_wait_wake [OF inv] by simp
qed

interpretation rundown: invariant_rule rundown_init "bounded_step wb" rundown_inv
  by unfold_locales (auto simp: bounded_step_def rundown_init_inv intro: rundown_step_inv)

lemma refs_goto:
  assumes "i < length (pcs s)" "pcs s ! i = old" "pcs s' = pcs s"
  shows "refs (goto i new s') + pc_refs old + held s = refs s + held s' + pc_refs new"
  using count_pcs_goto [of i s' old pc_refs new] assms by (simp add: refs_def count_pcs_def)

lemma count_pcs_pos: "0 < count_pcs (\<lambda>pc. if pc = X then 1 else 0) s \<Longrightarrow> X \<in> set (pcs s)"
  unfolding count_pcs_def
  by (rule ccontr) (metis (mono_tags, lifting) map_idI less_irrefl map_eq_conv sum_list_0 map_replicate_const)

lemma active_acquired:
  assumes "active (RunRef s)" "i < length (pcs s)" "pcs s ! i = loop v"
    "\<And>x. pc_refs (loop x) = 0"
  shows "\<exists>pc. acquired i loop k (ExfAcquireRundownProtectionEx s n v) = goto i pc s \<and> pc_refs pc = 0"
  using assms(1,4)
  by (cases "active v") (auto simp: ExfAcquireRundownProtectionEx_def ExpChangeRundown_def active_def
      split: if_splits intro: exI [of _ Idle] exI [of _ "loop (RunRef s)"])

lemma active_released:
  assumes "active (RunRef s)" "\<And>x. pc_refs (loop x) = unat n"
  shows "\<exists>pc w. released i loop (ExfReleaseRundownProtectionEx s n v) = goto i pc (s\<lparr>WaitCount := w\<rparr>) \<and>
    pc_refs pc \<le> unat n"
proof (cases "active v")
  case True
  then show ?thesis
    by (intro exI [of _ "if WaitCount s = n then SetWakeEvent else Idle"] exI [of _ "WaitCount s - n"])
      (simp add: ExfReleaseRundownProtectionEx_def active_def)
next
  case False
  then show ?thesis
    using assms by (intro exI [of _ "loop (RunRef s)"] exI [of _ "WaitCount s"])
      (auto simp: ExfReleaseRundownProtectionEx_def ExpChangeRundown_def active_def)
qed

section \<open>Properties\<close>

text \<open>
  C1: when \<open>ExfWaitForRundownProtectionRelease\<close> has returned, nobody holds a
  reference any more and the active bit is set, in every interleaving of any
  number of threads acquiring and releasing through the fast paths, the slow
  paths and the \<open>Ex\<close> routines, as long as fewer than \<open>2 ^ 31\<close> references are out.
\<close>

theorem rundown_waits_for_all:
  assumes "reachable rundown_init (bounded_step wb) s" and "completed s"
  shows "refs s = 0 \<and> active (RunRef s)"
  using rundown.reachable_inv [OF assms(1)] assms(2) by (auto simp: rundown_inv_def split: if_splits)

definition example_rundown :: rundown_system where
  "example_rundown = \<lparr>RunRef = 0, WaitCount = 0, WakeEvent = False, pcs = [Idle, Idle], held = 0,
     started = False, completed = False\<rparr>"

lemma example_rundown_completed:
  "reachable rundown_init (bounded_step wb)
     (example_rundown\<lparr>RunRef := 1, started := True, completed := True\<rparr>)"
proof (rule reachable_step [OF reachable_init [of _ example_rundown]])
  show "rundown_init example_rundown" by (simp add: rundown_init_def example_rundown_def)
  have "rundown_step wb example_rundown
      (example_rundown\<lparr>RunRef := 1\<rparr>\<lparr>started := True, completed := True\<rparr>)"
    by (rule wait_return [of 0])
      (simp_all add: example_rundown_def rundown_wait_entry_def ExpChangeRundown_def)
  then show "bounded_step wb example_rundown
      (example_rundown\<lparr>RunRef := 1, started := True, completed := True\<rparr>)"
    by (simp add: bounded_step_def refs_def count_pcs_def example_rundown_def)
qed

theorem rundown_waits_for_all_witness:
  "refs (example_rundown\<lparr>RunRef := 1, started := True, completed := True\<rparr>) = 0 \<and>
   active (RunRef (example_rundown\<lparr>RunRef := 1, started := True, completed := True\<rparr>))"
  by (rule rundown_waits_for_all [OF example_rundown_completed]) simp

text \<open>
  C25: once the active bit is set no acquire succeeds. A step from a state with the
  bit set keeps the bit and never adds a reference.
\<close>

theorem no_acquire_after_rundown:
  assumes "reachable rundown_init (bounded_step wb) s" and "active (RunRef s)" and "bounded_step wb s s'"
  shows "active (RunRef s') \<and> refs s' \<le> refs s"
proof -
  have inv: "rundown_inv s" using rundown.reachable_inv [OF assms(1)] .
  then have st: "started s" and no_wait: "count_pcs pc_unpublished s = 0"
    using assms(2) by (auto simp: rundown_inv_def)
  have not_unpublished: "pc_unpublished (pcs s ! i) = 0" if "i < length (pcs s)" for i
    using count_pcs_ge [OF that, of pc_unpublished] no_wait by simp
  note ok = inv_facts(1) [OF inv]
  from assms(3) have "rundown_step wb s s'" by (simp add: bounded_step_def)
  then show ?thesis
  proof cases
    case (acquire_fast_hit i v s1)
    then show ?thesis using ok [of i "AcquireFast v"] assms(2) fast_acquire(1) by auto
  next
    case (acquire_fast_miss i v s1)
    then have "s1 = s" using fast_acquire by blast
    with acquire_fast_miss refs_goto [of i s "AcquireFast v" s] assms(2) show ?thesis by auto
  next
    case (acquire i v)
    then show ?thesis
      using active_acquired [OF assms(2), of i Acquire v 1 1] refs_goto [of i s "Acquire v" s] assms(2)
      by (auto simp: acquire_eq_ex)
  next
    case (acquire_ex i n v)
    then show ?thesis
      using active_acquired [OF assms(2), of i "AcquireEx n" v "unat n" n]
        refs_goto [of i s "AcquireEx n v" s] assms(2) by auto
  next
    case (release_fast_hit i v s1)
    then show ?thesis using ok [of i "ReleaseFast v"] assms(2) fast_release(1) by auto
  next
    case (release_fast_miss i v s1)
    then have "s1 = s" using fast_release by blast
    with release_fast_miss refs_goto [of i s "ReleaseFast v" s "Release (RunRef s)"] assms(2) show ?thesis by auto
  next
    case (release i v)
    obtain pc w where "released i Release (ExfReleaseRundownProtectionEx s 1 v) =
        goto i pc (s\<lparr>WaitCount := w\<rparr>)" "pc_refs pc \<le> 1"
      using active_released [OF assms(2), of Release 1 i v] by auto
    with release refs_goto [of i s "Release v" "s\<lparr>WaitCount := w\<rparr>" pc] assms(2) show ?thesis
      by (auto simp: release_eq_ex)
  next
    case (release_ex i n v)
    obtain pc w where "released i (ReleaseEx n) (ExfReleaseRundownProtectionEx s n v) =
        goto i pc (s\<lparr>WaitCount := w\<rparr>)" "pc_refs pc \<le> unat n"
      using active_released [OF assms(2), of "ReleaseEx n" n i v] by auto
    with release_ex refs_goto [of i s "ReleaseEx n v" "s\<lparr>WaitCount := w\<rparr>" pc] assms(2) show ?thesis
      by auto
  next
    case (call_release_fast i)
    with refs_goto [of i s Idle "s\<lparr>held := held s - 1\<rparr>" "ReleaseFast (RunRef s AND NOT 1)"] assms(2) show ?thesis by auto
  next
    case (call_release i)
    with refs_goto [of i s Idle "s\<lparr>held := held s - 1\<rparr>" "Release (RunRef s)"] assms(2) show ?thesis by auto
  next
    case (call_release_ex i n)
    with refs_goto [of i s Idle "s\<lparr>held := held s - unat n\<rparr>" "ReleaseEx n (RunRef s)"] assms(2) show ?thesis by auto
  next
    case (set_wake_event i)
    with refs_goto [of i s SetWakeEvent "s\<lparr>WakeEvent := True\<rparr>"] assms(2) show ?thesis by auto
  next
    case (wait_wake i)
    with refs_goto [of i s WaitEvent "s\<lparr>WakeEvent := False, completed := True\<rparr>"] assms(2)
    show ?thesis by auto
  next
    case (wait_prepare i ev v ev' s1)
    with not_unpublished [of i] show ?thesis by simp
  next
    case (wait_again i ev v v' s1)
    with not_unpublished [of i] show ?thesis by simp
  next
    case (wait_nothing_left i ev v s1)
    with not_unpublished [of i] show ?thesis by simp
  next
    case (wait_block i ev v s1)
    with not_unpublished [of i] show ?thesis by simp
  qed (use st assms(2) refs_goto [of _ s Idle s] in auto)
qed

theorem no_acquire_after_rundown_witness:
  "active (RunRef (goto 0 (Acquire 1) (example_rundown\<lparr>RunRef := 1, started := True, completed := True\<rparr>))) \<and>
   refs (goto 0 (Acquire 1) (example_rundown\<lparr>RunRef := 1, started := True, completed := True\<rparr>)) \<le>
   refs (example_rundown\<lparr>RunRef := 1, started := True, completed := True\<rparr>)"
proof (rule no_acquire_after_rundown [OF example_rundown_completed])
  show "bounded_step 0 (example_rundown\<lparr>RunRef := 1, started := True, completed := True\<rparr>)
      (goto 0 (Acquire 1) (example_rundown\<lparr>RunRef := 1, started := True, completed := True\<rparr>))"
    using call_acquire [of 0 "example_rundown\<lparr>RunRef := 1, started := True, completed := True\<rparr>" 0]
    by (simp add: bounded_step_def example_rundown_def refs_def count_pcs_def)
qed simp

text \<open>
  C24: no wake-up is lost. While the waiter is blocked the wait block counts exactly
  the references still out; when there are none, the wake event is set or a
  releasing thread is about to set it, and the event is never set earlier, so the
  count is zero when the waiter wakes.
\<close>

theorem no_lost_wakeup:
  assumes "reachable rundown_init (bounded_step wb) s" and "WaitEvent \<in> set (pcs s)"
  shows "unat (WaitCount s) = refs s \<and> (refs s = 0 \<longrightarrow> WakeEvent s \<or> SetWakeEvent \<in> set (pcs s)) \<and>
    (WakeEvent s \<longrightarrow> WaitCount s = 0)"
proof -
  have inv: "rundown_inv s" using rundown.reachable_inv [OF assms(1)] .
  obtain i where i: "i < length (pcs s)" "pcs s ! i = WaitEvent"
    using assms(2) by (auto simp: in_set_conv_nth)
  have "0 < blocked s" using inv_facts(6) [OF inv i] by simp
  then show ?thesis
    using inv count_pcs_pos [of SetWakeEvent s]
    by (auto simp: rundown_inv_def word_unat_eq_iff split: if_splits)
qed

definition example_blocked :: rundown_system where
  "example_blocked = \<lparr>RunRef = 0x1001, WaitCount = 1, WakeEvent = False, pcs = [Idle, WaitEvent], held = 1,
     started = True, completed = False\<rparr>"

lemma example_blocked_reachable: "reachable rundown_init (bounded_step 0x1000) example_blocked"
proof -
  define s1 where "s1 = goto 0 (Acquire 0) example_rundown"
  define s2 where "s2 = goto 0 Idle (s1\<lparr>RunRef := 2, held := 1\<rparr>)"
  define s3 where "s3 = goto 1 (WaitLoop False 2) (s2\<lparr>started := True\<rparr>)"
  define s4 where "s4 = goto 1 (WaitPublish True 2) (s3\<lparr>WakeEvent := False, WaitCount := 1\<rparr>)"
  note states = s1_def s2_def s3_def s4_def example_rundown_def goto_def
  note bounds = bounded_step_def refs_def count_pcs_def
  have 0: "reachable rundown_init (bounded_step 0x1000) example_rundown"
    by (rule reachable_init) (simp add: rundown_init_def example_rundown_def)
  have "bounded_step 0x1000 example_rundown s1"
    using call_acquire [of 0 example_rundown "0x1000"] by (simp add: states bounds)
  from reachable_step [OF 0 this] have 1: "reachable rundown_init (bounded_step 0x1000) s1" .
  have "bounded_step 0x1000 s1 s2"
    using acquire [of 0 s1 0 "0x1000"]
    by (simp add: states bounds ExfAcquireRundownProtection_def ExpChangeRundown_def)
  from reachable_step [OF 1 this] have 2: "reachable rundown_init (bounded_step 0x1000) s2" .
  have "bounded_step 0x1000 s2 s3"
    using wait_enter [of 1 s2 2 s2 "0x1000"]
    by (simp add: states bounds rundown_wait_entry_def ExpChangeRundown_def)
  from reachable_step [OF 2 this] have 3: "reachable rundown_init (bounded_step 0x1000) s3" .
  have "bounded_step 0x1000 s3 s4"
    using wait_prepare [of 1 s3 False 2 True "s3\<lparr>WakeEvent := False, WaitCount := 1\<rparr>" "0x1000"]
    by (simp add: states bounds rundown_wait_prepare_def)
  from reachable_step [OF 3 this] have 4: "reachable rundown_init (bounded_step 0x1000) s4" .
  have "bounded_step 0x1000 s4 example_blocked"
    using wait_block [of 1 s4 True 2 "0x1000" "s4\<lparr>RunRef := 0x1001\<rparr>"]
    by (simp add: states bounds rundown_wait_publish_def ExpChangeRundown_def example_blocked_def)
  from reachable_step [OF 4 this] show ?thesis .
qed

theorem no_lost_wakeup_witness:
  "unat (WaitCount example_blocked) = refs example_blocked \<and> refs example_blocked = 1 \<and>
   \<not> WakeEvent example_blocked"
  using no_lost_wakeup [OF example_blocked_reachable] by (simp add: example_blocked_def)

text \<open>
  The plain routines are the \<open>Ex\<close> routines with a count of one, on every state and
  every value read.
\<close>

theorem rundown_plain_eq_Ex:
  "ExfAcquireRundownProtection s v = ExfAcquireRundownProtectionEx s 1 v \<and>
   ExfReleaseRundownProtection s v = ExfReleaseRundownProtectionEx s 1 v"
  by (simp add: acquire_eq_ex release_eq_ex)

end
