(* ===== verification/Rtl_Time.thy ===== *)
theory Rtl_Time
  imports Odyssey_Prelude "HOL-Library.Signed_Division"
begin

text \<open>
  The calendar routines of \<open>lib/rtl/time.c\<close>. A time is a 64-bit count of 100
  nanosecond ticks since 1601. C's signed integers are \<open>int\<close>, with \<open>CSHORT\<close>, \<open>LONG\<close>
  and \<open>LONGLONG\<close> the reduction to 16, 32 and 64 bits where the code stores or casts;
  C's division and remainder are \<open>sdiv\<close> and \<open>smod\<close>, which round towards zero.
\<close>

section \<open>Data\<close>

definition CSHORT :: "int \<Rightarrow> int" where
  "CSHORT x = signed_take_bit 15 x"

definition LONG :: "int \<Rightarrow> int" where
  "LONG x = signed_take_bit 31 x"

definition LONGLONG :: "int \<Rightarrow> int" where
  "LONGLONG x = signed_take_bit 63 x"

abbreviation (input) TICKSPERSEC :: int where "TICKSPERSEC \<equiv> 10000000"
abbreviation (input) TICKSPERMSEC :: int where "TICKSPERMSEC \<equiv> 10000"
abbreviation (input) SECSPERDAY :: int where "SECSPERDAY \<equiv> 86400"
abbreviation (input) SECSPERHOUR :: int where "SECSPERHOUR \<equiv> 3600"
abbreviation (input) SECSPERMIN :: int where "SECSPERMIN \<equiv> 60"
abbreviation (input) EPOCHWEEKDAY :: int where "EPOCHWEEKDAY \<equiv> 1"
abbreviation (input) DAYSPERWEEK :: int where "DAYSPERWEEK \<equiv> 7"
abbreviation (input) EPOCHYEAR :: int where "EPOCHYEAR \<equiv> 1601"
abbreviation (input) DAYSPERNORMALYEAR :: int where "DAYSPERNORMALYEAR \<equiv> 365"
abbreviation (input) DAYSPERLEAPYEAR :: int where "DAYSPERLEAPYEAR \<equiv> 366"
abbreviation (input) TICKSTO1970 :: int where "TICKSTO1970 \<equiv> 0x019db1ded53e8000"
abbreviation (input) TICKSTO1980 :: int where "TICKSTO1980 \<equiv> 0x01a8e79fe1d58000"

record TIME_FIELDS =
  Year :: int
  Month :: int
  Day :: int
  Hour :: int
  Minute :: int
  Second :: int
  Milliseconds :: int
  Weekday :: int

definition YearLengths :: "bool \<Rightarrow> int" where
  "YearLengths leap = (if leap then DAYSPERLEAPYEAR else DAYSPERNORMALYEAR)"

definition MonthLengths :: "bool \<Rightarrow> int list" where
  "MonthLengths leap =
     (if leap then [31, 29, 31, 30, 31, 30, 31, 31, 30, 31, 30, 31]
      else [31, 28, 31, 30, 31, 30, 31, 31, 30, 31, 30, 31])"

definition IsLeapYear :: "int \<Rightarrow> bool" where
  "IsLeapYear y \<longleftrightarrow> y smod 4 = 0 \<and> (y smod 100 \<noteq> 0 \<or> y smod 400 = 0)"

definition DaysSinceEpoch :: "int \<Rightarrow> int" where
  "DaysSinceEpoch y =
     (let y = y - 1;
          d = y * DAYSPERNORMALYEAR + y sdiv 4 - y sdiv 100 + y sdiv 400
      in d - ((EPOCHYEAR - 1) * DAYSPERNORMALYEAR + (EPOCHYEAR - 1) sdiv 4 -
              (EPOCHYEAR - 1) sdiv 100 + (EPOCHYEAR - 1) sdiv 400))"

section \<open>From fields to a time\<close>

definition time_fields_invalid :: "TIME_FIELDS \<Rightarrow> bool" where
  "time_fields_invalid tf \<longleftrightarrow>
     Milliseconds tf < 0 \<or> Milliseconds tf > 999 \<or> Second tf < 0 \<or> Second tf > 59 \<or>
     Minute tf < 0 \<or> Minute tf > 59 \<or> Hour tf < 0 \<or> Hour tf > 23 \<or>
     Month tf < 1 \<or> Month tf > 12 \<or> Day tf < 1 \<or>
     Day tf > MonthLengths (IsLeapYear (Year tf)) ! nat (Month tf - 1) \<or> Year tf < 1601"

text \<open>The loop over the months before the current one, on \<open>Time->QuadPart\<close>.\<close>

function add_months :: "bool \<Rightarrow> int \<Rightarrow> int \<Rightarrow> int \<Rightarrow> int" where
  "add_months leap CurMonth month QuadPart =
     (if CurMonth < month
      then add_months leap (CurMonth + 1) month
             (LONGLONG (QuadPart + MonthLengths leap ! nat (CurMonth - 1)))
      else QuadPart)"
  by pat_completeness auto
termination
  by (relation "measure (\<lambda>(leap, CurMonth, month, QuadPart). nat (month - CurMonth))") auto

declare add_months.simps [simp del]

definition RtlTimeFieldsToTime :: "TIME_FIELDS \<Rightarrow> int option" where
  "RtlTimeFieldsToTime tf =
     (if time_fields_invalid tf then None
      else
        (let QuadPart = DaysSinceEpoch (Year tf);
             QuadPart = add_months (IsLeapYear (Year tf)) 1 (Month tf) QuadPart;
             QuadPart = LONGLONG (QuadPart + (Day tf - 1));
             QuadPart = LONGLONG (QuadPart * SECSPERDAY);
             QuadPart = LONGLONG (QuadPart + (Hour tf * SECSPERHOUR + Minute tf * SECSPERMIN + Second tf));
             QuadPart = LONGLONG (QuadPart * TICKSPERSEC);
             QuadPart = LONGLONG (QuadPart + Milliseconds tf * TICKSPERMSEC)
         in Some QuadPart))"

section \<open>From a time to fields\<close>

definition RtlTimeToElapsedTimeFields :: "int \<Rightarrow> TIME_FIELDS \<Rightarrow> TIME_FIELDS" where
  "RtlTimeToElapsedTimeFields Time tf =
     (let ElapsedSeconds = take_bit 64 Time div TICKSPERSEC;
          SecondsInDay = ElapsedSeconds mod SECSPERDAY;
          SecondsInMinute = SecondsInDay mod SECSPERHOUR
      in tf\<lparr>Milliseconds := CSHORT ((Time smod TICKSPERSEC) sdiv TICKSPERMSEC),
            Hour := CSHORT (SecondsInDay div SECSPERHOUR),
            Minute := CSHORT (SecondsInMinute div SECSPERMIN),
            Second := CSHORT (SecondsInMinute mod SECSPERMIN),
            Day := CSHORT (ElapsedSeconds div SECSPERDAY),
            Month := 0, Year := 0\<rparr>)"

function adjust_up :: "int \<Rightarrow> int \<Rightarrow> int \<times> int" where
  "adjust_up SecondsInDay Days =
     (if SecondsInDay < 0 then adjust_up (SecondsInDay + SECSPERDAY) (Days - 1) else (SecondsInDay, Days))"
  by pat_completeness auto
termination
  by (relation "measure (\<lambda>(SecondsInDay, Days). nat (- SecondsInDay))") auto

function adjust_down :: "int \<Rightarrow> int \<Rightarrow> int \<times> int" where
  "adjust_down SecondsInDay Days =
     (if SecondsInDay \<ge> SECSPERDAY then adjust_down (SecondsInDay - SECSPERDAY) (Days + 1)
      else (SecondsInDay, Days))"
  by pat_completeness auto
termination
  by (relation "measure (\<lambda>(SecondsInDay, Days). nat SecondsInDay)") auto

function find_year :: "int \<Rightarrow> int \<Rightarrow> int \<times> int" where
  "find_year CurYear Days =
     (if Days < YearLengths (IsLeapYear CurYear) then (CurYear, Days)
      else find_year (CurYear + 1) (Days - YearLengths (IsLeapYear CurYear)))"
  by pat_completeness auto
termination
  by (relation "measure (\<lambda>(CurYear, Days). nat Days)") (auto simp: YearLengths_def split: if_splits)

declare adjust_up.simps [simp del] adjust_down.simps [simp del] find_year.simps [simp del]

text \<open>The loop over the months; running past December would read past the table: \<open>None\<close>.\<close>

fun find_month :: "int list \<Rightarrow> int \<Rightarrow> int \<Rightarrow> (int \<times> int) option" where
  "find_month [] CurMonth Days = None"
| "find_month (m # ms) CurMonth Days =
     (if Days \<ge> m then find_month ms (CurMonth + 1) (Days - m) else Some (CurMonth, Days))"

definition RtlTimeToTimeFields :: "int \<Rightarrow> TIME_FIELDS option" where
  "RtlTimeToTimeFields Time =
     (let ms = CSHORT ((Time smod TICKSPERSEC) sdiv TICKSPERMSEC);
          IntTime = Time sdiv TICKSPERSEC;
          Days = LONG (IntTime sdiv SECSPERDAY);
          SecondsInDay = LONG (IntTime smod SECSPERDAY);
          (SecondsInDay, Days) = adjust_up SecondsInDay Days;
          (SecondsInDay, Days) = adjust_down SecondsInDay Days;
          hour = CSHORT (SecondsInDay sdiv SECSPERHOUR);
          SecondsInDay = SecondsInDay smod SECSPERHOUR;
          minute = CSHORT (SecondsInDay sdiv SECSPERMIN);
          second = CSHORT (SecondsInDay smod SECSPERMIN);
          weekday = CSHORT ((EPOCHWEEKDAY + Days) smod DAYSPERWEEK);
          CurYear = EPOCHYEAR + Days sdiv DAYSPERLEAPYEAR;
          Days = Days - DaysSinceEpoch CurYear;
          (CurYear, Days) = find_year CurYear Days
      in case find_month (MonthLengths (IsLeapYear CurYear)) 0 Days of
           None \<Rightarrow> None
         | Some (CurMonth, Days) \<Rightarrow>
             Some \<lparr>Year = CSHORT CurYear, Month = CSHORT (CurMonth + 1), Day = CSHORT (Days + 1),
                   Hour = hour, Minute = minute, Second = second, Milliseconds = ms,
                   Weekday = weekday\<rparr>)"

section \<open>Cutover times\<close>

text \<open>
  One round of the loop of \<open>RtlCutoverTimeToSystemTime\<close>, for the year \<open>year\<close>: the
  cutover time in that year, or \<open>None\<close> where the routine returns \<open>FALSE\<close>.
\<close>

definition cutover_in_year :: "TIME_FIELDS \<Rightarrow> int \<Rightarrow> int option" where
  "cutover_in_year ctf year =
     (let atf = ctf\<lparr>Year := year, Day := 1\<rparr>
      in case RtlTimeFieldsToTime atf of
           None \<Rightarrow> None
         | Some t \<Rightarrow>
             (case RtlTimeToTimeFields t of
                None \<Rightarrow> None
              | Some stf \<Rightarrow>
                  (let atf =
                         (if Weekday stf \<noteq> Weekday ctf then
                            (let Days = CSHORT (if Weekday stf < Weekday ctf
                                                then Weekday ctf - Weekday stf
                                                else DAYSPERWEEK - (Weekday stf - Weekday ctf))
                             in atf\<lparr>Day := CSHORT (Day atf + Days)\<rparr>)
                          else atf);
                       atf =
                         (if Day ctf > 1 then
                            (let Days = CSHORT (DAYSPERWEEK * (Day ctf - 1));
                                 MonthLength = CSHORT (MonthLengths (IsLeapYear (Year atf)) ! nat (Month atf - 1));
                                 Days = (if Day atf + Days > MonthLength then CSHORT (Days - DAYSPERWEEK) else Days)
                             in atf\<lparr>Day := CSHORT (Day atf + Days)\<rparr>)
                          else atf)
                   in RtlTimeFieldsToTime atf)))"

definition RtlCutoverTimeToSystemTime :: "TIME_FIELDS \<Rightarrow> int \<Rightarrow> bool \<Rightarrow> int option" where
  "RtlCutoverTimeToSystemTime ctf CurrentTime ThisYearsCutoverOnly =
     (if Year ctf \<noteq> 0 then
        (case RtlTimeFieldsToTime ctf of
           None \<Rightarrow> None
         | Some t \<Rightarrow> if t < CurrentTime then None else Some t)
      else if Day ctf = 0 \<or> Day ctf > 5 then None
      else
        (case RtlTimeToTimeFields CurrentTime of
           None \<Rightarrow> None
         | Some cur \<Rightarrow>
             (case cutover_in_year ctf (Year cur) of
                None \<Rightarrow> None
              | Some t \<Rightarrow>
                  if ThisYearsCutoverOnly \<or> t \<ge> CurrentTime then Some t
                  else cutover_in_year ctf (CSHORT (Year cur + 1)))))"

section \<open>Seconds since 1970 and 1980, local time\<close>

text \<open>\<open>HighPart\<close> is the upper half of the 64-bit value, \<open>LowPart\<close> the lower one.\<close>

definition seconds_since :: "int \<Rightarrow> int \<Rightarrow> int option" where
  "seconds_since epoch Time =
     (let IntTime = LONGLONG (Time - epoch);
          IntTime = IntTime sdiv TICKSPERSEC
      in if drop_bit 32 IntTime \<noteq> 0 then None else Some (take_bit 32 IntTime))"

definition RtlTimeToSecondsSince1970 :: "int \<Rightarrow> int option" where
  "RtlTimeToSecondsSince1970 Time = seconds_since TICKSTO1970 Time"

definition RtlTimeToSecondsSince1980 :: "int \<Rightarrow> int option" where
  "RtlTimeToSecondsSince1980 Time = seconds_since TICKSTO1980 Time"

text \<open>
  \<open>query\<close> stands for \<open>ZwQuerySystemInformation(SystemTimeOfDayInformation)\<close>: its
  status and the time zone bias it reports. The pair is the status and the new
  value of the out parameter, if it was written.
\<close>

definition RtlLocalTimeToSystemTime :: "NTSTATUS \<times> int \<Rightarrow> int \<Rightarrow> NTSTATUS \<times> int option" where
  "RtlLocalTimeToSystemTime query LocalTime =
     (case query of (Status, TimeZoneBias) \<Rightarrow>
        if \<not> NT_SUCCESS Status then (Status, None)
        else (STATUS_SUCCESS, Some (LONGLONG (LocalTime + TimeZoneBias))))"

definition RtlSystemTimeToLocalTime :: "NTSTATUS \<times> int \<Rightarrow> int \<Rightarrow> NTSTATUS \<times> int option" where
  "RtlSystemTimeToLocalTime query SystemTime =
     (case query of (Status, TimeZoneBias) \<Rightarrow>
        if \<not> NT_SUCCESS Status then (Status, None)
        else (STATUS_SUCCESS, Some (LONGLONG (SystemTime - TimeZoneBias))))"

definition RtlSecondsSince1970ToTime :: "int \<Rightarrow> int" where
  "RtlSecondsSince1970ToTime s = LONGLONG (s * TICKSPERSEC + TICKSTO1970)"

definition RtlSecondsSince1980ToTime :: "int \<Rightarrow> int" where
  "RtlSecondsSince1980ToTime s = LONGLONG (s * TICKSPERSEC + TICKSTO1980)"

section \<open>Ranges in which nothing wraps\<close>

lemma CSHORT_id: "- 32768 \<le> x \<Longrightarrow> x < 32768 \<Longrightarrow> CSHORT x = x"
  by (simp add: CSHORT_def signed_take_bit_int_eq_self)

lemma LONG_id: "- 2147483648 \<le> x \<Longrightarrow> x < 2147483648 \<Longrightarrow> LONG x = x"
  by (simp add: LONG_def signed_take_bit_int_eq_self)

lemma LONGLONG_id: "- 9223372036854775808 \<le> x \<Longrightarrow> x < 9223372036854775808 \<Longrightarrow> LONGLONG x = x"
  by (simp add: LONGLONG_def signed_take_bit_int_eq_self)

lemma sdiv_nonneg: "0 \<le> x \<Longrightarrow> 0 < k \<Longrightarrow> x sdiv k = x div k" for x k :: int
  by (cases "x = 0") (simp_all add: signed_divide_int_def)

lemma smod_nonneg: "0 \<le> x \<Longrightarrow> 0 < k \<Longrightarrow> x smod k = x mod k" for x k :: int
  by (cases "x = 0") (simp_all add: signed_modulo_int_def)

section \<open>The calendar\<close>

abbreviation leap :: "int \<Rightarrow> bool" where
  "leap \<equiv> IsLeapYear"

lemma div_step: "0 < k \<Longrightarrow> y div k = (y - 1) div k + of_bool (k dvd y)" for y k :: int
proof -
  assume k: "0 < k"
  have y: "y = k * (y div k) + y mod k" by simp
  show ?thesis
  proof (cases "y mod k = 0")
    case True
    then have "(y - 1) div k = (k * (y div k - 1) + (k - 1)) div k"
      using y by (simp add: algebra_simps)
    also have "\<dots> = y div k - 1" using k by (simp add: div_pos_pos_trivial)
    finally show ?thesis using True by (simp add: dvd_eq_mod_eq_0)
  next
    case False
    have "0 \<le> y mod k" "y mod k < k" using k by simp_all
    with False have "0 \<le> y mod k - 1" "y mod k - 1 < k" by linarith+
    then have "(k * (y div k) + (y mod k - 1)) div k = y div k"
      using k by (simp add: div_pos_pos_trivial)
    then have "(y - 1) div k = y div k" using y by (simp add: algebra_simps)
    then show ?thesis using False by (simp add: dvd_eq_mod_eq_0)
  qed
qed

lemma DaysSinceEpoch_eq:
  "1 \<le> y \<Longrightarrow> DaysSinceEpoch y =
     (y - 1) * 365 + (y - 1) div 4 - (y - 1) div 100 + (y - 1) div 400 - 584388"
  by (simp add: DaysSinceEpoch_def Let_def sdiv_nonneg)

lemma leap_iff: "0 \<le> y \<Longrightarrow> leap y \<longleftrightarrow> 4 dvd y \<and> (\<not> 100 dvd y \<or> 400 dvd y)"
  by (simp add: IsLeapYear_def smod_nonneg dvd_eq_mod_eq_0)

lemma DaysSinceEpoch_Suc:
  assumes "1 \<le> y"
  shows "DaysSinceEpoch (y + 1) = DaysSinceEpoch y + YearLengths (leap y)"
proof -
  have d: "100 dvd y \<Longrightarrow> 4 dvd y" "400 dvd y \<Longrightarrow> 100 dvd y"
    by (auto intro: dvd_trans [of _ 100] dvd_trans [of _ 400])
  have "DaysSinceEpoch (y + 1) = DaysSinceEpoch y + 365 +
      of_bool (4 dvd y) - of_bool (100 dvd y) + of_bool (400 dvd y)"
    using assms div_step [of 4 y] div_step [of 100 y] div_step [of 400 y]
    by (simp add: DaysSinceEpoch_eq)
  moreover have "leap y \<longleftrightarrow> 4 dvd y \<and> (\<not> 100 dvd y \<or> 400 dvd y)"
    using assms by (simp add: leap_iff)
  ultimately show ?thesis
    using d by (cases "4 dvd y"; cases "100 dvd y"; cases "400 dvd y"; simp add: YearLengths_def)
qed

lemma DaysSinceEpoch_1601 [simp]: "DaysSinceEpoch 1601 = 0"
  by (simp add: DaysSinceEpoch_eq)

lemma YearLengths_bounds: "365 \<le> YearLengths b" "YearLengths b \<le> 366"
  by (simp_all add: YearLengths_def)

lemma DaysSinceEpoch_bounds:
  assumes "1601 \<le> y"
  shows "365 * (y - 1601) \<le> DaysSinceEpoch y \<and> DaysSinceEpoch y \<le> 366 * (y - 1601)"
  using assms
proof (induction y rule: int_ge_induct)
  case (step y)
  then show ?case
    using YearLengths_bounds [of "leap y"] DaysSinceEpoch_Suc [of y] by simp
qed simp

lemma DaysSinceEpoch_mono:
  assumes "1601 \<le> y" "y < y'"
  shows "DaysSinceEpoch y + YearLengths (leap y) \<le> DaysSinceEpoch y'"
proof -
  have "y + 1 \<le> y'" using assms(2) by simp
  then show ?thesis
  proof (induction y' rule: int_ge_induct)
    case base
    show ?case using DaysSinceEpoch_Suc [of y] assms by simp
  next
    case (step z)
    then show ?case
      using DaysSinceEpoch_Suc [of z] YearLengths_bounds(1) [of "leap z"] assms by simp
  qed
qed

subsection \<open>Days and dates\<close>

definition month_start :: "bool \<Rightarrow> int \<Rightarrow> int" where
  "month_start b m = sum_list (take (nat (m - 1)) (MonthLengths b))"

definition date_ok :: "int \<Rightarrow> int \<Rightarrow> int \<Rightarrow> bool" where
  "date_ok y m d \<longleftrightarrow> 1601 \<le> y \<and> 1 \<le> m \<and> m \<le> 12 \<and> 1 \<le> d \<and> d \<le> MonthLengths (leap y) ! nat (m - 1)"

definition day_number :: "int \<Rightarrow> int \<Rightarrow> int \<Rightarrow> int" where
  "day_number y m d = DaysSinceEpoch y + month_start (leap y) m + (d - 1)"

lemma length_MonthLengths [simp]: "length (MonthLengths b) = 12"
  by (simp add: MonthLengths_def)

lemma sum_MonthLengths: "sum_list (MonthLengths b) = YearLengths b"
  by (simp add: MonthLengths_def YearLengths_def)

lemma MonthLengths_pos: "x \<in> set (MonthLengths b) \<Longrightarrow> 28 \<le> x \<and> x \<le> 31"
  by (auto simp: MonthLengths_def split: if_splits)

lemma MonthLengths_nth_bounds: "k < 12 \<Longrightarrow> 28 \<le> MonthLengths b ! k \<and> MonthLengths b ! k \<le> 31"
  using MonthLengths_pos [of "MonthLengths b ! k" b] by simp

lemma sum_take_Suc: "k < length xs \<Longrightarrow> sum_list (take (Suc k) xs) = sum_list (take k xs) + xs ! k"
  for xs :: "int list"
  by (simp add: take_Suc_conv_app_nth)

lemma sum_take_mono:
  fixes xs :: "int list"
  assumes "\<And>x. x \<in> set xs \<Longrightarrow> 0 \<le> x" "i \<le> j"
  shows "sum_list (take i xs) \<le> sum_list (take j xs)"
proof -
  have "take j xs = take i xs @ take (j - i) (drop i xs)"
    using assms(2) by (metis le_add_diff_inverse take_add)
  moreover have "0 \<le> sum_list (take (j - i) (drop i xs))"
    using assms(1) by (intro sum_list_nonneg) (meson in_set_dropD in_set_takeD)
  ultimately show ?thesis by simp
qed

lemma find_year_spec:
  assumes "1601 \<le> y" "0 \<le> d"
  shows "\<exists>y' r. find_year y d = (y', r) \<and> y \<le> y' \<and> DaysSinceEpoch y + d = DaysSinceEpoch y' + r \<and>
    0 \<le> r \<and> r < YearLengths (leap y')"
  using assms
proof (induction y d rule: find_year.induct)
  case (1 y d)
  show ?case
  proof (cases "d < YearLengths (leap y)")
    case True
    with 1 show ?thesis by (simp add: find_year.simps)
  next
    case False
    with "1.IH" [OF False] "1.prems" obtain y' r where
      "find_year (y + 1) (d - YearLengths (leap y)) = (y', r)" "y + 1 \<le> y'"
      "DaysSinceEpoch (y + 1) + (d - YearLengths (leap y)) = DaysSinceEpoch y' + r"
      "0 \<le> r" "r < YearLengths (leap y')"
      by auto
    with False "1.prems" show ?thesis
      using DaysSinceEpoch_Suc [of y] by (simp add: find_year.simps [of y])
  qed
qed

lemma find_month_spec:
  assumes "0 \<le> d" "d < sum_list ms"
  shows "\<exists>k. k < length ms \<and> find_month ms c d = Some (c + int k, d - sum_list (take k ms)) \<and>
    0 \<le> d - sum_list (take k ms) \<and> d - sum_list (take k ms) < ms ! k"
  using assms
proof (induction ms arbitrary: c d)
  case (Cons m ms)
  show ?case
  proof (cases "d \<ge> m")
    case True
    then obtain k where "k < length ms"
      "find_month ms (c + 1) (d - m) = Some (c + 1 + int k, d - m - sum_list (take k ms))"
      "0 \<le> d - m - sum_list (take k ms)" "d - m - sum_list (take k ms) < ms ! k"
      using Cons.IH [of "d - m" "c + 1"] Cons.prems by auto
    with True show ?thesis by (intro exI [of _ "Suc k"]) simp
  next
    case False
    with Cons.prems show ?thesis by (intro exI [of _ 0]) simp
  qed
qed simp

text \<open>Every day number is the number of exactly one date.\<close>

lemma month_start_next:
  assumes "1 \<le> m" "m \<le> 12"
  shows "month_start b m + MonthLengths b ! nat (m - 1) = sum_list (take (nat m) (MonthLengths b))"
proof -
  have "nat m = Suc (nat (m - 1))" using assms by simp
  moreover have "nat (m - 1) < 12" using assms by simp
  ultimately show ?thesis by (simp add: month_start_def sum_take_Suc)
qed

lemma month_start_less:
  assumes "1 \<le> m" "m < m'" "m' \<le> 12"
  shows "month_start b m + MonthLengths b ! nat (m - 1) \<le> month_start b m'"
proof -
  have "sum_list (take (nat m) (MonthLengths b)) \<le> sum_list (take (nat (m' - 1)) (MonthLengths b))"
    using assms MonthLengths_pos [of _ b] by (intro sum_take_mono) force+
  then show ?thesis using month_start_next [of m b] assms by (simp add: month_start_def)
qed

lemma day_in_year:
  assumes "date_ok y m d"
  shows "0 \<le> month_start (leap y) m + (d - 1)" "month_start (leap y) m + (d - 1) < YearLengths (leap y)"
proof -
  have m: "1 \<le> m" "m \<le> 12" "1 \<le> d" "d \<le> MonthLengths (leap y) ! nat (m - 1)"
    using assms by (simp_all add: date_ok_def)
  have "0 \<le> month_start (leap y) m"
    unfolding month_start_def using MonthLengths_pos [of _ "leap y"]
    by (intro sum_list_nonneg) (meson in_set_takeD order_trans zero_le_numeral)
  then show "0 \<le> month_start (leap y) m + (d - 1)" using m by simp
  have "sum_list (take (nat m) (MonthLengths (leap y))) \<le> sum_list (take 12 (MonthLengths (leap y)))"
    using m MonthLengths_pos [of _ "leap y"] by (intro sum_take_mono) force+
  then show "month_start (leap y) m + (d - 1) < YearLengths (leap y)"
    using month_start_next [OF m(1,2), of "leap y"] m by (simp add: sum_MonthLengths [symmetric])
qed

lemma day_number_inj:
  assumes "date_ok y m d" "date_ok y' m' d'" "day_number y m d = day_number y' m' d'"
  shows "y = y' \<and> m = m' \<and> d = d'"
proof -
  note D = day_in_year [OF assms(1)] day_in_year [OF assms(2)]
  have ys: "1601 \<le> y" "1601 \<le> y'" using assms(1,2) by (simp_all add: date_ok_def)
  have y: "y = y'"
    using assms(3) D DaysSinceEpoch_mono [of y y'] DaysSinceEpoch_mono [of y' y] ys
    by (cases y y' rule: linorder_cases) (auto simp: day_number_def)
  then have eq: "month_start (leap y) m + (d - 1) = month_start (leap y) m' + (d' - 1)"
    using assms(3) by (simp add: day_number_def)
  have "m = m'"
    using eq assms(1,2) month_start_less [of m m' "leap y"] month_start_less [of m' m "leap y"] y
    by (cases m m' rule: linorder_cases) (auto simp: date_ok_def)
  with eq y show ?thesis by simp
qed

lemma add_months_eq:
  assumes "1 \<le> c" "c \<le> m" "m \<le> 12" "0 \<le> q" "q + 31 * (m - c) < 4611686018427387904"
  shows "add_months b c m q = q + month_start b m - month_start b c"
  using assms
proof (induction b c m q rule: add_months.induct)
  case (1 b c m q)
  show ?case
  proof (cases "c < m")
    case False
    with "1.prems" show ?thesis by (simp add: add_months.simps)
  next
    case True
    define l where "l = MonthLengths b ! nat (c - 1)"
    have l: "28 \<le> l" "l \<le> 31"
      using MonthLengths_nth_bounds [of "nat (c - 1)" b] True "1.prems" by (auto simp: l_def)
    have s: "month_start b (c + 1) = month_start b c + l"
      using month_start_next [of c b] True "1.prems" by (simp add: month_start_def l_def)
    have "1 \<le> m - c" using True by simp
    then have "q + l \<le> q + 31 * (m - c)" using l by simp
    then have ll: "LONGLONG (q + l) = q + l" using l "1.prems" by (intro LONGLONG_id) linarith+
    have "add_months b (c + 1) m (q + l) = q + l + month_start b m - month_start b (c + 1)"
      using "1.IH" [OF True] "1.prems" True l unfolding l_def [symmetric] ll by simp
    with True s show ?thesis by (simp add: add_months.simps [of b c] l_def [symmetric] ll)
  qed
qed

lemma date_of_day:
  assumes n: "0 \<le> n"
  shows "\<exists>y r c d. find_year (1601 + n sdiv 366) (n - DaysSinceEpoch (1601 + n sdiv 366)) = (y, r) \<and>
    find_month (MonthLengths (leap y)) 0 r = Some (c, d) \<and> date_ok y (c + 1) (d + 1) \<and>
    day_number y (c + 1) (d + 1) = n"
proof -
  let ?y0 = "1601 + n sdiv 366"
  have y0: "1601 \<le> ?y0" "DaysSinceEpoch ?y0 \<le> n"
    using n DaysSinceEpoch_bounds [of ?y0] order_trans [of "DaysSinceEpoch ?y0" "366 * (n div 366)" n]
    by (auto simp: sdiv_nonneg)
  from find_year_spec [OF y0(1), of "n - DaysSinceEpoch ?y0"] y0
  obtain y r where yr: "find_year ?y0 (n - DaysSinceEpoch ?y0) = (y, r)" "?y0 \<le> y"
    "n = DaysSinceEpoch y + r" "0 \<le> r" "r < YearLengths (leap y)"
    by auto
  from find_month_spec [of r "MonthLengths (leap y)" 0] yr(4,5)
  obtain k where k: "k < 12" "find_month (MonthLengths (leap y)) 0 r =
      Some (int k, r - sum_list (take k (MonthLengths (leap y))))"
    "0 \<le> r - sum_list (take k (MonthLengths (leap y)))"
    "r - sum_list (take k (MonthLengths (leap y))) < MonthLengths (leap y) ! k"
    by (auto simp: sum_MonthLengths)
  have "date_ok y (int k + 1) (r - sum_list (take k (MonthLengths (leap y))) + 1)"
    using y0 yr(2) k by (simp add: date_ok_def)
  moreover have "day_number y (int k + 1) (r - sum_list (take k (MonthLengths (leap y))) + 1) = n"
    using yr(3) by (simp add: day_number_def month_start_def)
  ultimately show ?thesis using yr(1) k(2) by blast
qed

lemma day_number_bounds:
  assumes "date_ok y m d"
  shows "365 * (y - 1601) \<le> day_number y m d" "day_number y m d < 366 * (y - 1600)"
  using day_in_year [OF assms] DaysSinceEpoch_bounds [of y] YearLengths_bounds(2) [of "leap y"] assms
  by (auto simp: day_number_def date_ok_def)

section \<open>The two conversions\<close>

text \<open>The time of day in ticks.\<close>

definition clock_ticks :: "int \<Rightarrow> int \<Rightarrow> int \<Rightarrow> int \<Rightarrow> int" where
  "clock_ticks h m s ms = (h * 3600 + m * 60 + s) * 10000000 + ms * 10000"

definition date_limit :: int where
  "date_limit = 10675199"

lemma RtlTimeFieldsToTime_eq:
  assumes ok: "\<not> time_fields_invalid tf" and lim: "day_number (Year tf) (Month tf) (Day tf) < date_limit"
  shows "RtlTimeFieldsToTime tf = Some (day_number (Year tf) (Month tf) (Day tf) * 864000000000 +
    clock_ticks (Hour tf) (Minute tf) (Second tf) (Milliseconds tf))"
proof -
  have date: "date_ok (Year tf) (Month tf) (Day tf)"
    using ok by (simp add: time_fields_invalid_def date_ok_def)
  note D = day_in_year [OF date] day_number_bounds [OF date]
  have v: "0 \<le> Hour tf" "Hour tf \<le> 23" "0 \<le> Minute tf" "Minute tf \<le> 59" "0 \<le> Second tf" "Second tf \<le> 59"
    "0 \<le> Milliseconds tf" "Milliseconds tf \<le> 999" "1601 \<le> Year tf" "1 \<le> Month tf" "Month tf \<le> 12" "1 \<le> Day tf"
    using ok by (auto simp: time_fields_invalid_def)
  have e: "0 \<le> DaysSinceEpoch (Year tf)" using DaysSinceEpoch_bounds [of "Year tf"] v by simp
  have "add_months (leap (Year tf)) 1 (Month tf) (DaysSinceEpoch (Year tf)) =
      DaysSinceEpoch (Year tf) + month_start (leap (Year tf)) (Month tf)"
    using add_months_eq [of 1 "Month tf" "DaysSinceEpoch (Year tf)" "leap (Year tf)"] v e D lim
    by (simp add: month_start_def day_number_def date_limit_def)
  then have days: "add_months (leap (Year tf)) 1 (Month tf) (DaysSinceEpoch (Year tf)) + (Day tf - 1) =
      day_number (Year tf) (Month tf) (Day tf)" by (simp add: day_number_def)
  define n s where "n = day_number (Year tf) (Month tf) (Day tf)"
    and "s = Hour tf * 3600 + Minute tf * 60 + Second tf"
  have n: "0 \<le> n" "n < 10675199" using D e lim by (simp_all add: day_number_def n_def date_limit_def)
  have s: "0 \<le> s" "s < 86400" using v by (simp_all add: s_def)
  have steps: "LONGLONG n = n" "LONGLONG (n * 86400) = n * 86400" "LONGLONG (n * 86400 + s) = n * 86400 + s"
    "LONGLONG ((n * 86400 + s) * 10000000) = (n * 86400 + s) * 10000000"
    "LONGLONG ((n * 86400 + s) * 10000000 + Milliseconds tf * 10000) =
       (n * 86400 + s) * 10000000 + Milliseconds tf * 10000"
    using n s v by (auto intro!: LONGLONG_id)
  show ?thesis
    using ok unfolding RtlTimeFieldsToTime_def Let_def days n_def [symmetric] s_def [symmetric] steps
    by (simp add: clock_ticks_def s_def algebra_simps)
qed

lemma adjust_id:
  "0 \<le> s \<Longrightarrow> adjust_up s d = (s, d)" "s < 86400 \<Longrightarrow> adjust_down s d = (s, d)"
  by (simp_all add: adjust_up.simps [of s d] adjust_down.simps [of s d])

lemma RtlTimeToTimeFields_eq:
  assumes t: "0 \<le> t" "t < 9223372036854775808"
  defines "s \<equiv> t div 10000000 mod 86400" and "n \<equiv> t div 10000000 div 86400"
  obtains y m d where "date_ok y m d" "day_number y m d = n"
    "RtlTimeToTimeFields t = Some \<lparr>Year = y, Month = m, Day = d, Hour = s div 3600,
       Minute = s mod 3600 div 60, Second = s mod 3600 mod 60,
       Milliseconds = t mod 10000000 div 10000, Weekday = (1 + n) mod 7\<rparr>"
proof -
  have n: "0 \<le> n" "n < 10675200" and s: "0 \<le> s" "s < 86400"
    using t by (simp_all add: n_def s_def)
  have sm: "0 \<le> s mod 3600" "s mod 3600 < 3600" by simp_all
  obtain y r c d where yr: "find_year (1601 + n sdiv 366) (n - DaysSinceEpoch (1601 + n sdiv 366)) = (y, r)"
    and fm: "find_month (MonthLengths (leap y)) 0 r = Some (c, d)"
    and ok: "date_ok y (c + 1) (d + 1)" and num: "day_number y (c + 1) (d + 1) = n"
    using date_of_day [OF n(1)] by blast
  have b: "1601 \<le> y" "y < 32768" "0 \<le> c" "c \<le> 11" "0 \<le> d"
    using ok day_number_bounds(1) [OF ok] num n by (auto simp: date_ok_def)
  then have "nat c < 12" by simp
  from MonthLengths_nth_bounds [OF this, of "leap y"] ok have "d \<le> 30" by (simp add: date_ok_def)
  have ms: "(t smod 10000000) sdiv 10000 = t mod 10000000 div 10000"
    and sec: "t sdiv 10000000 = t div 10000000"
    "(t div 10000000) sdiv 86400 = n" "(t div 10000000) smod 86400 = s"
    using t by (simp_all add: smod_nonneg sdiv_nonneg n_def s_def)
  have day: "s sdiv 3600 = s div 3600" "s smod 3600 = s mod 3600" "(s mod 3600) sdiv 60 = s mod 3600 div 60"
    "(s mod 3600) smod 60 = s mod 3600 mod 60" "(1 + n) smod 7 = (1 + n) mod 7"
    using s n sm by (simp_all add: smod_nonneg sdiv_nonneg)
  have c16: "CSHORT (t mod 10000000 div 10000) = t mod 10000000 div 10000"
    "CSHORT (s div 3600) = s div 3600" "CSHORT (s mod 3600 div 60) = s mod 3600 div 60"
    "CSHORT (s mod 3600 mod 60) = s mod 3600 mod 60" "CSHORT ((1 + n) mod 7) = (1 + n) mod 7"
    "CSHORT y = y" "CSHORT (c + 1) = c + 1" "CSHORT (d + 1) = d + 1"
    using s b \<open>d \<le> 30\<close> by (auto intro!: CSHORT_id)
  have l32: "LONG n = n" "LONG s = s" using n s by (auto intro!: LONG_id)
  have "RtlTimeToTimeFields t = Some \<lparr>Year = y, Month = c + 1, Day = d + 1, Hour = s div 3600,
       Minute = s mod 3600 div 60, Second = s mod 3600 mod 60,
       Milliseconds = t mod 10000000 div 10000, Weekday = (1 + n) mod 7\<rparr>"
    unfolding RtlTimeToTimeFields_def Let_def ms sec l32 adjust_id(1) [OF s(1)] prod.case
      adjust_id(2) [OF s(2)] day yr fm option.case c16 ..
  with ok num show ?thesis by (rule that)
qed

lemma time_split: "t = n * 864000000000 + k \<Longrightarrow> 0 \<le> k \<Longrightarrow> k < 864000000000 \<Longrightarrow>
    t div 10000000 div 86400 = n \<and> t div 10000000 mod 86400 = k div 10000000 \<and> t mod 10000000 = k mod 10000000"
  for t n k :: int
proof -
  assume t: "t = n * 864000000000 + k" and k: "0 \<le> k" "k < 864000000000"
  have "t div 10000000 = n * 86400 + k div 10000000" "t mod 10000000 = k mod 10000000"
    using div_mult_self1 [of "10000000" k "n * 86400"] mod_mult_self1 [of k "n * 86400" "10000000"]
    unfolding t by (simp_all add: algebra_simps)
  moreover have "0 \<le> k div 10000000" "k div 10000000 < 86400" using k by simp_all
  ultimately show ?thesis by simp
qed

lemma clock_ticks_fields:
  assumes "0 \<le> h" "h \<le> 23" "0 \<le> mi" "mi \<le> 59" "0 \<le> s" "s \<le> 59" "0 \<le> ms" "ms \<le> 999"
  defines "k \<equiv> clock_ticks h mi s ms"
  shows "0 \<le> k" "k < 864000000000" "k div 10000000 div 3600 = h" "k div 10000000 mod 3600 div 60 = mi"
    "k div 10000000 mod 3600 mod 60 = s" "k mod 10000000 div 10000 = ms"
proof -
  show "0 \<le> k" "k < 864000000000" using assms(1-8) by (simp_all add: k_def clock_ticks_def)
  have k: "k = ms * 10000 + (h * 3600 + (mi * 60 + s)) * 10000000"
    by (simp add: k_def clock_ticks_def)
  have "0 \<le> ms * 10000" "ms * 10000 < 10000000" using assms(1-8) by simp_all
  then have "k div 10000000 = h * 3600 + (mi * 60 + s)" "k mod 10000000 = ms * 10000"
    unfolding k div_mult_self1 [OF numeral_neq_zero] mod_mult_self1
    by (simp_all add: div_pos_pos_trivial mod_pos_pos_trivial)
  moreover have "0 \<le> mi * 60 + s" "mi * 60 + s < 3600" using assms(1-8) by simp_all
  ultimately show "k div 10000000 div 3600 = h" "k div 10000000 mod 3600 div 60 = mi"
    "k div 10000000 mod 3600 mod 60 = s" "k mod 10000000 div 10000 = ms"
    using assms(1-8) by simp_all
qed

lemma clock_ticks_of:
  assumes "0 \<le> (k :: int)" "k < 864000000000"
  defines "s \<equiv> k div 10000000"
  shows "clock_ticks (s div 3600) (s mod 3600 div 60) (s mod 3600 mod 60) (k mod 10000000 div 10000) =
    k - k mod 10000"
proof -
  have "s div 3600 * 3600 + s mod 3600 div 60 * 60 + s mod 3600 mod 60 = s"
    by (simp add: add.assoc)
  moreover have "k mod 10000000 div 10000 * 10000 = k mod 10000000 - k mod 10000"
    by (simp add: minus_mod_eq_div_mult [symmetric] mod_mod_cancel)
  moreover have "s * 10000000 + k mod 10000000 = k" by (simp add: s_def)
  ultimately show ?thesis by (simp add: clock_ticks_def)
qed

fun next_date :: "int \<times> int \<times> int \<Rightarrow> int \<times> int \<times> int" where
  "next_date (y, m, d) =
     (if d < MonthLengths (leap y) ! nat (m - 1) then (y, m, d + 1)
      else if m < 12 then (y, m + 1, 1) else (y + 1, 1, 1))"

lemma next_date_day_number:
  assumes "date_ok y m d" "next_date (y, m, d) = (y', m', d')"
  shows "date_ok y' m' d' \<and> day_number y' m' d' = day_number y m d + 1"
proof -
  have m: "1601 \<le> y" "1 \<le> m" "m \<le> 12" "d \<le> MonthLengths (leap y) ! nat (m - 1)"
    using assms(1) by (simp_all add: date_ok_def)
  have ms1: "month_start b 1 = 0" for b by (simp add: month_start_def)
  consider "d < MonthLengths (leap y) ! nat (m - 1)" | "d = MonthLengths (leap y) ! nat (m - 1)" "m < 12"
    | "d = MonthLengths (leap y) ! nat (m - 1)" "m = 12" using m by fastforce
  then show ?thesis
  proof cases
    case 1
    with assms m show ?thesis by (auto simp: date_ok_def day_number_def)
  next
    case 2
    have "28 \<le> MonthLengths (leap y) ! nat m" using MonthLengths_nth_bounds [of "nat m"] 2 m by simp
    moreover have "month_start (leap y) (m + 1) = month_start (leap y) m + d"
      using month_start_next [of m "leap y"] 2 m by (simp add: month_start_def)
    ultimately show ?thesis using 2 assms m by (auto simp: date_ok_def day_number_def)
  next
    case 3
    have "month_start (leap y) 12 + d = YearLengths (leap y)"
      using month_start_next [of 12 "leap y"] 3 by (simp add: sum_MonthLengths [symmetric])
    moreover have "28 \<le> MonthLengths (leap (y + 1)) ! 0" using MonthLengths_nth_bounds [of 0] by simp
    ultimately show ?thesis
      using 3 assms m DaysSinceEpoch_Suc [of y] by (auto simp: date_ok_def day_number_def ms1)
  qed
qed

lemma fields_validI:
  assumes "date_ok y m d" "0 \<le> h" "h < 24" "0 \<le> mi" "mi < 60" "0 \<le> s" "s < 60" "0 \<le> ms" "ms < 1000"
  shows "\<not> time_fields_invalid \<lparr>Year = y, Month = m, Day = d, Hour = h, Minute = mi, Second = s,
    Milliseconds = ms, Weekday = w\<rparr>"
  using assms by (simp add: time_fields_invalid_def date_ok_def)

lemma fields_valid:
  assumes "date_ok y m d" "0 \<le> s" "s < 86400" "0 \<le> k" "k < 10000000"
  shows "\<not> time_fields_invalid \<lparr>Year = y, Month = m, Day = d, Hour = s div 3600,
    Minute = s mod 3600 div 60, Second = s mod 3600 mod 60, Milliseconds = k div 10000, Weekday = w\<rparr>"
proof (rule fields_validI [OF assms(1)])
  have "0 \<le> s mod 3600" "s mod 3600 < 3600" by simp_all
  then show "0 \<le> s mod 3600 div 60" "s mod 3600 div 60 < 60" by simp_all
qed (use assms in simp_all)

lemma LONGLONG_wrap:
  assumes "9223372036854775808 \<le> x" "x < 18446744073709551616"
  shows "signed_take_bit 63 (x::int) = x - 18446744073709551616"
proof -
  have "(x + 9223372036854775808) mod 18446744073709551616 = x - 9223372036854775808"
    using assms by (subst mod_pos_geq) simp_all
  then show ?thesis by (simp add: signed_take_bit_eq_take_bit_shift take_bit_eq_mod)
qed

lemma seconds_since_inverse:
  assumes "0 \<le> s" "s < 4294967296" "0 \<le> e" "e < 4611686018427387904"
  shows "seconds_since e (LONGLONG (s * 10000000 + e)) = Some s"
proof -
  have "LONGLONG (s * 10000000 + e) = s * 10000000 + e" "LONGLONG (s * 10000000) = s * 10000000"
    using assms by (auto intro!: LONGLONG_id)
  moreover have "drop_bit 32 s = 0" "take_bit 32 s = s"
    using assms by (simp_all add: drop_bit_eq_div take_bit_int_eq_self)
  ultimately show ?thesis
    using assms by (simp add: seconds_since_def Let_def sdiv_nonneg)
qed

lemma calendar_epoch:
  "RtlTimeToTimeFields 0 = Some \<lparr>Year = 1601, Month = 1, Day = 1, Hour = 0, Minute = 0, Second = 0,
     Milliseconds = 0, Weekday = 1\<rparr>"
proof -
  have e: "date_ok 1601 1 1" "day_number 1601 1 1 = 0"
    by (simp_all add: date_ok_def day_number_def month_start_def MonthLengths_def)
  obtain y m d where "date_ok y m d" "day_number y m d = 0"
    "RtlTimeToTimeFields 0 = Some \<lparr>Year = y, Month = m, Day = d, Hour = 0, Minute = 0, Second = 0,
     Milliseconds = 0, Weekday = 1\<rparr>"
    using RtlTimeToTimeFields_eq [of 0] by auto
  with day_number_inj [OF this(1) e(1)] e(2) show ?thesis by simp
qed

lemma fields_inverse:
  assumes "\<not> time_fields_invalid tf" and "Year tf \<le> 30827"
  shows "\<exists>t. RtlTimeFieldsToTime tf = Some t \<and> 0 \<le> t \<and>
    RtlTimeToTimeFields t =
      Some (tf\<lparr>Weekday := (1 + day_number (Year tf) (Month tf) (Day tf)) mod 7\<rparr>)"
proof -
  define n where "n = day_number (Year tf) (Month tf) (Day tf)"
  have date: "date_ok (Year tf) (Month tf) (Day tf)"
    using assms(1) by (simp add: time_fields_invalid_def date_ok_def)
  have n0: "0 \<le> n" using day_number_bounds [OF date] date by (simp add: n_def date_ok_def)
  have "n < DaysSinceEpoch (Year tf) + YearLengths (leap (Year tf))"
    using day_in_year [OF date] by (simp add: n_def day_number_def)
  also have "\<dots> \<le> DaysSinceEpoch 30828"
    using DaysSinceEpoch_mono [of "Year tf" 30828] date assms(2) by (simp add: date_ok_def)
  also have "\<dots> = 10674942" by (simp add: DaysSinceEpoch_eq)
  finally have n1: "n < 10674942" .
  have v: "0 \<le> Hour tf" "Hour tf \<le> 23" "0 \<le> Minute tf" "Minute tf \<le> 59" "0 \<le> Second tf" "Second tf \<le> 59"
    "0 \<le> Milliseconds tf" "Milliseconds tf \<le> 999"
    using assms(1) by (auto simp: time_fields_invalid_def)
  define k where "k = clock_ticks (Hour tf) (Minute tf) (Second tf) (Milliseconds tf)"
  note K = clock_ticks_fields [OF v, folded k_def]
  have t: "RtlTimeFieldsToTime tf = Some (n * 864000000000 + k)"
    using RtlTimeFieldsToTime_eq [OF assms(1)] n1 by (simp add: n_def k_def date_limit_def)
  have range: "0 \<le> n * 864000000000 + k" "n * 864000000000 + k < 9223372036854775808"
    using n0 n1 K(1,2) by simp_all
  note S = time_split [OF refl K(1,2), of n]
  obtain y m d where "date_ok y m d" "day_number y m d = n"
    and eq: "RtlTimeToTimeFields (n * 864000000000 + k) = Some \<lparr>Year = y, Month = m, Day = d,
       Hour = k div 10000000 div 3600, Minute = k div 10000000 mod 3600 div 60,
       Second = k div 10000000 mod 3600 mod 60, Milliseconds = k mod 10000000 div 10000,
       Weekday = (1 + n) mod 7\<rparr>"
    using RtlTimeToTimeFields_eq [OF range] S by metis
  moreover from this have "y = Year tf" "m = Month tf" "d = Day tf"
    using day_number_inj [OF _ date] by (auto simp: n_def)
  ultimately show ?thesis
    using t range(1) K(3-6) by (intro exI [of _ "n * 864000000000 + k"]) (simp add: n_def)
qed

definition example_fields :: TIME_FIELDS where
  "example_fields = \<lparr>Year = 2000, Month = 2, Day = 29, Hour = 23, Minute = 59, Second = 58,
     Milliseconds = 7, Weekday = 0\<rparr>"

lemma example_fields_valid: "\<not> time_fields_invalid example_fields"
  by (simp add: example_fields_def time_fields_invalid_def MonthLengths_def leap_iff)

section \<open>Cutover days\<close>

lemma cutover_in_year_spec:
  assumes ok: "\<not> time_fields_invalid (ctf\<lparr>Year := y, Day := 1\<rparr>)" and y: "y \<le> 30827"
    and d: "1 \<le> Day ctf" "Day ctf \<le> 5" and w: "0 \<le> Weekday ctf" "Weekday ctf \<le> 6"
  defines "len \<equiv> MonthLengths (leap y) ! nat (Month ctf - 1)"
  obtains t x where "cutover_in_year ctf y = Some t"
    "RtlTimeToTimeFields t = Some (ctf\<lparr>Year := y, Day := x\<rparr>)"
    "Day ctf < 5 \<longrightarrow> 7 * (Day ctf - 1) < x \<and> x \<le> 7 * Day ctf" "Day ctf = 5 \<longrightarrow> len - 7 < x \<and> x \<le> len"
proof -
  define n where "n = day_number y (Month ctf) 1"
  define w1 where "w1 = (1 + n) mod 7"
  have w1: "0 \<le> w1" "w1 \<le> 6" by (simp_all add: w1_def)
  have m: "1601 \<le> y" "1 \<le> Month ctf" "Month ctf \<le> 12" using ok by (simp_all add: time_fields_invalid_def)
  have len: "28 \<le> len" "len \<le> 31"
    using MonthLengths_nth_bounds [of "nat (Month ctf - 1)" "leap y"] m by (simp_all add: len_def)
  obtain t1 where t1: "RtlTimeFieldsToTime (ctf\<lparr>Year := y, Day := 1\<rparr>) = Some t1"
    "RtlTimeToTimeFields t1 = Some (ctf\<lparr>Year := y, Day := 1, Weekday := w1\<rparr>)"
    using fields_inverse [OF ok] y by (auto simp: w1_def n_def)
  define f where "f = 1 + (if w1 = Weekday ctf then 0 else if w1 < Weekday ctf then Weekday ctf - w1
    else 7 - (w1 - Weekday ctf))"
  have f: "1 \<le> f" "f \<le> 7" using w w1 by (auto simp: f_def)
  have fw: "(w1 + (f - 1)) mod 7 = Weekday ctf" using w w1 by (auto simp: f_def mod_pos_geq)
  define x where "x = f + (if f + 7 * (Day ctf - 1) > len then 7 * (Day ctf - 1) - 7 else 7 * (Day ctf - 1))"
  have x: "1 \<le> x" "x \<le> len" "Day ctf < 5 \<longrightarrow> 7 * (Day ctf - 1) < x \<and> x \<le> 7 * Day ctf"
    "Day ctf = 5 \<longrightarrow> len - 7 < x"
    using f d len by (auto simp: x_def)
  have "x mod 7 = f mod 7"
    unfolding x_def using mod_mult_self2 [of f 7 "Day ctf - 1"] mod_mult_self2 [of f 7 "Day ctf - 2"]
    by (simp add: algebra_simps)
  then have "(w1 + (x - 1)) mod 7 = Weekday ctf" using fw by (metis add_diff_eq mod_add_right_eq mod_diff_left_eq)
  moreover have "day_number y (Month ctf) x = n + (x - 1)" by (simp add: day_number_def n_def)
  ultimately have wx: "(1 + day_number y (Month ctf) x) mod 7 = Weekday ctf"
    by (metis add.assoc mod_add_left_eq w1_def)
  have okx: "\<not> time_fields_invalid (ctf\<lparr>Year := y, Day := x\<rparr>)"
    using ok x len by (simp add: time_fields_invalid_def len_def)
  obtain t where t: "RtlTimeFieldsToTime (ctf\<lparr>Year := y, Day := x\<rparr>) = Some t"
    "RtlTimeToTimeFields t = Some (ctf\<lparr>Year := y, Day := x\<rparr>)"
    using fields_inverse [OF okx] y wx by auto
  have step1: "(if w1 \<noteq> Weekday ctf then (ctf\<lparr>Year := y, Day := 1\<rparr>)\<lparr>Day := CSHORT (1 + CSHORT (if w1 < Weekday ctf
      then Weekday ctf - w1 else DAYSPERWEEK - (w1 - Weekday ctf)))\<rparr> else ctf\<lparr>Year := y, Day := 1\<rparr>) =
    ctf\<lparr>Year := y, Day := f\<rparr>"
    using w w1 by (auto simp: f_def CSHORT_id)
  have sel: "Weekday (ctf\<lparr>Year := y, Day := 1, Weekday := w1\<rparr>) = w1" "Day (ctf\<lparr>Year := y, Day := z\<rparr>) = z"
    "Year (ctf\<lparr>Year := y, Day := z\<rparr>) = y" "Month (ctf\<lparr>Year := y, Day := z\<rparr>) = Month ctf" for z by simp_all
  have days: "CSHORT (DAYSPERWEEK * (Day ctf - 1)) = 7 * (Day ctf - 1)" "CSHORT len = len"
    "CSHORT (7 * (Day ctf - 1) - DAYSPERWEEK) = 7 * (Day ctf - 1) - 7" "CSHORT x = x"
    using d len x by (auto intro!: CSHORT_id)
  have step2: "(if 1 < Day ctf then (ctf\<lparr>Year := y, Day := f\<rparr>)\<lparr>Day := CSHORT (f +
      (if len < f + 7 * (Day ctf - 1) then 7 * (Day ctf - 1) - 7 else 7 * (Day ctf - 1)))\<rparr>
      else ctf\<lparr>Year := y, Day := f\<rparr>) = ctf\<lparr>Year := y, Day := x\<rparr>"
    using d f len days(4) by (auto simp: x_def)
  have "cutover_in_year ctf y = Some t"
    unfolding cutover_in_year_def Let_def t1(1) option.case t1(2)
    by (simp only: sel step1 days(1-3) len_def [symmetric] step2 t(1))
  then show thesis using that t x by blast
qed
lemma LONGLONG_add_diff:
  assumes "- 9223372036854775808 \<le> t" and "t < 9223372036854775808"
  shows "LONGLONG (LONGLONG (t + b) - b) = t"
proof -
  have "take_bit 64 (signed_take_bit 63 (t + b)) = take_bit 64 (t + b)"
    by (simp add: take_bit_signed_take_bit)
  then have "take_bit 64 (signed_take_bit 63 (t + b) - b) = take_bit 64 t"
    by (metis add_diff_cancel_right' take_bit_diff)
  then have "signed_take_bit 63 (signed_take_bit 63 (t + b) - b) = signed_take_bit 63 t"
    using signed_take_bit_eq_iff_take_bit_eq [of 63 "signed_take_bit 63 (t + b) - b" t] by simp
  with LONGLONG_id [OF assms] show ?thesis by (simp add: LONGLONG_def)
qed

text \<open>The rule of the European daylight saving time: the last Sunday of March, at two.\<close>

definition example_rule :: TIME_FIELDS where
  "example_rule = \<lparr>Year = 0, Month = 3, Day = 5, Hour = 2, Minute = 0, Second = 0, Milliseconds = 0, Weekday = 0\<rparr>"

section \<open>Properties\<close>

text \<open>
  C8: for every time from 1601 up to the last whole day of the 64-bit range,
  \<open>RtlTimeToTimeFields\<close> yields valid fields with a weekday from 0 to 6, without
  reading past the month table, and \<open>RtlTimeFieldsToTime\<close> takes them back to the
  time cut to the millisecond.
\<close>

theorem time_to_fields_to_time:
  assumes "0 \<le> t" and "t < date_limit * 864000000000"
  shows "\<exists>tf. RtlTimeToTimeFields t = Some tf \<and> \<not> time_fields_invalid tf \<and>
    0 \<le> Weekday tf \<and> Weekday tf \<le> 6 \<and> RtlTimeFieldsToTime tf = Some (t - t mod 10000)"
proof -
  define n k where "n = t div 864000000000" and "k = t mod 864000000000"
  have t: "t = n * 864000000000 + k" and k: "0 \<le> k" "k < 864000000000"
    by (simp_all add: n_def k_def)
  have n: "n < date_limit" using assms(2) by (simp add: n_def date_limit_def)
  note S = time_split [OF t k]
  have t63: "t < 9223372036854775808" using assms(2) by (simp add: date_limit_def)
  obtain y m d where date: "date_ok y m d" "day_number y m d = n"
    and eq: "RtlTimeToTimeFields t = Some \<lparr>Year = y, Month = m, Day = d,
       Hour = k div 10000000 div 3600, Minute = k div 10000000 mod 3600 div 60,
       Second = k div 10000000 mod 3600 mod 60, Milliseconds = k mod 10000000 div 10000,
       Weekday = (1 + n) mod 7\<rparr>" (is "_ = Some ?tf")
    using RtlTimeToTimeFields_eq [OF assms(1) t63] S by metis
  have ok: "\<not> time_fields_invalid ?tf"
    using k by (intro fields_valid [OF date(1)]) simp_all
  have "k mod 10000 = t mod 10000"
    unfolding t using mod_mult_self1 [of k "n * 86400000" 10000] by (simp add: algebra_simps)
  moreover have "RtlTimeFieldsToTime ?tf = Some (n * 864000000000 + (k - k mod 10000))"
    using RtlTimeFieldsToTime_eq [OF ok] n
    by (simp only: TIME_FIELDS.simps date(2) clock_ticks_of [OF k])
  ultimately show ?thesis using eq ok t by simp
qed

theorem time_to_fields_to_time_witness:
  "\<exists>tf. RtlTimeToTimeFields 0x01d2a3b4c5d6e7f8 = Some tf \<and> \<not> time_fields_invalid tf \<and>
    0 \<le> Weekday tf \<and> Weekday tf \<le> 6 \<and>
    RtlTimeFieldsToTime tf = Some (0x01d2a3b4c5d6e7f8 - 0x01d2a3b4c5d6e7f8 mod 10000)"
  by (rule time_to_fields_to_time) (simp_all add: date_limit_def)

text \<open>
  C26: every valid set of fields up to the year 30827 has a time, and
  \<open>RtlTimeToTimeFields\<close> gives exactly these fields back, with the weekday filled in.
\<close>

theorem fields_to_time_to_fields:
  assumes "\<not> time_fields_invalid tf" and "Year tf \<le> 30827"
  shows "\<exists>t. RtlTimeFieldsToTime tf = Some t \<and> 0 \<le> t \<and>
    RtlTimeToTimeFields t =
      Some (tf\<lparr>Weekday := (1 + day_number (Year tf) (Month tf) (Day tf)) mod 7\<rparr>)"
  by (rule fields_inverse [OF assms])

theorem fields_to_time_to_fields_witness:
  "\<exists>t. RtlTimeFieldsToTime example_fields = Some t \<and> 0 \<le> t \<and>
    RtlTimeToTimeFields t = Some (example_fields\<lparr>Weekday :=
      (1 + day_number (Year example_fields) (Month example_fields) (Day example_fields)) mod 7\<rparr>)"
  by (rule fields_to_time_to_fields [OF example_fields_valid]) (simp add: example_fields_def)

text \<open>
  C37: \<open>RtlTimeToTimeFields\<close> is the Gregorian calendar. Tick 0 is Monday, January 1st
  1601, and a day later the date is the next date, by the lengths of the months and
  the leap year rule, the weekday the next weekday, and the time of day the same.
\<close>

theorem calendar_next_day:
  assumes "0 \<le> t" and "t + 864000000000 < 9223372036854775808"
  shows "RtlTimeToTimeFields 0 = Some \<lparr>Year = 1601, Month = 1, Day = 1, Hour = 0, Minute = 0, Second = 0,
      Milliseconds = 0, Weekday = 1\<rparr> \<and>
    (\<exists>tf tf'. RtlTimeToTimeFields t = Some tf \<and> RtlTimeToTimeFields (t + 864000000000) = Some tf' \<and>
      (Year tf', Month tf', Day tf') = next_date (Year tf, Month tf, Day tf) \<and>
      Weekday tf' = (Weekday tf + 1) mod 7 \<and> Hour tf' = Hour tf \<and> Minute tf' = Minute tf \<and>
      Second tf' = Second tf \<and> Milliseconds tf' = Milliseconds tf)"
proof -
  define n k where "n = t div 864000000000" and "k = t mod 864000000000"
  have t: "t = n * 864000000000 + k" and k: "0 \<le> k" "k < 864000000000"
    by (simp_all add: n_def k_def)
  have t': "t + 864000000000 = (n + 1) * 864000000000 + k" using t by (simp add: algebra_simps)
  have t63: "t < 9223372036854775808" "0 \<le> t + 864000000000" using assms by simp_all
  obtain y m d where date: "date_ok y m d" "day_number y m d = n"
    and eq: "RtlTimeToTimeFields t = Some \<lparr>Year = y, Month = m, Day = d,
       Hour = k div 10000000 div 3600, Minute = k div 10000000 mod 3600 div 60,
       Second = k div 10000000 mod 3600 mod 60, Milliseconds = k mod 10000000 div 10000,
       Weekday = (1 + n) mod 7\<rparr>"
    using RtlTimeToTimeFields_eq [OF assms(1) t63(1)] time_split [OF t k] by metis
  obtain y' m' d' where date': "date_ok y' m' d'" "day_number y' m' d' = n + 1"
    and eq': "RtlTimeToTimeFields (t + 864000000000) = Some \<lparr>Year = y', Month = m', Day = d',
       Hour = k div 10000000 div 3600, Minute = k div 10000000 mod 3600 div 60,
       Second = k div 10000000 mod 3600 mod 60, Milliseconds = k mod 10000000 div 10000,
       Weekday = (1 + (n + 1)) mod 7\<rparr>"
    using RtlTimeToTimeFields_eq [OF t63(2) assms(2)] time_split [OF t' k] by metis
  obtain y2 m2 d2 where nx: "next_date (y, m, d) = (y2, m2, d2)" by (cases "next_date (y, m, d)")
  have "(y', m', d') = next_date (y, m, d)"
    using next_date_day_number [OF date(1) nx] day_number_inj [OF date'(1), of y2 m2 d2] date date' nx by simp
  moreover have "(1 + (n + 1)) mod 7 = ((1 + n) mod 7 + 1) mod 7"
    by (simp add: mod_add_left_eq add.assoc)
  ultimately show ?thesis using eq eq' calendar_epoch by simp
qed

theorem calendar_next_day_witness:
  "RtlTimeToTimeFields 0 = Some \<lparr>Year = 1601, Month = 1, Day = 1, Hour = 0, Minute = 0, Second = 0,
      Milliseconds = 0, Weekday = 1\<rparr> \<and>
    (\<exists>tf tf'. RtlTimeToTimeFields 5000000000000 = Some tf \<and>
      RtlTimeToTimeFields (5000000000000 + 864000000000) = Some tf' \<and>
      (Year tf', Month tf', Day tf') = next_date (Year tf, Month tf, Day tf) \<and>
      Weekday tf' = (Weekday tf + 1) mod 7 \<and> Hour tf' = Hour tf \<and> Minute tf' = Minute tf \<and>
      Second tf' = Second tf \<and> Milliseconds tf' = Milliseconds tf)"
  by (rule calendar_next_day) simp_all

text \<open>
  \<open>RtlTimeFieldsToTime\<close> accepts years the 64-bit count cannot represent. Every
  valid set of fields from the year 30829 to the largest year a \<open>CSHORT\<close> holds is
  accepted with success and a negative time.
\<close>

theorem RtlTimeFieldsToTime_overflow:
  assumes "\<not> time_fields_invalid tf" and "30829 \<le> Year tf" and "Year tf \<le> 32767"
  shows "\<exists>t. RtlTimeFieldsToTime tf = Some t \<and> t < 0"
proof -
  define n s where "n = day_number (Year tf) (Month tf) (Day tf)"
    and "s = Hour tf * 3600 + Minute tf * 60 + Second tf"
  have date: "date_ok (Year tf) (Month tf) (Day tf)"
    using assms(1) by (simp add: time_fields_invalid_def date_ok_def)
  have v: "0 \<le> Hour tf" "Hour tf \<le> 23" "0 \<le> Minute tf" "Minute tf \<le> 59" "0 \<le> Second tf" "Second tf \<le> 59"
    "0 \<le> Milliseconds tf" "Milliseconds tf \<le> 999" "1 \<le> Month tf" "Month tf \<le> 12" "1 \<le> Day tf"
    using assms(1) by (auto simp: time_fields_invalid_def)
  have s: "0 \<le> s" "s < 86400" using v by (simp_all add: s_def)
  have e0: "DaysSinceEpoch 30829 \<le> DaysSinceEpoch (Year tf)"
    using DaysSinceEpoch_mono [of 30829 "Year tf"] YearLengths_bounds(1) [of "leap 30829"] assms(2)
    by (cases "Year tf = 30829") auto
  have e: "10675308 \<le> DaysSinceEpoch (Year tf)" "DaysSinceEpoch (Year tf) \<le> 11406756"
    using e0 DaysSinceEpoch_bounds [of "Year tf"] assms by (auto simp: DaysSinceEpoch_eq [of 30829])
  have n: "10675308 \<le> n" "n < 11407200"
    using day_in_year [OF date] e YearLengths_bounds(2) [of "leap (Year tf)"] by (simp_all add: n_def day_number_def)
  have days: "add_months (leap (Year tf)) 1 (Month tf) (DaysSinceEpoch (Year tf)) + (Day tf - 1) = n"
    using add_months_eq [of 1 "Month tf" "DaysSinceEpoch (Year tf)" "leap (Year tf)"] v e
    by (simp add: month_start_def day_number_def n_def)
  define x where "x = (n * 86400 + s) * 10000000"
  have x: "9223466112000000000 \<le> x" "x < 9855820800000000000" using n s by (simp_all add: x_def)
  have steps: "LONGLONG n = n" "LONGLONG (n * 86400) = n * 86400" "LONGLONG (n * 86400 + s) = n * 86400 + s"
    using n s by (auto intro!: LONGLONG_id)
  have w: "LONGLONG x = x - 18446744073709551616"
    unfolding LONGLONG_def by (rule LONGLONG_wrap) (use x in simp_all)
  have w': "LONGLONG (x - 18446744073709551616 + Milliseconds tf * 10000) =
      x - 18446744073709551616 + Milliseconds tf * 10000"
    using x v by (intro LONGLONG_id) simp_all
  have "RtlTimeFieldsToTime tf = Some (x - 18446744073709551616 + Milliseconds tf * 10000)"
    using assms(1) unfolding RtlTimeFieldsToTime_def Let_def days s_def [symmetric] steps x_def [symmetric] w w'
    by simp
  then show ?thesis using x v by simp
qed

theorem RtlTimeFieldsToTime_overflow_witness:
  "\<exists>t. RtlTimeFieldsToTime \<lparr>Year = 30829, Month = 1, Day = 1, Hour = 0, Minute = 0, Second = 0,
     Milliseconds = 0, Weekday = 0\<rparr> = Some t \<and> t < 0"
  by (rule RtlTimeFieldsToTime_overflow)
    (simp_all add: time_fields_invalid_def MonthLengths_def leap_iff)

text \<open>
  Every 32-bit count of seconds since 1970 or since 1980 survives the way to a
  time and back.
\<close>

theorem seconds_roundtrip:
  assumes "0 \<le> s" and "s < 4294967296"
  shows "RtlTimeToSecondsSince1970 (RtlSecondsSince1970ToTime s) = Some s \<and>
    RtlTimeToSecondsSince1980 (RtlSecondsSince1980ToTime s) = Some s"
  using seconds_since_inverse [OF assms]
  by (simp add: RtlTimeToSecondsSince1970_def RtlSecondsSince1970ToTime_def
      RtlTimeToSecondsSince1980_def RtlSecondsSince1980ToTime_def)

theorem seconds_roundtrip_witness:
  "RtlTimeToSecondsSince1970 (RtlSecondsSince1970ToTime 1234567890) = Some 1234567890 \<and>
   RtlTimeToSecondsSince1980 (RtlSecondsSince1980ToTime 1234567890) = Some 1234567890"
  by (rule seconds_roundtrip) simp_all

text \<open>
  A recurring cutover is resolved to the right day. For a rule with a day from 1
  to 5, a weekday and a valid time of day, asked for this year only, the routine
  yields a time in the current year and the rule's month, at the rule's weekday and
  time of day, and the day is the n-th such weekday of the month for n up to 4 and
  the last one for n = 5.
\<close>

theorem recurring_cutover:
  assumes "RtlTimeToTimeFields now = Some cur" and "Year cur \<le> 30827"
    and "Year ctf = 0" and "1 \<le> Day ctf" and "Day ctf \<le> 5" and "0 \<le> Weekday ctf" and "Weekday ctf \<le> 6"
    and "\<not> time_fields_invalid (ctf\<lparr>Year := Year cur, Day := 1\<rparr>)"
  shows "\<exists>t x. RtlCutoverTimeToSystemTime ctf now True = Some t \<and>
    RtlTimeToTimeFields t = Some (ctf\<lparr>Year := Year cur, Day := x\<rparr>) \<and>
    (if Day ctf < 5 then 7 * (Day ctf - 1) < x \<and> x \<le> 7 * Day ctf
     else MonthLengths (IsLeapYear (Year cur)) ! nat (Month ctf - 1) - 7 < x \<and>
       x \<le> MonthLengths (IsLeapYear (Year cur)) ! nat (Month ctf - 1))"
  by (rule cutover_in_year_spec [OF assms(8,2,4-7)])
    (use assms in \<open>auto simp: RtlCutoverTimeToSystemTime_def\<close>)

theorem recurring_cutover_witness:
  "\<exists>t x. RtlCutoverTimeToSystemTime example_rule 0 True = Some t \<and>
    RtlTimeToTimeFields t = Some (example_rule\<lparr>Year := 1601, Day := x\<rparr>) \<and> 31 - 7 < x \<and> x \<le> 31"
  using recurring_cutover [OF calendar_epoch, of example_rule]
  by (simp add: example_rule_def time_fields_invalid_def MonthLengths_def leap_iff)

text \<open>
  Local and system time are inverse to each other: whatever status and bias the
  query reports, converting a 64-bit local time to system time and back returns the
  time, or both routines return the status of the failed query and write nothing.
\<close>

theorem local_system_time_inverse:
  assumes "- 9223372036854775808 \<le> t" and "t < 9223372036854775808"
  shows "case RtlLocalTimeToSystemTime (st, bias) t of
      (s, Some u) \<Rightarrow> s = STATUS_SUCCESS \<and> RtlSystemTimeToLocalTime (st, bias) u = (STATUS_SUCCESS, Some t)
    | (s, None) \<Rightarrow> s = st \<and> \<not> NT_SUCCESS st \<and> RtlSystemTimeToLocalTime (st, bias) t = (st, None)"
  using LONGLONG_add_diff [OF assms]
  by (simp add: RtlLocalTimeToSystemTime_def RtlSystemTimeToLocalTime_def)

theorem local_system_time_inverse_witness:
  "case RtlLocalTimeToSystemTime (STATUS_SUCCESS, 36000000000) 9223372036854775807 of
      (s, Some u) \<Rightarrow> s = STATUS_SUCCESS \<and>
        RtlSystemTimeToLocalTime (STATUS_SUCCESS, 36000000000) u = (STATUS_SUCCESS, Some 9223372036854775807)
    | (s, None) \<Rightarrow> s = STATUS_SUCCESS \<and> \<not> NT_SUCCESS STATUS_SUCCESS \<and>
        RtlSystemTimeToLocalTime (STATUS_SUCCESS, 36000000000) 9223372036854775807 = (STATUS_SUCCESS, None)"
  by (rule local_system_time_inverse) simp_all

end
