(* ===== verification/Byte_Memory.thy ===== *)
theory Byte_Memory
  imports Rtl_Memory
begin

text \<open>
  The flat byte memory on which the security structures (SIDs, ACEs and ACLs) live,
  and the routines that move and fill it: \<open>memcpy\<close>, \<open>memmove\<close> and \<open>memset\<close> of
  \<open>lib/sdk/crt/mem\<close> and the wrappers of \<open>lib/rtl/mem.c\<close>.

  An address is a natural number and a memory a total function from addresses to
  bytes. Pointer arithmetic inside an object is plain addition; arithmetic that the
  code does on a pointer cast to \<open>ULONG_PTR\<close> goes through \<open>ptr_add\<close> and wraps at
  32 bits, the pointer width of the i386 build. Fields wider than a byte are
  little endian.
\<close>

section \<open>Addresses and fields\<close>

definition ptr_add :: "nat \<Rightarrow> nat \<Rightarrow> nat" where
  "ptr_add p n = (p + n) mod 4294967296"

definition read_USHORT :: "bytes \<Rightarrow> nat \<Rightarrow> USHORT" where
  "read_USHORT m p = ucast (m p) OR push_bit 8 (ucast (m (p + 1)))"

definition write_USHORT :: "bytes \<Rightarrow> nat \<Rightarrow> USHORT \<Rightarrow> bytes" where
  "write_USHORT m p v = m(p := ucast v, p + 1 := ucast (drop_bit 8 v))"

definition read_ULONG :: "bytes \<Rightarrow> nat \<Rightarrow> ULONG" where
  "read_ULONG m p = ucast (m p) OR push_bit 8 (ucast (m (p + 1))) OR push_bit 16 (ucast (m (p + 2))) OR
     push_bit 24 (ucast (m (p + 3)))"

definition write_ULONG :: "bytes \<Rightarrow> nat \<Rightarrow> ULONG \<Rightarrow> bytes" where
  "write_ULONG m p v = m(p := ucast v, p + 1 := ucast (drop_bit 8 v), p + 2 := ucast (drop_bit 16 v),
     p + 3 := ucast (drop_bit 24 v))"

section \<open>Copying and filling\<close>

fun copy_up :: "bytes \<Rightarrow> nat \<Rightarrow> nat \<Rightarrow> nat \<Rightarrow> bytes" where
  "copy_up m char_dest char_src 0 = m"
| "copy_up m char_dest char_src (Suc count) =
     copy_up (m(char_dest := m char_src)) (Suc char_dest) (Suc char_src) count"

text \<open>The loop that runs downwards from the last byte; \<open>count\<close> bytes are left to copy.\<close>

fun copy_down :: "bytes \<Rightarrow> nat \<Rightarrow> nat \<Rightarrow> nat \<Rightarrow> bytes" where
  "copy_down m dest src 0 = m"
| "copy_down m dest src (Suc count) = copy_down (m(dest + count := m (src + count))) dest src count"

definition memcpy :: "bytes \<Rightarrow> nat \<Rightarrow> nat \<Rightarrow> nat \<Rightarrow> bytes" where
  "memcpy m dest src count =
     (if dest \<le> src \<or> dest \<ge> src + count then copy_up m dest src count
      else copy_down m dest src count)"

definition memmove :: "bytes \<Rightarrow> nat \<Rightarrow> nat \<Rightarrow> nat \<Rightarrow> bytes" where
  "memmove m dest src count =
     (if dest \<le> src \<or> dest \<ge> src + count then copy_up m dest src count
      else copy_down m dest src count)"

fun memset :: "bytes \<Rightarrow> nat \<Rightarrow> UCHAR \<Rightarrow> nat \<Rightarrow> bytes" where
  "memset m char_src val 0 = m"
| "memset m char_src val (Suc count) = memset (m(char_src := val)) (Suc char_src) val count"

definition RtlFillMemory :: "bytes \<Rightarrow> nat \<Rightarrow> ULONG \<Rightarrow> UCHAR \<Rightarrow> bytes" where
  "RtlFillMemory m Destination Length Fill = memset m Destination Fill (unat Length)"

definition RtlMoveMemory :: "bytes \<Rightarrow> nat \<Rightarrow> nat \<Rightarrow> ULONG \<Rightarrow> bytes" where
  "RtlMoveMemory m Destination Source Length = memmove m Destination Source (unat Length)"

definition RtlZeroMemory :: "bytes \<Rightarrow> nat \<Rightarrow> ULONG \<Rightarrow> bytes" where
  "RtlZeroMemory m Destination Length = RtlFillMemory m Destination Length 0"

fun compare_ulong_loop :: "bytes \<Rightarrow> nat \<Rightarrow> ULONG \<Rightarrow> nat \<Rightarrow> nat" where
  "compare_ulong_loop m ptr Value 0 = ptr"
| "compare_ulong_loop m ptr Value (Suc left) =
     (if read_ULONG m ptr \<noteq> Value then ptr else compare_ulong_loop m (ptr + 4) Value left)"

definition RtlCompareMemoryUlong :: "bytes \<Rightarrow> nat \<Rightarrow> nat \<Rightarrow> ULONG \<Rightarrow> nat" where
  "RtlCompareMemoryUlong m Source Length Value = compare_ulong_loop m Source Value (Length div 4) - Source"

section \<open>Field lemmas\<close>

lemma unat_UCHAR_less: "unat (b :: UCHAR) < 256"
  using unsigned_less [of b] by simp

lemma unat_USHORT_less: "unat (w :: USHORT) < 65536"
  using unsigned_less [of w] by simp

lemma unat_widen [simp]:
  "unat (ucast (b :: UCHAR) :: ULONG) = unat b" "unat (ucast (w :: USHORT) :: ULONG) = unat w"
  using unat_UCHAR_less [of b] unat_USHORT_less [of w] by (simp_all add: unsigned_ucast_eq take_bit_nat_eq_self)

lemma read_USHORT_cong: "m p = m' q \<Longrightarrow> m (p + 1) = m' (q + 1) \<Longrightarrow> read_USHORT m p = read_USHORT m' q"
  by (simp add: read_USHORT_def)

lemma read_ULONG_cong: "(\<And>k. k < 4 \<Longrightarrow> m (p + k) = m' (q + k)) \<Longrightarrow> read_ULONG m p = read_ULONG m' q"
proof -
  assume "\<And>k. k < 4 \<Longrightarrow> m (p + k) = m' (q + k)"
  from this [of 0] this [of 1] this [of 2] this [of 3] show ?thesis by (simp add: read_ULONG_def)
qed

lemma read_write_USHORT [simp]: "read_USHORT (write_USHORT m p v) p = v"
  by (rule bit_word_eqI)
    (auto simp: read_USHORT_def write_USHORT_def bit_or_iff bit_push_bit_iff bit_ucast_iff bit_drop_bit_eq)

lemma read_write_ULONG [simp]: "read_ULONG (write_ULONG m p v) p = v"
proof (rule bit_word_eqI)
  fix n assume "n < LENGTH(32)"
  then consider "n < 8" | "8 \<le> n" "n < 16" | "16 \<le> n" "n < 24" | "24 \<le> n" "n < 32" by fastforce
  then show "bit (read_ULONG (write_ULONG m p v) p) n = bit v n"
    by cases (simp_all add: read_ULONG_def write_ULONG_def bit_or_iff bit_push_bit_iff bit_ucast_iff bit_drop_bit_eq, linarith+)
qed

lemma write_USHORT_other: "q < p \<or> p + 2 \<le> q \<Longrightarrow> write_USHORT m p v q = m q"
  by (auto simp: write_USHORT_def)

lemma write_ULONG_other: "q < p \<or> p + 4 \<le> q \<Longrightarrow> write_ULONG m p v q = m q"
  by (auto simp: write_ULONG_def)

section \<open>Copying is simultaneous\<close>

definition move_bytes :: "bytes \<Rightarrow> nat \<Rightarrow> nat \<Rightarrow> nat \<Rightarrow> bytes" where
  "move_bytes m d s n = (\<lambda>p. if d \<le> p \<and> p < d + n then m (s + (p - d)) else m p)"

lemma copy_up_eq: "d \<le> s \<or> s + n \<le> d \<Longrightarrow> copy_up m d s n = move_bytes m d s n"
proof (induction n arbitrary: m d s)
  case (Suc n)
  then have "Suc d \<le> Suc s \<or> Suc s + n \<le> Suc d" by auto
  from Suc.IH [OF this] have "copy_up m d s (Suc n) = move_bytes (m(d := m s)) (Suc d) (Suc s) n" by (simp add: fun_upd_def)
  also have "\<dots> = move_bytes m d s (Suc n)" 
  proof
    fix p
    have "Suc s + (p - Suc d) = s + (p - d)" if "Suc d \<le> p" using that by simp
    moreover have "s + (p - d) \<noteq> d" if "Suc d \<le> p" "p < d + Suc n" using that Suc.prems by auto
    ultimately show "move_bytes (m(d := m s)) (Suc d) (Suc s) n p = move_bytes m d s (Suc n) p"
      by (cases "p = d") (simp_all add: move_bytes_def)
  qed
  finally show ?case .
qed (auto simp: move_bytes_def fun_eq_iff)

lemma copy_down_eq: "s \<le> d \<Longrightarrow> copy_down m d s n = move_bytes m d s n"
proof (induction n arbitrary: m)
  case (Suc n)
  from Suc.IH [OF Suc.prems] have "copy_down m d s (Suc n) = move_bytes (m(d + n := m (s + n))) d s n" by (simp add: fun_upd_def)
  also have "\<dots> = move_bytes m d s (Suc n)" using Suc.prems by (auto simp: move_bytes_def fun_eq_iff less_Suc_eq)
  finally show ?case .
qed (auto simp: move_bytes_def fun_eq_iff)

lemma memmove_eq: "memmove m d s n = move_bytes m d s n"
  by (simp add: memmove_def copy_up_eq copy_down_eq)

lemma memcpy_eq: "memcpy m d s n = move_bytes m d s n"
  by (simp add: memcpy_def copy_up_eq copy_down_eq)

lemma memset_eq: "memset m d v n p = (if d \<le> p \<and> p < d + n then v else m p)"
  by (induction n arbitrary: m d) (auto simp: fun_upd_def)

lemma compare_ulong_loop_spec:
  "\<exists>k\<le>n. compare_ulong_loop m p v n = p + 4 * k \<and> (\<forall>i<k. read_ULONG m (p + 4 * i) = v) \<and>
     (k < n \<longrightarrow> read_ULONG m (p + 4 * k) \<noteq> v)"
proof (induction n arbitrary: p)
  case (Suc n)
  show ?case
  proof (cases "read_ULONG m p = v")
    case True
    obtain k where k: "k \<le> n" "compare_ulong_loop m (p + 4) v n = p + 4 + 4 * k"
      "\<forall>i<k. read_ULONG m (p + 4 + 4 * i) = v" "k < n \<longrightarrow> read_ULONG m (p + 4 + 4 * k) \<noteq> v"
      using Suc [of "p + 4"] by auto
    have "read_ULONG m (p + 4 * i) = v" if "i < Suc k" for i
      using that k(3) True by (cases i) (auto simp: algebra_simps)
    then show ?thesis
      using k True by (intro exI [of _ "Suc k"]) (auto simp: algebra_simps)
  qed (auto intro!: exI [of _ 0])
qed auto

text \<open>
  \<open>RtlCompareMemoryUlong\<close> returns four times the number of leading words equal to
  the value.
\<close>

lemma RtlCompareMemoryUlong_spec:
  "\<exists>k\<le>Length div 4. RtlCompareMemoryUlong m Source Length Value = 4 * k \<and>
     (\<forall>i<k. read_ULONG m (Source + 4 * i) = Value) \<and>
     (k < Length div 4 \<longrightarrow> read_ULONG m (Source + 4 * k) \<noteq> Value)"
proof -
  obtain k where "k \<le> Length div 4" "compare_ulong_loop m Source Value (Length div 4) = Source + 4 * k"
    "\<forall>i<k. read_ULONG m (Source + 4 * i) = Value"
    "k < Length div 4 \<longrightarrow> read_ULONG m (Source + 4 * k) \<noteq> Value"
    using compare_ulong_loop_spec by blast
  then show ?thesis unfolding RtlCompareMemoryUlong_def by (intro exI [of _ k]) simp
qed

section \<open>Byte sequences in memory\<close>

definition bytes_at :: "bytes \<Rightarrow> nat \<Rightarrow> nat \<Rightarrow> UCHAR list" where
  "bytes_at m p n = map m [p..<p + n]"

definition put_bytes :: "bytes \<Rightarrow> nat \<Rightarrow> UCHAR list \<Rightarrow> bytes" where
  "put_bytes m p bs = (\<lambda>q. if p \<le> q \<and> q < p + length bs then bs ! (q - p) else m q)"

definition holds :: "bytes \<Rightarrow> nat \<Rightarrow> UCHAR list \<Rightarrow> bool" where
  "holds m p bs \<longleftrightarrow> bytes_at m p (length bs) = bs"

lemma length_bytes_at [simp]: "length (bytes_at m p n) = n"
  by (simp add: bytes_at_def)

lemma nth_bytes_at [simp]: "i < n \<Longrightarrow> bytes_at m p n ! i = m (p + i)"
  by (simp add: bytes_at_def)

lemma holds_iff: "holds m p bs \<longleftrightarrow> (\<forall>i<length bs. m (p + i) = bs ! i)"
  by (auto simp: holds_def list_eq_iff_nth_eq)

lemma holds_Nil [simp]: "holds m p []"
  by (simp add: holds_iff)

lemma holds_append: "holds m p (xs @ ys) \<longleftrightarrow> holds m p xs \<and> holds m (p + length xs) ys"
proof
  assume h: "holds m p (xs @ ys)"
  have "m (p + length xs + i) = ys ! i" if "i < length ys" for i
    using h that by (auto simp: holds_iff nth_append add.assoc dest: spec [of _ "length xs + i"])
  moreover have "m (p + i) = xs ! i" if "i < length xs" for i
    using h that by (auto simp: holds_iff nth_append dest: spec [of _ i])
  ultimately show "holds m p xs \<and> holds m (p + length xs) ys" by (simp add: holds_iff)
next
  assume h: "holds m p xs \<and> holds m (p + length xs) ys"
  show "holds m p (xs @ ys)"
    unfolding holds_iff
  proof (intro allI impI)
    fix i assume i: "i < length (xs @ ys)"
    show "m (p + i) = (xs @ ys) ! i"
    proof (cases "i < length xs")
      case False
      then have "i - length xs < length ys" "p + length xs + (i - length xs) = p + i" using i by auto
      with False h show ?thesis by (metis holds_iff nth_append)
    qed (use h in \<open>auto simp: holds_iff nth_append\<close>)
  qed
qed

lemma holds_bytes_at: "holds m p (bytes_at m p n)"
  by (simp add: holds_iff)

lemma holds_cong: "(\<And>q. p \<le> q \<Longrightarrow> q < p + length bs \<Longrightarrow> m' q = m q) \<Longrightarrow> holds m p bs \<Longrightarrow> holds m' p bs"
  by (simp add: holds_iff)

lemma bytes_at_cong: "(\<And>q. p \<le> q \<Longrightarrow> q < p + n \<Longrightarrow> m' q = m q) \<Longrightarrow> bytes_at m' p n = bytes_at m p n"
  by (auto simp: list_eq_iff_nth_eq)

lemma put_bytes_other: "q < p \<or> p + length bs \<le> q \<Longrightarrow> put_bytes m p bs q = m q"
  by (auto simp: put_bytes_def)

lemma holds_put_bytes: "holds (put_bytes m p bs) p bs"
  by (simp add: holds_iff put_bytes_def)

lemma bytes_at_put_bytes: "q + n \<le> p \<or> p + length bs \<le> q \<Longrightarrow> bytes_at (put_bytes m p bs) q n = bytes_at m q n"
  by (rule bytes_at_cong, rule put_bytes_other) auto

lemma holds_put_bytes_other: "q + length cs \<le> p \<or> p + length bs \<le> q \<Longrightarrow> holds (put_bytes m p bs) q cs = holds m q cs"
  by (simp add: holds_def bytes_at_put_bytes)

lemma put_bytes_append: "put_bytes (put_bytes m p xs) (p + length xs) ys = put_bytes m p (xs @ ys)"
  by (auto simp: put_bytes_def fun_eq_iff nth_append)

lemma put_bytes_Cons: "put_bytes (put_bytes m (Suc p) xs) p [x] = put_bytes m p (x # xs)"
  by (auto simp: put_bytes_def fun_eq_iff nth_Cons' not_less_eq_eq)

lemma put_bytes_Nil [simp]: "put_bytes m p [] = m"
  by (auto simp: put_bytes_def fun_eq_iff)

lemma fun_upd_eq_put: "m(p := b) = put_bytes m p [b]"
  by (auto simp: put_bytes_def fun_eq_iff)

lemma memcpy_eq_put: "memcpy m d s n = put_bytes m d (bytes_at m s n)"
  by (auto simp: memcpy_eq move_bytes_def put_bytes_def fun_eq_iff)

lemma memmove_eq_put: "memmove m d s n = put_bytes m d (bytes_at m s n)"
  by (auto simp: memmove_eq move_bytes_def put_bytes_def fun_eq_iff)

lemma memset_eq_put: "memset m d v n = put_bytes m d (replicate n v)"
  by (auto simp: memset_eq put_bytes_def fun_eq_iff)

definition USHORT_bytes :: "USHORT \<Rightarrow> UCHAR list" where
  "USHORT_bytes v = [ucast v, ucast (drop_bit 8 v)]"

definition ULONG_bytes :: "ULONG \<Rightarrow> UCHAR list" where
  "ULONG_bytes v = [ucast v, ucast (drop_bit 8 v), ucast (drop_bit 16 v), ucast (drop_bit 24 v)]"

lemma length_field_bytes [simp]: "length (USHORT_bytes v) = 2" "length (ULONG_bytes w) = 4"
  by (simp_all add: USHORT_bytes_def ULONG_bytes_def)

lemma write_USHORT_eq_put: "write_USHORT m p v = put_bytes m p (USHORT_bytes v)"
  by (auto simp: write_USHORT_def USHORT_bytes_def put_bytes_def fun_eq_iff nth_Cons')

lemma write_ULONG_eq_put: "write_ULONG m p v = put_bytes m p (ULONG_bytes v)"
  by (auto simp: write_ULONG_def ULONG_bytes_def put_bytes_def fun_eq_iff nth_Cons')

section \<open>Properties\<close>

text \<open>
  C29: the two copy loops of \<open>memmove\<close>, upwards and downwards, have the effect of
  copying all bytes at once, also when source and destination overlap; \<open>memcpy\<close> is
  the same function, so that \<open>RtlCopyMemory\<close> is safe on overlapping regions.
\<close>

theorem memmove_simultaneous:
  "memmove m dest src n = (\<lambda>p. if dest \<le> p \<and> p < dest + n then m (src + (p - dest)) else m p) \<and>
   memcpy m dest src n = memmove m dest src n"
  by (simp add: memmove_eq memcpy_eq move_bytes_def)

end
