(* ===== verification/Rtl_Sid.thy ===== *)
theory Rtl_Sid
  imports Byte_Memory
begin

text \<open>
  Security identifiers, \<open>lib/rtl/sid.c\<close>, on the byte memory. A \<open>PSID\<close> is an address;
  the structure has \<open>Revision\<close> at offset 0, \<open>SubAuthorityCount\<close> at 1, the six bytes of
  \<open>IdentifierAuthority\<close> at 2 and the \<open>SubAuthority\<close> array at 8.
\<close>

section \<open>Validity, length, fields\<close>

abbreviation (input) SID_REVISION :: UCHAR where
  "SID_REVISION \<equiv> 1"

abbreviation (input) SID_MAX_SUB_AUTHORITIES :: UCHAR where
  "SID_MAX_SUB_AUTHORITIES \<equiv> 15"

definition RtlValidSid :: "bytes \<Rightarrow> nat \<Rightarrow> bool" where
  "RtlValidSid m Sid = (if m Sid \<noteq> SID_REVISION \<or> m (Sid + 1) > SID_MAX_SUB_AUTHORITIES then False else True)"

definition RtlLengthRequiredSid :: "ULONG \<Rightarrow> ULONG" where
  "RtlLengthRequiredSid SubAuthorityCount = 8 + 4 * SubAuthorityCount"

definition RtlInitializeSid :: "bytes \<Rightarrow> nat \<Rightarrow> nat \<Rightarrow> UCHAR \<Rightarrow> NTSTATUS \<times> bytes" where
  "RtlInitializeSid m Sid IdentifierAuthority SubAuthorityCount =
     (let m = m(Sid := SID_REVISION);
          m = m(Sid + 1 := SubAuthorityCount)
      in (STATUS_SUCCESS, memcpy m (Sid + 2) IdentifierAuthority 6))"

definition RtlSubAuthoritySid :: "nat \<Rightarrow> ULONG \<Rightarrow> nat" where
  "RtlSubAuthoritySid Sid SubAuthority = Sid + 8 + 4 * unat SubAuthority"

definition RtlSubAuthorityCountSid :: "nat \<Rightarrow> nat" where
  "RtlSubAuthorityCountSid Sid = Sid + 1"

definition RtlLengthSid :: "bytes \<Rightarrow> nat \<Rightarrow> ULONG" where
  "RtlLengthSid m Sid = 8 + 4 * ucast (m (Sid + 1))"

definition RtlIdentifierAuthoritySid :: "nat \<Rightarrow> nat" where
  "RtlIdentifierAuthoritySid Sid = Sid + 2"

section \<open>Comparing and copying\<close>

definition RtlEqualSid :: "bytes \<Rightarrow> nat \<Rightarrow> nat \<Rightarrow> bool" where
  "RtlEqualSid m Sid1 Sid2 =
     (if m Sid1 \<noteq> m Sid2 \<or> m (RtlSubAuthorityCountSid Sid1) \<noteq> m (RtlSubAuthorityCountSid Sid2) then False
      else let SidLen = unat (RtlLengthSid m Sid1) in RtlCompareMemory m Sid1 m Sid2 SidLen = SidLen)"

definition RtlEqualPrefixSid :: "bytes \<Rightarrow> nat \<Rightarrow> nat \<Rightarrow> bool" where
  "RtlEqualPrefixSid m Sid1 Sid2 =
     (if m (Sid1 + 1) = m (Sid2 + 1) then
        let SidLen = 8 + 4 * unat (m (Sid1 + 1)) in RtlCompareMemory m Sid1 m Sid2 SidLen = SidLen
      else False)"

definition RtlCopySid :: "bytes \<Rightarrow> ULONG \<Rightarrow> nat \<Rightarrow> nat \<Rightarrow> NTSTATUS \<times> bytes" where
  "RtlCopySid m BufferLength Dest Src =
     (if BufferLength < RtlLengthSid m Src then (STATUS_UNSUCCESSFUL, m)
      else (STATUS_SUCCESS, memmove m Dest Src (unat (RtlLengthSid m Src))))"

text \<open>
  \<open>SID_AND_ATTRIBUTES\<close> arrays are lists, with \<open>EntrySid\<close> for the pointer \<open>Sid\<close> of an entry; the array \<open>Dest\<close> is kept apart from the byte
  memory that holds the SIDs, and the result lists the entries written so far.
\<close>

record SID_AND_ATTRIBUTES =
  EntrySid :: nat
  Attributes :: ULONG

fun copy_sids_loop :: "bytes \<Rightarrow> SID_AND_ATTRIBUTES list \<Rightarrow> ULONG \<Rightarrow> nat \<Rightarrow> SID_AND_ATTRIBUTES list \<Rightarrow>
    NTSTATUS \<times> bytes \<times> SID_AND_ATTRIBUTES list \<times> (nat \<times> ULONG) option" where
  "copy_sids_loop m [] Length SidArea Dest = (STATUS_SUCCESS, m, Dest, Some (SidArea, Length))"
| "copy_sids_loop m (s # Src) Length SidArea Dest =
     (if RtlLengthSid m (EntrySid s) > Length then (STATUS_BUFFER_TOO_SMALL, m, Dest, None)
      else
        let SidLength = RtlLengthSid m (EntrySid s);
            Length = Length - SidLength;
            Dest = Dest @ [\<lparr>EntrySid = SidArea, Attributes = Attributes s\<rparr>];
            m = snd (RtlCopySid m SidLength SidArea (EntrySid s))
        in copy_sids_loop m Src Length (ptr_add SidArea (unat SidLength)) Dest)"

definition RtlCopySidAndAttributesArray :: "bytes \<Rightarrow> SID_AND_ATTRIBUTES list \<Rightarrow> ULONG \<Rightarrow> nat \<Rightarrow>
    NTSTATUS \<times> bytes \<times> SID_AND_ATTRIBUTES list \<times> (nat \<times> ULONG) option" where
  "RtlCopySidAndAttributesArray m Src SidAreaSize SidArea = copy_sids_loop m Src SidAreaSize SidArea []"

section \<open>Allocation\<close>

text \<open>
  The switch of \<open>RtlAllocateAndInitializeSid\<close> falls through from the case of the
  count to case 1: the sub-authorities are written from the last to the first.
\<close>

primrec init_sub_authorities :: "bytes \<Rightarrow> nat \<Rightarrow> ULONG list \<Rightarrow> nat \<Rightarrow> bytes" where
  "init_sub_authorities m pSid subs 0 = m"
| "init_sub_authorities m pSid subs (Suc k) =
     init_sub_authorities (write_ULONG m (pSid + 8 + 4 * k) (subs ! k)) pSid subs k"

text \<open>
  \<open>alloc\<close> is what \<open>RtlpAllocateMemory\<close> returns for the length, \<open>Sid_null\<close> tells whether
  the out parameter is \<open>NULL\<close>, and the last component is the value stored through it.
\<close>

definition RtlAllocateAndInitializeSid :: "bytes \<Rightarrow> (ULONG \<Rightarrow> nat option) \<Rightarrow> nat \<Rightarrow> UCHAR \<Rightarrow>
    ULONG \<Rightarrow> ULONG \<Rightarrow> ULONG \<Rightarrow> ULONG \<Rightarrow> ULONG \<Rightarrow> ULONG \<Rightarrow> ULONG \<Rightarrow> ULONG \<Rightarrow> bool \<Rightarrow>
    NTSTATUS \<times> bytes \<times> nat option" where
  "RtlAllocateAndInitializeSid m alloc IdentifierAuthority SubAuthorityCount
       SubAuthority0 SubAuthority1 SubAuthority2 SubAuthority3 SubAuthority4 SubAuthority5 SubAuthority6
       SubAuthority7 Sid_null =
     (if SubAuthorityCount > 8 then (STATUS_INVALID_SID, m, None)
      else if Sid_null then (STATUS_INVALID_PARAMETER, m, None)
      else case alloc (RtlLengthRequiredSid (ucast SubAuthorityCount)) of
        None \<Rightarrow> (STATUS_NO_MEMORY, m, None)
      | Some pSid \<Rightarrow>
          (let m = m(pSid := SID_REVISION);
               m = m(pSid + 1 := SubAuthorityCount);
               m = memcpy m (pSid + 2) IdentifierAuthority 6;
               m = init_sub_authorities m pSid [SubAuthority0, SubAuthority1, SubAuthority2, SubAuthority3,
                     SubAuthority4, SubAuthority5, SubAuthority6, SubAuthority7] (unat SubAuthorityCount)
           in (STATUS_SUCCESS, m, Some pSid)))"

section \<open>The string form\<close>

text \<open>
  What \<open>swprintf\<close> prints for \<open>%u\<close> and for \<open>%02hx\<close>.
\<close>

definition digit :: "nat \<Rightarrow> char" where
  "digit k = ''0123456789abcdef'' ! k"

fun print_u :: "nat \<Rightarrow> string" where
  "print_u n = (if n < 10 then [digit n] else print_u (n div 10) @ [digit (n mod 10)])"

definition print_02hx :: "UCHAR \<Rightarrow> string" where
  "print_02hx b = [digit (unat b div 16), digit (unat b mod 16)]"

definition sid_authority_string :: "bytes \<Rightarrow> nat \<Rightarrow> string" where
  "sid_authority_string m Sid =
     (if m (Sid + 2) = 0 \<and> m (Sid + 3) = 0 then
        print_u (unat (push_bit 24 (ucast (m (Sid + 4))) OR push_bit 16 (ucast (m (Sid + 5))) OR
          push_bit 8 (ucast (m (Sid + 6))) OR (ucast (m (Sid + 7)) :: ULONG)))
      else ''0x'' @ print_02hx (m (Sid + 2)) @ print_02hx (m (Sid + 3)) @ print_02hx (m (Sid + 4)) @
        print_02hx (m (Sid + 5)) @ print_02hx (m (Sid + 6)) @ print_02hx (m (Sid + 7)))"

definition sid_string :: "bytes \<Rightarrow> nat \<Rightarrow> string" where
  "sid_string m Sid =
     ''S-'' @ print_u (unat (m Sid)) @ ''-'' @ sid_authority_string m Sid @
     concat (map (\<lambda>i. ''-'' @ print_u (unat (read_ULONG m (Sid + 8 + 4 * i)))) [0..<unat (m (Sid + 1))])"

text \<open>
  A \<open>UNICODE_STRING\<close>: the lengths are in bytes, the buffer is the byte memory from its
  address on, without an end, and \<open>None\<close> for \<open>NULL\<close>. \<open>alloc\<close> is the fresh buffer of
  \<open>RtlpAllocateStringMemory\<close>, if there is memory.
\<close>

record UNICODE_STRING =
  Length :: USHORT
  MaximumLength :: USHORT
  Buffer :: "bytes option"

definition wide :: "string \<Rightarrow> USHORT list" where
  "wide s = map of_char s"

definition wide_bytes :: "USHORT list \<Rightarrow> UCHAR list" where
  "wide_bytes ws = concat (map USHORT_bytes ws)"

definition RtlCreateUnicodeString :: "bytes option \<Rightarrow> UNICODE_STRING \<Rightarrow> USHORT list \<Rightarrow>
    bool \<times> UNICODE_STRING" where
  "RtlCreateUnicodeString alloc UniDest Source =
     (let Len = (length Source + 1) * 2
      in if Len > 0xFFFE then (False, UniDest)
         else case alloc of
           None \<Rightarrow> (False, UniDest\<lparr>Buffer := None\<rparr>)
         | Some b \<Rightarrow> (True, UniDest\<lparr>Buffer := Some (put_bytes b 0 (wide_bytes (Source @ [0]))),
             MaximumLength := of_nat Len, Length := of_nat (Len - 2)\<rparr>))"

text \<open>
  The text is copied from the local buffer; the terminator is a whole \<open>WCHAR\<close> when one
  byte or more is left. \<open>None\<close>: the text is written through a \<open>NULL\<close> buffer.
\<close>

definition RtlConvertSidToUnicodeString :: "bytes \<Rightarrow> bytes option \<Rightarrow> UNICODE_STRING \<Rightarrow> nat \<Rightarrow> bool \<Rightarrow>
    (NTSTATUS \<times> UNICODE_STRING) option" where
  "RtlConvertSidToUnicodeString m alloc String Sid AllocateBuffer =
     (if \<not> RtlValidSid m Sid then Some (STATUS_INVALID_SID, String)
      else
        let wcs = wide (sid_string m Sid)
        in if AllocateBuffer then
             (case RtlCreateUnicodeString alloc String wcs of
                (ok, String) \<Rightarrow> if \<not> ok then Some (STATUS_NO_MEMORY, String) else Some (STATUS_SUCCESS, String))
           else
             (let Len = length wcs * 2
              in if Len > unat (MaximumLength String) then Some (STATUS_BUFFER_TOO_SMALL, String)
                 else case Buffer String of
                   None \<Rightarrow> None
                 | Some b \<Rightarrow>
                     let String = String\<lparr>Length := of_nat Len\<rparr>;
                         b = put_bytes b 0 (wide_bytes wcs);
                         b = (if Len < unat (MaximumLength String) then write_USHORT b (2 * (Len div 2)) 0 else b)
                     in Some (STATUS_SUCCESS, String\<lparr>Buffer := Some b\<rparr>)))"

section \<open>Lengths and equality\<close>

lemma unat_RtlLengthSid: "unat (RtlLengthSid m s) = 8 + 4 * unat (m (s + 1))"
proof -
  have "RtlLengthSid m s = of_nat (8 + 4 * unat (m (s + 1)))" by (simp add: RtlLengthSid_def)
  then show ?thesis using unat_UCHAR_less [of "m (s + 1)"]
    by (simp add: unat_of_nat take_bit_nat_eq_self del: of_nat_add of_nat_mult)
qed

lemma RtlEqualSid_iff:
  "RtlEqualSid m s1 s2 \<longleftrightarrow> (\<forall>k<8 + 4 * unat (m (s1 + 1)). m (s1 + k) = m (s2 + k))" (is "_ \<longleftrightarrow> ?all")
proof -
  have "?all \<Longrightarrow> m s1 = m s2 \<and> m (s1 + 1) = m (s2 + 1)"
    by (metis add_0_right one_less_numeral_iff semiring_norm(76) trans_less_add1 zero_less_numeral)
  then show ?thesis
    unfolding RtlEqualSid_def Let_def RtlSubAuthorityCountSid_def unat_RtlLengthSid RtlCompareMemory_full by auto
qed

lemma RtlEqualPrefixSid_iff:
  "RtlEqualPrefixSid m s1 s2 \<longleftrightarrow> (\<forall>k<8 + 4 * unat (m (s1 + 1)). m (s1 + k) = m (s2 + k))" (is "_ \<longleftrightarrow> ?all")
proof -
  have "?all \<Longrightarrow> m (s1 + 1) = m (s2 + 1)"
    by (metis one_less_numeral_iff semiring_norm(76) trans_less_add1)
  then show ?thesis
    unfolding RtlEqualPrefixSid_def Let_def RtlCompareMemory_full by auto
qed

lemma read_ULONG_bytes:
  "m p = ucast (read_ULONG m p)" "m (p + 1) = ucast (drop_bit 8 (read_ULONG m p))"
  "m (p + 2) = ucast (drop_bit 16 (read_ULONG m p))" "m (p + 3) = ucast (drop_bit 24 (read_ULONG m p))"
  by (rule bit_word_eqI, auto simp: read_ULONG_def bit_or_iff bit_push_bit_iff bit_ucast_iff bit_drop_bit_eq
      dest: bit_imp_le_length)+

lemma less_4_cases: "k < 4 \<longleftrightarrow> k = 0 \<or> k = 1 \<or> k = 2 \<or> k = (3 :: nat)"
  by auto

lemma read_ULONG_eq_iff:
  "read_ULONG m p = read_ULONG m' q \<longleftrightarrow> (\<forall>k<4. m (p + k) = m' (q + k))"
proof
  assume "read_ULONG m p = read_ULONG m' q"
  then show "\<forall>k<4. m (p + k) = m' (q + k)"
    using read_ULONG_bytes [of m p] read_ULONG_bytes [of m' q] by (auto simp: less_4_cases)
qed (auto intro!: read_ULONG_cong)

section \<open>Printing\<close>

lemma digit_inj: "i < 16 \<Longrightarrow> j < 16 \<Longrightarrow> digit i = digit j \<longleftrightarrow> i = j"
  by (simp add: digit_def nth_eq_iff_index_eq)

lemma digit_in: "k < 16 \<Longrightarrow> digit k \<in> set ''0123456789abcdef''"
  unfolding digit_def by (rule nth_mem) simp

lemma digit_10_in: "k < 10 \<Longrightarrow> digit k \<in> set ''0123456789''"
proof -
  assume "k < 10"
  then have "k = 0 \<or> k = 1 \<or> k = 2 \<or> k = 3 \<or> k = 4 \<or> k = 5 \<or> k = 6 \<or> k = 7 \<or> k = 8 \<or> k = 9" by auto
  then show ?thesis by (elim disjE) (simp_all add: digit_def)
qed

declare print_u.simps [simp del]

lemma print_u_set: "set (print_u n) \<subseteq> set ''0123456789''"
proof (induction n rule: print_u.induct)
  case (1 n)
  then show ?case
    using digit_10_in [of n] digit_10_in [of "n mod 10"] by (subst print_u.simps) auto
qed

lemma print_u_nonempty: "print_u n \<noteq> []"
  by (subst print_u.simps) simp

lemma print_u_inj: "print_u n = print_u k \<longleftrightarrow> n = k"
proof (induction n arbitrary: k rule: print_u.induct)
  case (1 n)
  show ?case
  proof (cases "n < 10")
    case n: True
    show ?thesis
    proof (cases "k < 10")
      case True
      with n show ?thesis by (simp add: print_u.simps digit_inj)
    next
      case False
      have "print_u n \<noteq> print_u k"
        unfolding print_u.simps [of k] print_u.simps [of n] using n False print_u_nonempty [of "k div 10"] by auto
      with n False show ?thesis by auto
    qed
  next
    case n: False
    show ?thesis
    proof (cases "k < 10")
      case True
      have "print_u n \<noteq> print_u k"
        unfolding print_u.simps [of k] print_u.simps [of n] using n True print_u_nonempty [of "n div 10"] by auto
      with n True show ?thesis by auto
    next
      case False
      have "print_u n = print_u k \<longleftrightarrow> n div 10 = k div 10 \<and> n mod 10 = k mod 10"
        unfolding print_u.simps [of k] print_u.simps [of n] using n False 1 by (simp add: digit_inj)
      then show ?thesis by (metis div_mult_mod_eq)
    qed
  qed
qed

lemma print_u_length: "n < 10 ^ Suc k \<Longrightarrow> length (print_u n) \<le> Suc k"
proof (induction k arbitrary: n)
  case 0
  then show ?case by (simp add: print_u.simps)
next
  case (Suc k)
  then have "n div 10 < 10 ^ Suc k" by (auto simp: div_less_iff_less_mult)
  then show ?case using Suc.IH [of "n div 10"] by (subst print_u.simps) simp
qed

lemma print_02hx_inj: "print_02hx a = print_02hx b \<longleftrightarrow> a = b"
proof -
  have "unat a div 16 < 16" "unat b div 16 < 16" using unat_UCHAR_less [of a] unat_UCHAR_less [of b] by simp_all
  then have "print_02hx a = print_02hx b \<longleftrightarrow> unat a div 16 = unat b div 16 \<and> unat a mod 16 = unat b mod 16"
    by (simp add: print_02hx_def digit_inj)
  then show ?thesis by (metis div_mult_mod_eq word_unat_eq_iff)
qed

section \<open>The string identifies the SID\<close>

lemma split_at:
  assumes "a @ J = b @ K" "d \<notin> set a" "d \<notin> set b" "J = [] \<or> hd J = d" "K = [] \<or> hd K = d"
  shows "a = b \<and> J = K"
proof -
  have t: "takeWhile (\<lambda>c. c \<noteq> d) (x @ L) = x" if "d \<notin> set x" "L = [] \<or> hd L = d" for x L
    using that by (induction x) (auto simp: takeWhile_eq_Nil_iff)
  have "a = b" using t [of a J] t [of b K] assms by simp
  with assms(1) show ?thesis by simp
qed

definition joined :: "nat list \<Rightarrow> string" where
  "joined ns = concat (map (\<lambda>n. CHR ''-'' # print_u n) ns)"

lemma joined_simps [simp]: "joined [] = []" "joined (n # ns) = CHR ''-'' # print_u n @ joined ns"
  by (simp_all add: joined_def)

lemma joined_head: "joined ns = [] \<or> hd (joined ns) = CHR ''-''"
  by (cases ns) simp_all

lemma no_dash: "CHR ''-'' \<notin> set (print_u n)"
  using print_u_set [of n] by auto

lemma joined_inj: "joined ns = joined ks \<longleftrightarrow> ns = ks"
proof (induction ns arbitrary: ks)
  case Nil
  show ?case by (cases ks) simp_all
next
  case (Cons n ns)
  show ?case
  proof (cases ks)
    case K: (Cons k ks')
    show ?thesis
      using split_at [OF _ no_dash no_dash joined_head joined_head, of n ns k ks'] Cons.IH [of ks'] print_u_inj [of n k]
      by (auto simp: K)
  qed simp
qed

definition auth_value :: "bytes \<Rightarrow> nat \<Rightarrow> ULONG" where
  "auth_value m s = push_bit 24 (ucast (m (s + 4))) OR push_bit 16 (ucast (m (s + 5))) OR
     push_bit 8 (ucast (m (s + 6))) OR ucast (m (s + 7))"

lemma auth_value_eq: "auth_value m s = read_ULONG (\<lambda>i. m (s + 7 - i)) 0"
  by (simp add: auth_value_def read_ULONG_def ac_simps)

lemma all_less_4: "(\<forall>k<4. P k) \<longleftrightarrow> P 0 \<and> P 1 \<and> P 2 \<and> P (3 :: nat)"
  unfolding less_4_cases by blast

lemma auth_value_inj:
  "auth_value m s = auth_value m t \<longleftrightarrow>
     m (s + 4) = m (t + 4) \<and> m (s + 5) = m (t + 5) \<and> m (s + 6) = m (t + 6) \<and> m (s + 7) = m (t + 7)"
  unfolding auth_value_eq read_ULONG_eq_iff all_less_4 by (simp add: ac_simps)

lemma authority_no_dash: "CHR ''-'' \<notin> set (sid_authority_string m s)"
proof -
  have d: "digit k \<noteq> CHR ''-''" if "k < 16" for k using digit_in [OF that] by auto
  have "CHR ''-'' \<notin> set (print_02hx b)" for b
    using d [of "unat b div 16"] d [of "unat b mod 16"] div_less_iff_less_mult [of 16 "unat b" 16] unat_UCHAR_less [of b]
    by (simp add: print_02hx_def)
  then show ?thesis by (simp add: sid_authority_string_def no_dash)
qed

lemma authority_inj:
  "sid_authority_string m s = sid_authority_string m t \<longleftrightarrow> (\<forall>k<6. m (s + 2 + k) = m (t + 2 + k))"
    (is "?eq \<longleftrightarrow> ?all")
proof -
  have all: "?all \<longleftrightarrow> m (s + 2) = m (t + 2) \<and> m (s + 3) = m (t + 3) \<and> m (s + 4) = m (t + 4) \<and>
      m (s + 5) = m (t + 5) \<and> m (s + 6) = m (t + 6) \<and> m (s + 7) = m (t + 7)"
    by (auto simp: numeral_eq_Suc All_less_Suc)
  have hex: "CHR ''x'' \<notin> set (print_u n)" for n using print_u_set [of n] by auto
  have dec: "print_u n \<noteq> CHR ''0'' # CHR ''x'' # xs" "CHR ''0'' # CHR ''x'' # xs \<noteq> print_u n" for n xs
    using hex [of n] by (metis list.set_intros)+
  have len: "length (print_02hx b) = 2" for b by (simp add: print_02hx_def)
  show ?thesis
    unfolding all sid_authority_string_def auth_value_def [symmetric]
    using auth_value_inj [of m s t]
    by (auto simp: dec print_u_inj print_02hx_inj len word_unat_eq_iff [symmetric])
qed

definition sub_authorities :: "bytes \<Rightarrow> nat \<Rightarrow> nat list" where
  "sub_authorities m s = map (\<lambda>i. unat (read_ULONG m (s + 8 + 4 * i))) [0..<unat (m (s + 1))]"

lemma sid_string_eq:
  "sid_string m s = CHR ''S'' # CHR ''-'' # print_u (unat (m s)) @ CHR ''-'' #
     sid_authority_string m s @ joined (sub_authorities m s)"
  by (simp add: sid_string_def joined_def sub_authorities_def comp_def)

lemma sub_authorities_eq_iff:
  "sub_authorities m s = sub_authorities m t \<longleftrightarrow>
     m (s + 1) = m (t + 1) \<and> (\<forall>i<unat (m (s + 1)). \<forall>k<4. m (s + 8 + 4 * i + k) = m (t + 8 + 4 * i + k))"
  by (auto simp: sub_authorities_def list_eq_iff_nth_eq word_unat_eq_iff [symmetric] read_ULONG_eq_iff [symmetric])

lemma sid_bytes_iff:
  "(\<forall>k<8 + 4 * n. P k) \<longleftrightarrow> P 0 \<and> P 1 \<and> (\<forall>k<6. P (2 + k)) \<and> (\<forall>i<n. \<forall>k<4. P (8 + 4 * i + k))"
    (is "?l \<longleftrightarrow> ?r") for n :: nat
proof
  assume r: ?r
  show ?l
  proof (intro allI impI)
    fix k assume k: "k < 8 + 4 * n"
    consider "k < 2" | "2 \<le> k" "k < 8" | "8 \<le> k" by fastforce
    then show "P k"
    proof cases
      case 1
      then show ?thesis using r by (auto simp: less_2_cases_iff)
    next
      case 2
      then have "k - 2 < 6" "2 + (k - 2) = k" by auto
      with r show ?thesis by metis
    next
      case 3
      have "(k - 8) div 4 < n" "(k - 8) mod 4 < 4" using k 3 by auto
      moreover have "8 + 4 * ((k - 8) div 4) + (k - 8) mod 4 = k" using 3 by simp
      ultimately show ?thesis using r by metis
    qed
  qed
qed auto

lemma sid_string_iff_RtlEqualSid: "sid_string m s = sid_string m t \<longleftrightarrow> RtlEqualSid m s t"
proof -
  have "sid_string m s = sid_string m t \<longleftrightarrow> print_u (unat (m s)) = print_u (unat (m t)) \<and>
      sid_authority_string m s @ joined (sub_authorities m s) = sid_authority_string m t @ joined (sub_authorities m t)"
    unfolding sid_string_eq
    using split_at [OF _ no_dash no_dash, of "unat (m s)" "CHR ''-'' # sid_authority_string m s @ joined (sub_authorities m s)"
      "unat (m t)" "CHR ''-'' # sid_authority_string m t @ joined (sub_authorities m t)"] by auto
  also have "\<dots> \<longleftrightarrow> m s = m t \<and> sid_authority_string m s = sid_authority_string m t \<and>
      sub_authorities m s = sub_authorities m t"
    using split_at [OF _ authority_no_dash authority_no_dash joined_head joined_head]
    by (auto simp: print_u_inj joined_inj word_unat_eq_iff [symmetric])
  also have "\<dots> \<longleftrightarrow> RtlEqualSid m s t"
    unfolding RtlEqualSid_iff sid_bytes_iff [of _ "\<lambda>k. m (s + k) = m (t + k)"] authority_inj sub_authorities_eq_iff
    by (auto simp: add.assoc)
  finally show ?thesis .
qed

section \<open>The buffer of the conversion\<close>

lemma print_u_ULONG: "length (print_u (unat (w :: ULONG))) \<le> 10"
proof -
  have "unat w < 10 ^ Suc 9" by (rule less_trans [OF unat_less_2p32]) simp
  from print_u_length [OF this] show ?thesis by simp
qed

lemma joined_length: "(\<And>n. n \<in> set ns \<Longrightarrow> length (print_u n) \<le> 10) \<Longrightarrow> length (joined ns) \<le> 11 * length ns"
  by (induction ns) (auto simp: add_mono)

lemma sid_string_length:
  assumes "RtlValidSid m s"
  shows "length (sid_string m s) \<le> 183"
proof -
  have v: "m s = 1" "unat (m (s + 1)) \<le> 15"
    using assms by (auto simp: RtlValidSid_def word_le_nat_alt word_less_nat_alt split: if_splits)
  have "length (joined (sub_authorities m s)) \<le> 11 * length (sub_authorities m s)"
    by (rule joined_length) (auto simp: sub_authorities_def print_u_ULONG)
  moreover have "length (sub_authorities m s) \<le> 15" using v by (simp add: sub_authorities_def)
  moreover have "length (sid_authority_string m s) \<le> 14"
  proof (cases "m (s + 2) = 0 \<and> m (s + 3) = 0")
    case True
    then show ?thesis
      unfolding sid_authority_string_def auth_value_def [symmetric] using print_u_ULONG [of "auth_value m s"] by simp
  next
    case False
    then show ?thesis by (auto simp: sid_authority_string_def print_02hx_def)
  qed
  moreover have "length (print_u (unat (m s))) = 1" using v by (simp add: print_u.simps)
  ultimately show ?thesis by (simp add: sid_string_eq)
qed

section \<open>Allocation\<close>

lemma init_sub_authorities_other:
  "q < p + 8 \<or> p + 8 + 4 * k \<le> q \<Longrightarrow> init_sub_authorities m p subs k q = m q"
  by (induction k arbitrary: m) (auto simp: write_ULONG_other)

lemma init_sub_authorities_read:
  "i < k \<Longrightarrow> read_ULONG (init_sub_authorities m p subs k) (p + 8 + 4 * i) = subs ! i"
proof (induction k arbitrary: m)
  case (Suc k)
  show ?case
  proof (cases "i = k")
    case True
    let ?m = "write_ULONG m (p + 8 + 4 * k) (subs ! k)"
    have "read_ULONG (init_sub_authorities ?m p subs k) (p + 8 + 4 * k) = read_ULONG ?m (p + 8 + 4 * k)"
      by (rule read_ULONG_cong, rule init_sub_authorities_other) simp
    with True show ?thesis by simp
  next
    case False
    with Suc show ?thesis by simp
  qed
qed simp

text \<open>The SID of the administrators, \<open>S-1-5-32-544\<close>, at address \<open>0x1000\<close>.\<close>

definition example_sid :: bytes where
  "example_sid = (\<lambda>_. 0)(0x1000 := 1, 0x1001 := 2, 0x1007 := 5, 0x1008 := 32, 0x100C := 0x20, 0x100D := 2)"

lemma example_sid_valid: "RtlValidSid example_sid 0x1000"
  by (simp add: RtlValidSid_def example_sid_def)

lemma example_sid_string: "sid_string example_sid 0x1000 = ''S-1-5-32-544''"
  by (simp add: sid_string_def sid_authority_string_def example_sid_def read_ULONG_def upt_rec print_u.simps digit_def)

lemma length_wide_bytes: "length (wide_bytes ws) = 2 * length ws"
  by (induction ws) (simp_all add: wide_bytes_def)

lemma USHORT_bytes_zero: "USHORT_bytes 0 = [0, 0]"
  by (simp add: USHORT_bytes_def)

section \<open>Properties\<close>

text \<open>
  C18: two SIDs have the same string form exactly when \<open>RtlEqualSid\<close> holds, for
  whatever the memory contains: the text identifies the SID.
\<close>

theorem sid_string_identifies:
  "sid_string m Sid1 = sid_string m Sid2 \<longleftrightarrow> RtlEqualSid m Sid1 Sid2"
  by (rule sid_string_iff_RtlEqualSid)

text \<open>
  C36: for a valid SID the text and its terminator fit in the local \<open>WCHAR Buffer[256]\<close>.
  \<open>RtlConvertSidToUnicodeString\<close> into the caller's buffer reports that the buffer is
  too small and changes nothing, or stores exactly the bytes of the text and their
  number, then a terminator of two zero bytes when one byte or more is left, and
  changes no byte behind that. No byte at or past \<open>MaximumLength\<close> changes when it is
  even; when exactly one byte is left, the second byte of the terminator is stored at
  \<open>MaximumLength\<close>.
\<close>

theorem RtlConvertSidToUnicodeString_bounds:
  assumes "RtlValidSid m Sid" and "Buffer String = Some b"
  shows "let n = length (sid_string m Sid); room = unat (MaximumLength String) in n < 256 \<and>
    (if 2 * n \<le> room
     then \<exists>b'. RtlConvertSidToUnicodeString m alloc String Sid False =
         Some (STATUS_SUCCESS, String\<lparr>Length := of_nat (2 * n), Buffer := Some b'\<rparr>) \<and>
         unat (of_nat (2 * n) :: USHORT) = 2 * n \<and>
         bytes_at b' 0 (2 * n) = wide_bytes (wide (sid_string m Sid)) \<and>
         (\<forall>i\<ge>2 * n. b' i = (if 2 * n < room \<and> i < 2 * n + 2 then 0 else b i)) \<and>
         (\<forall>i\<ge>room. b' i = (if room = 2 * n + 1 \<and> i = room then 0 else b i))
     else RtlConvertSidToUnicodeString m alloc String Sid False = Some (STATUS_BUFFER_TOO_SMALL, String))"
proof -
  let ?w = "wide_bytes (wide (sid_string m Sid))"
  define n where "n = length (sid_string m Sid)"
  define room where "room = unat (MaximumLength String)"
  define b' where "b' = (if 2 * n < room then write_USHORT (put_bytes b 0 ?w) (2 * n) 0 else put_bytes b 0 ?w)"
  have n: "n \<le> 183" unfolding n_def by (rule sid_string_length [OF assms(1)])
  have len: "length (wide (sid_string m Sid)) = n" by (simp add: wide_def n_def)
  have lw: "length ?w = 2 * n" by (simp add: length_wide_bytes len)
  have u: "unat (of_nat (2 * n) :: USHORT) = 2 * n"
    using n by (simp add: unat_of_nat take_bit_nat_eq_self del: of_nat_mult)
  have b': "b' i = (if i < 2 * n then ?w ! i else if 2 * n < room \<and> i < 2 * n + 2 then 0 else b i)" for i
    by (auto simp: b'_def write_USHORT_eq_put USHORT_bytes_zero put_bytes_def lw nth_Cons')
  have txt_b: "bytes_at b' 0 (2 * n) = ?w"
    by (rule nth_equalityI) (simp_all add: bytes_at_def b' lw)
  show ?thesis
  proof (cases "2 * n \<le> room")
    case True
    have "RtlConvertSidToUnicodeString m alloc String Sid False =
        Some (STATUS_SUCCESS, String\<lparr>Length := of_nat (2 * n), Buffer := Some b'\<rparr>)"
      using assms(1,2) True by (simp add: RtlConvertSidToUnicodeString_def Let_def len b'_def room_def mult.commute [of _ 2])
    moreover have beyond: "b' i = (if room = 2 * n + 1 \<and> i = room then 0 else b i)" if "room \<le> i" for i
      using that True by (auto simp: b')
    ultimately show ?thesis unfolding Let_def n_def [symmetric] room_def [symmetric] if_P [OF True]
      by (intro conjI exI [of _ b'] allI impI) (use n in simp, assumption, use u in simp, rule txt_b, use b' in simp, rule beyond)
  next
    case False
    with n assms(1) show ?thesis unfolding Let_def n_def [symmetric] room_def [symmetric]
      by (simp add: RtlConvertSidToUnicodeString_def Let_def len room_def mult.commute [of _ 2])
  qed
qed

theorem RtlConvertSidToUnicodeString_bounds_witness:
  "(\<exists>b'. RtlConvertSidToUnicodeString example_sid None \<lparr>Length = 0, MaximumLength = 100, Buffer = Some (\<lambda>_. 7)\<rparr> 0x1000 False =
     Some (STATUS_SUCCESS, \<lparr>Length = 24, MaximumLength = 100, Buffer = Some b'\<rparr>) \<and>
     bytes_at b' 0 24 = wide_bytes (wide ''S-1-5-32-544'') \<and> b' 24 = 0 \<and> b' 25 = 0 \<and> b' 26 = 7) \<and>
   (\<exists>b'. RtlConvertSidToUnicodeString example_sid None \<lparr>Length = 0, MaximumLength = 25, Buffer = Some (\<lambda>_. 7)\<rparr> 0x1000 False =
     Some (STATUS_SUCCESS, \<lparr>Length = 24, MaximumLength = 25, Buffer = Some b'\<rparr>) \<and> b' 25 = 0)"
  using RtlConvertSidToUnicodeString_bounds [where m = example_sid and Sid = "0x1000" and b = "\<lambda>_. 7"
      and String = "\<lparr>Length = 0, MaximumLength = 100, Buffer = Some (\<lambda>_. 7)\<rparr>" and alloc = None]
    RtlConvertSidToUnicodeString_bounds [where m = example_sid and Sid = "0x1000" and b = "\<lambda>_. 7"
      and String = "\<lparr>Length = 0, MaximumLength = 25, Buffer = Some (\<lambda>_. 7)\<rparr>" and alloc = None]
  by (auto simp: example_sid_string example_sid_valid)

text \<open>
  \<open>RtlAllocateAndInitializeSid\<close> with up to eight sub-authorities builds, in the
  block the allocator returned, a valid SID with the given identifier authority and
  sub-authorities, and changes no byte outside the SID.
\<close>

theorem RtlAllocateAndInitializeSid_builds:
  assumes "cnt \<le> 8" and "alloc (RtlLengthRequiredSid (ucast cnt)) = Some p"
    and "auth + 6 \<le> p \<or> p + 8 \<le> auth"
  shows "\<exists>m'. RtlAllocateAndInitializeSid m alloc auth cnt s0 s1 s2 s3 s4 s5 s6 s7 False = (STATUS_SUCCESS, m', Some p) \<and>
    RtlValidSid m' p \<and> unat (m' (RtlSubAuthorityCountSid p)) = unat cnt \<and>
    map m' [RtlIdentifierAuthoritySid p..<RtlIdentifierAuthoritySid p + 6] = map m [auth..<auth + 6] \<and>
    map (\<lambda>i. read_ULONG m' (RtlSubAuthoritySid p (of_nat i))) [0..<unat cnt] = take (unat cnt) [s0, s1, s2, s3, s4, s5, s6, s7] \<and>
    (\<forall>q. m' q \<noteq> m q \<longrightarrow> p \<le> q \<and> q < p + unat (RtlLengthSid m' p))"
proof -
  let ?subs = "[s0, s1, s2, s3, s4, s5, s6, s7]"
  define m1 where "m1 = memcpy (m(p := 1, p + 1 := cnt)) (p + 2) auth 6"
  define m' where "m' = init_sub_authorities m1 p ?subs (unat cnt)"
  have c: "unat cnt \<le> 8" using assms(1) by (simp add: word_le_nat_alt)
  have m1: "m1 q = (if q = p then 1 else if q = p + 1 then cnt else if p + 2 \<le> q \<and> q < p + 8 then m (auth + (q - (p + 2)))
    else m q)" for q
    using assms(3) unfolding m1_def memcpy_eq move_bytes_def by auto
  have other: "m' q = m1 q" if "q < p + 8 \<or> p + 8 + 4 * unat cnt \<le> q" for q
    using init_sub_authorities_other [OF that] by (simp add: m'_def)
  have eq: "RtlAllocateAndInitializeSid m alloc auth cnt s0 s1 s2 s3 s4 s5 s6 s7 False = (STATUS_SUCCESS, m', Some p)"
    using assms(1,2) by (simp add: RtlAllocateAndInitializeSid_def Let_def m'_def m1_def)
  have hd: "m' p = 1" "m' (p + 1) = cnt" using other [of p] other [of "p + 1"] m1 by simp_all
  have auth: "map m' [p + 2..<p + 2 + 6] = map m [auth..<auth + 6]"
    by (rule nth_equalityI) (simp_all add: other m1)
  have subs: "map (\<lambda>i. read_ULONG m' (RtlSubAuthoritySid p (of_nat i))) [0..<unat cnt] = take (unat cnt) ?subs"
  proof (rule nth_equalityI)
    fix i assume "i < length (map (\<lambda>i. read_ULONG m' (RtlSubAuthoritySid p (of_nat i))) [0..<unat cnt])"
    then have i: "i < unat cnt" by simp
    then have "unat (of_nat i :: ULONG) = i" using c by (simp add: unat_of_nat take_bit_nat_eq_self)
    then show "map (\<lambda>i. read_ULONG m' (RtlSubAuthoritySid p (of_nat i))) [0..<unat cnt] ! i = take (unat cnt) ?subs ! i"
      using i init_sub_authorities_read [OF i, of m1 p ?subs] by (simp add: RtlSubAuthoritySid_def m'_def)
  qed (use c in simp)
  have "p \<le> q \<and> q < p + unat (RtlLengthSid m' p)" if "m' q \<noteq> m q" for q
  proof (rule ccontr)
    assume "\<not> (p \<le> q \<and> q < p + unat (RtlLengthSid m' p))"
    then have "q < p \<or> p + 8 + 4 * unat cnt \<le> q" by (simp only: unat_RtlLengthSid hd) linarith
    then have "m' q = m q" using other [of q] m1 [of q] by auto
    with that show False ..
  qed
  moreover have "RtlValidSid m' p" using hd assms(1) by (simp add: RtlValidSid_def word_less_nat_alt word_le_nat_alt)
  ultimately show ?thesis
    using eq hd auth subs by (auto simp: RtlSubAuthorityCountSid_def RtlIdentifierAuthoritySid_def)
qed

theorem RtlAllocateAndInitializeSid_builds_witness:
  "\<exists>m'. RtlAllocateAndInitializeSid example_sid (\<lambda>_. Some 0x2000) 0x1002 2 32 544 0 0 0 0 0 0 False =
      (STATUS_SUCCESS, m', Some 0x2000) \<and> RtlValidSid m' 0x2000 \<and>
    map (\<lambda>i. read_ULONG m' (RtlSubAuthoritySid 0x2000 (of_nat i))) [0..<unat (2 :: UCHAR)] = [32, 544]"
  using RtlAllocateAndInitializeSid_builds [where cnt = 2 and alloc = "\<lambda>_. Some 0x2000" and p = "0x2000" and auth = "0x1002"
      and m = example_sid and ?s0.0 = 32 and ?s1.0 = 544 and ?s2.0 = 0 and ?s3.0 = 0 and ?s4.0 = 0 and ?s5.0 = 0 and ?s6.0 = 0 and ?s7.0 = 0]
  by auto

text \<open>
  \<open>RtlEqualPrefixSid\<close> is \<open>RtlEqualSid\<close>: the length it compares includes the last
  sub-authority, so that it never accepts two SIDs that differ only there.
\<close>

theorem RtlEqualPrefixSid_is_RtlEqualSid:
  "RtlEqualPrefixSid m Sid1 Sid2 = RtlEqualSid m Sid1 Sid2"
  by (simp add: RtlEqualPrefixSid_iff RtlEqualSid_iff)

end
