(* ===== verification/Rtl_Acl.thy ===== *)
theory Rtl_Acl
  imports Rtl_Sid
begin

text \<open>
  Access control lists, \<open>lib/rtl/acl.c\<close>, on the byte memory. An ACL has
  \<open>AclRevision\<close> at offset 0, \<open>Sbz1\<close> at 1, \<open>AclSize\<close> at 2, \<open>AceCount\<close> at 4 and \<open>Sbz2\<close> at 6;
  the ACEs follow at offset 8. An ACE has \<open>AceType\<close> at 0, \<open>AceFlags\<close> at 1, \<open>AceSize\<close> at 2
  and \<open>AccessMask\<close> at 4; the SID of a known ACE starts at 8, or after the object
  flags and the GUIDs.
\<close>

section \<open>Constants and fields\<close>

abbreviation (input) MIN_ACL_REVISION :: UCHAR where "MIN_ACL_REVISION \<equiv> 2"
abbreviation (input) MAX_ACL_REVISION :: UCHAR where "MAX_ACL_REVISION \<equiv> 4"
abbreviation (input) ACL_REVISION3 :: UCHAR where "ACL_REVISION3 \<equiv> 3"

abbreviation (input) ACCESS_ALLOWED_ACE_TYPE :: ULONG where "ACCESS_ALLOWED_ACE_TYPE \<equiv> 0"
abbreviation (input) ACCESS_DENIED_ACE_TYPE :: ULONG where "ACCESS_DENIED_ACE_TYPE \<equiv> 1"
abbreviation (input) SYSTEM_AUDIT_ACE_TYPE :: ULONG where "SYSTEM_AUDIT_ACE_TYPE \<equiv> 2"
abbreviation (input) ACCESS_ALLOWED_COMPOUND_ACE_TYPE :: UCHAR where "ACCESS_ALLOWED_COMPOUND_ACE_TYPE \<equiv> 4"
abbreviation (input) ACCESS_ALLOWED_OBJECT_ACE_TYPE :: ULONG where "ACCESS_ALLOWED_OBJECT_ACE_TYPE \<equiv> 5"
abbreviation (input) ACCESS_DENIED_OBJECT_ACE_TYPE :: ULONG where "ACCESS_DENIED_OBJECT_ACE_TYPE \<equiv> 6"
abbreviation (input) SYSTEM_AUDIT_OBJECT_ACE_TYPE :: ULONG where "SYSTEM_AUDIT_OBJECT_ACE_TYPE \<equiv> 7"
abbreviation (input) SYSTEM_AUDIT_CALLBACK_OBJECT_ACE_TYPE :: ULONG where
  "SYSTEM_AUDIT_CALLBACK_OBJECT_ACE_TYPE \<equiv> 0xF"
abbreviation (input) SYSTEM_MANDATORY_LABEL_ACE_TYPE :: ULONG where "SYSTEM_MANDATORY_LABEL_ACE_TYPE \<equiv> 0x11"

abbreviation (input) VALID_INHERIT_FLAGS :: ULONG where "VALID_INHERIT_FLAGS \<equiv> 0x1F"
abbreviation (input) SUCCESSFUL_ACCESS_ACE_FLAG :: ULONG where "SUCCESSFUL_ACCESS_ACE_FLAG \<equiv> 0x40"
abbreviation (input) FAILED_ACCESS_ACE_FLAG :: ULONG where "FAILED_ACCESS_ACE_FLAG \<equiv> 0x80"
abbreviation (input) ACE_OBJECT_TYPE_PRESENT :: ULONG where "ACE_OBJECT_TYPE_PRESENT \<equiv> 1"
abbreviation (input) ACE_INHERITED_OBJECT_TYPE_PRESENT :: ULONG where "ACE_INHERITED_OBJECT_TYPE_PRESENT \<equiv> 2"
abbreviation (input) SYSTEM_MANDATORY_LABEL_VALID_MASK :: ULONG where "SYSTEM_MANDATORY_LABEL_VALID_MASK \<equiv> 7"

abbreviation (input) AclRevision :: "bytes \<Rightarrow> nat \<Rightarrow> UCHAR" where
  "AclRevision m Acl \<equiv> m Acl"

definition AclSize :: "bytes \<Rightarrow> nat \<Rightarrow> USHORT" where
  "AclSize m Acl = read_USHORT m (Acl + 2)"

definition AceCount :: "bytes \<Rightarrow> nat \<Rightarrow> USHORT" where
  "AceCount m Acl = read_USHORT m (Acl + 4)"

definition AceSize :: "bytes \<Rightarrow> nat \<Rightarrow> USHORT" where
  "AceSize m Ace = read_USHORT m (Ace + 2)"

text \<open>\<open>(ULONG_PTR)Acl + Acl->AclSize\<close> and \<open>(ULONG_PTR)Current + Current->Header.AceSize\<close>.\<close>

definition acl_end :: "bytes \<Rightarrow> nat \<Rightarrow> nat" where
  "acl_end m Acl = ptr_add Acl (unat (AclSize m Acl))"

definition next_ace :: "bytes \<Rightarrow> nat \<Rightarrow> nat" where
  "next_ace m Current = ptr_add Current (unat (AceSize m Current))"

section \<open>Walking the list\<close>

fun first_free_loop :: "bytes \<Rightarrow> nat \<Rightarrow> nat \<Rightarrow> nat \<Rightarrow> nat option" where
  "first_free_loop m Acl Current 0 = Some Current"
| "first_free_loop m Acl Current (Suc left) =
     (if Current \<ge> acl_end m Acl then None
      else if m Current = ACCESS_ALLOWED_COMPOUND_ACE_TYPE \<and> AclRevision m Acl < ACL_REVISION3 then None
      else first_free_loop m Acl (next_ace m Current) left)"

text \<open>
  \<open>None\<close> is the result \<open>FALSE\<close>; \<open>Some None\<close> is \<open>TRUE\<close> with a \<open>NULL\<close> pointer, when the
  list is full.
\<close>

definition RtlFirstFreeAce :: "bytes \<Rightarrow> nat \<Rightarrow> nat option option" where
  "RtlFirstFreeAce m Acl =
     (let Current = Acl + 8
      in if AceCount m Acl = 0 then Some (Some Current)
         else case first_free_loop m Acl Current (unat (AceCount m Acl)) of
           None \<Rightarrow> None
         | Some Current \<Rightarrow> Some (if Current < acl_end m Acl then Some Current else None))"

fun get_ace_loop :: "bytes \<Rightarrow> nat \<Rightarrow> nat \<Rightarrow> nat \<Rightarrow> bool \<times> nat" where
  "get_ace_loop m Acl Ace 0 = (True, Ace)"
| "get_ace_loop m Acl Ace (Suc left) =
     (if Ace \<ge> acl_end m Acl then (False, Ace) else get_ace_loop m Acl (next_ace m Ace) left)"

text \<open>The second component is the value stored in \<open>*Ace\<close>, if it was written.\<close>

definition RtlGetAce :: "bytes \<Rightarrow> nat \<Rightarrow> ULONG \<Rightarrow> NTSTATUS \<times> nat option" where
  "RtlGetAce m Acl AceIndex =
     (if AclRevision m Acl < MIN_ACL_REVISION \<or> AclRevision m Acl > MAX_ACL_REVISION \<or>
         AceIndex \<ge> ucast (AceCount m Acl) then (STATUS_INVALID_PARAMETER, None)
      else case get_ace_loop m Acl (Acl + 8) (unat AceIndex) of
        (ok, Ace) \<Rightarrow>
          if \<not> ok then (STATUS_INVALID_PARAMETER, Some Ace)
          else if Ace \<ge> acl_end m Acl then (STATUS_INVALID_PARAMETER, Some Ace)
          else (STATUS_SUCCESS, Some Ace))"

section \<open>Adding a known ACE\<close>

text \<open>The bytes of \<open>SECURITY_MANDATORY_LABEL_AUTHORITY\<close>.\<close>

definition MandatoryLabelAuthority :: bytes where
  "MandatoryLabelAuthority = (\<lambda>i. if i = 5 then 16 else 0)"

definition known_ace_size :: "bytes \<Rightarrow> nat option \<Rightarrow> nat option \<Rightarrow> nat \<Rightarrow> ULONG" where
  "known_ace_size m ObjectTypeGuid InheritedObjectTypeGuid Sid =
     RtlLengthSid m Sid + 8 + (if ObjectTypeGuid \<noteq> None then 16 else 0) +
     (if InheritedObjectTypeGuid \<noteq> None then 16 else 0) +
     (if ObjectTypeGuid \<noteq> None \<or> InheritedObjectTypeGuid \<noteq> None then 4 else 0)"

definition copy_guid :: "bytes \<times> nat \<Rightarrow> nat option \<Rightarrow> bytes \<times> nat" where
  "copy_guid = (\<lambda>(m, SidStart) g. case g of None \<Rightarrow> (m, SidStart)
     | Some Guid \<Rightarrow> (memcpy m SidStart Guid 16, ptr_add SidStart 16))"

definition write_known_ace :: "bytes \<Rightarrow> nat \<Rightarrow> ULONG \<Rightarrow> ULONG \<Rightarrow> ACCESS_MASK \<Rightarrow> nat option \<Rightarrow> nat option \<Rightarrow>
    nat \<Rightarrow> ULONG \<Rightarrow> bytes" where
  "write_known_ace m Ace Size Flags AccessMask ObjectTypeGuid InheritedObjectTypeGuid Sid Type =
     (let AceObjectFlags = (if ObjectTypeGuid \<noteq> None then ACE_OBJECT_TYPE_PRESENT else 0) OR
            (if InheritedObjectTypeGuid \<noteq> None then ACE_INHERITED_OBJECT_TYPE_PRESENT else 0);
          m = m(Ace + 1 := ucast Flags);
          m = m(Ace := ucast Type);
          m = write_USHORT m (Ace + 2) (ucast Size);
          m = write_ULONG m (Ace + 4) AccessMask;
          (m, SidStart) = (if AceObjectFlags \<noteq> 0 then (write_ULONG m (Ace + 8) AceObjectFlags, ptr_add (Ace + 8) 4)
            else (m, Ace + 8));
          (m, SidStart) = copy_guid (m, SidStart) ObjectTypeGuid;
          (m, SidStart) = copy_guid (m, SidStart) InheritedObjectTypeGuid
      in snd (RtlCopySid m (RtlLengthSid m Sid) SidStart Sid))"

definition RtlpAddKnownAce :: "bytes \<Rightarrow> nat \<Rightarrow> ULONG \<Rightarrow> ULONG \<Rightarrow> ACCESS_MASK \<Rightarrow> nat option \<Rightarrow> nat option \<Rightarrow>
    nat \<Rightarrow> ULONG \<Rightarrow> NTSTATUS \<times> bytes" where
  "RtlpAddKnownAce m Acl Revision Flags AccessMask ObjectTypeGuid InheritedObjectTypeGuid Sid Type =
     (if \<not> RtlValidSid m Sid then (STATUS_INVALID_SID, m)
      else if Type = SYSTEM_MANDATORY_LABEL_ACE_TYPE \<and>
        RtlCompareMemory m (Sid + 2) MandatoryLabelAuthority 0 6 \<noteq> 6 then (STATUS_INVALID_PARAMETER, m)
      else if AclRevision m Acl > MAX_ACL_REVISION \<or> Revision > ucast MAX_ACL_REVISION then
        (STATUS_UNKNOWN_REVISION, m)
      else
        let Revision = (if Revision < ucast (AclRevision m Acl) then ucast (AclRevision m Acl) else Revision);
            InvalidFlags = (if Type = SYSTEM_AUDIT_ACE_TYPE \<or> Type = SYSTEM_AUDIT_OBJECT_ACE_TYPE \<or>
                               Type = SYSTEM_AUDIT_CALLBACK_OBJECT_ACE_TYPE
              then Flags AND NOT (VALID_INHERIT_FLAGS OR SUCCESSFUL_ACCESS_ACE_FLAG OR FAILED_ACCESS_ACE_FLAG)
              else Flags AND NOT VALID_INHERIT_FLAGS)
        in if InvalidFlags \<noteq> 0 then (STATUS_INVALID_PARAMETER, m)
           else case RtlFirstFreeAce m Acl of
             None \<Rightarrow> (STATUS_INVALID_ACL, m)
           | Some None \<Rightarrow> (STATUS_ALLOTTED_SPACE_EXCEEDED, m)
           | Some (Some Ace) \<Rightarrow>
               (let Size = known_ace_size m ObjectTypeGuid InheritedObjectTypeGuid Sid
                in if ptr_add Ace (unat Size) > acl_end m Acl then (STATUS_ALLOTTED_SPACE_EXCEEDED, m)
                   else
                     let m = write_known_ace m Ace Size Flags AccessMask ObjectTypeGuid InheritedObjectTypeGuid
                               Sid Type;
                         m = write_USHORT m (Acl + 4) (AceCount m Acl + 1)
                     in (STATUS_SUCCESS, m(Acl := ucast Revision))))"

definition RtlAddAccessAllowedAce :: "bytes \<Rightarrow> nat \<Rightarrow> ULONG \<Rightarrow> ACCESS_MASK \<Rightarrow> nat \<Rightarrow> NTSTATUS \<times> bytes" where
  "RtlAddAccessAllowedAce m Acl Revision AccessMask Sid =
     RtlpAddKnownAce m Acl Revision 0 AccessMask None None Sid ACCESS_ALLOWED_ACE_TYPE"

definition RtlAddAccessAllowedAceEx :: "bytes \<Rightarrow> nat \<Rightarrow> ULONG \<Rightarrow> ULONG \<Rightarrow> ACCESS_MASK \<Rightarrow> nat \<Rightarrow>
    NTSTATUS \<times> bytes" where
  "RtlAddAccessAllowedAceEx m Acl Revision Flags AccessMask Sid =
     RtlpAddKnownAce m Acl Revision Flags AccessMask None None Sid ACCESS_ALLOWED_ACE_TYPE"

definition RtlAddAccessAllowedObjectAce :: "bytes \<Rightarrow> nat \<Rightarrow> ULONG \<Rightarrow> ULONG \<Rightarrow> ACCESS_MASK \<Rightarrow> nat option \<Rightarrow>
    nat option \<Rightarrow> nat \<Rightarrow> NTSTATUS \<times> bytes" where
  "RtlAddAccessAllowedObjectAce m Acl Revision Flags AccessMask ObjectTypeGuid InheritedObjectTypeGuid Sid =
     RtlpAddKnownAce m Acl Revision Flags AccessMask ObjectTypeGuid InheritedObjectTypeGuid Sid
       (if ObjectTypeGuid \<noteq> None \<or> InheritedObjectTypeGuid \<noteq> None then ACCESS_ALLOWED_OBJECT_ACE_TYPE
        else ACCESS_ALLOWED_ACE_TYPE)"

definition RtlAddAccessDeniedAce :: "bytes \<Rightarrow> nat \<Rightarrow> ULONG \<Rightarrow> ACCESS_MASK \<Rightarrow> nat \<Rightarrow> NTSTATUS \<times> bytes" where
  "RtlAddAccessDeniedAce m Acl Revision AccessMask Sid =
     RtlpAddKnownAce m Acl Revision 0 AccessMask None None Sid ACCESS_DENIED_ACE_TYPE"

definition RtlAddAccessDeniedAceEx :: "bytes \<Rightarrow> nat \<Rightarrow> ULONG \<Rightarrow> ULONG \<Rightarrow> ACCESS_MASK \<Rightarrow> nat \<Rightarrow>
    NTSTATUS \<times> bytes" where
  "RtlAddAccessDeniedAceEx m Acl Revision Flags AccessMask Sid =
     RtlpAddKnownAce m Acl Revision Flags AccessMask None None Sid ACCESS_DENIED_ACE_TYPE"

definition RtlAddAccessDeniedObjectAce :: "bytes \<Rightarrow> nat \<Rightarrow> ULONG \<Rightarrow> ULONG \<Rightarrow> ACCESS_MASK \<Rightarrow> nat option \<Rightarrow>
    nat option \<Rightarrow> nat \<Rightarrow> NTSTATUS \<times> bytes" where
  "RtlAddAccessDeniedObjectAce m Acl Revision Flags AccessMask ObjectTypeGuid InheritedObjectTypeGuid Sid =
     RtlpAddKnownAce m Acl Revision Flags AccessMask ObjectTypeGuid InheritedObjectTypeGuid Sid
       (if ObjectTypeGuid \<noteq> None \<or> InheritedObjectTypeGuid \<noteq> None then ACCESS_DENIED_OBJECT_ACE_TYPE
        else ACCESS_DENIED_ACE_TYPE)"

definition audit_flags :: "ULONG \<Rightarrow> bool \<Rightarrow> bool \<Rightarrow> ULONG" where
  "audit_flags Flags Success Failure =
     (let Flags = (if Success then Flags OR SUCCESSFUL_ACCESS_ACE_FLAG else Flags)
      in if Failure then Flags OR FAILED_ACCESS_ACE_FLAG else Flags)"

definition RtlAddAuditAccessAce :: "bytes \<Rightarrow> nat \<Rightarrow> ULONG \<Rightarrow> ACCESS_MASK \<Rightarrow> nat \<Rightarrow> bool \<Rightarrow> bool \<Rightarrow>
    NTSTATUS \<times> bytes" where
  "RtlAddAuditAccessAce m Acl Revision AccessMask Sid Success Failure =
     RtlpAddKnownAce m Acl Revision (audit_flags 0 Success Failure) AccessMask None None Sid SYSTEM_AUDIT_ACE_TYPE"

definition RtlAddAuditAccessAceEx :: "bytes \<Rightarrow> nat \<Rightarrow> ULONG \<Rightarrow> ULONG \<Rightarrow> ACCESS_MASK \<Rightarrow> nat \<Rightarrow> bool \<Rightarrow> bool \<Rightarrow>
    NTSTATUS \<times> bytes" where
  "RtlAddAuditAccessAceEx m Acl Revision Flags AccessMask Sid Success Failure =
     RtlpAddKnownAce m Acl Revision (audit_flags Flags Success Failure) AccessMask None None Sid SYSTEM_AUDIT_ACE_TYPE"

definition RtlAddAuditAccessObjectAce :: "bytes \<Rightarrow> nat \<Rightarrow> ULONG \<Rightarrow> ULONG \<Rightarrow> ACCESS_MASK \<Rightarrow> nat option \<Rightarrow>
    nat option \<Rightarrow> nat \<Rightarrow> bool \<Rightarrow> bool \<Rightarrow> NTSTATUS \<times> bytes" where
  "RtlAddAuditAccessObjectAce m Acl Revision Flags AccessMask ObjectTypeGuid InheritedObjectTypeGuid Sid
       Success Failure =
     RtlpAddKnownAce m Acl Revision (audit_flags Flags Success Failure) AccessMask ObjectTypeGuid
       InheritedObjectTypeGuid Sid
       (if ObjectTypeGuid \<noteq> None \<or> InheritedObjectTypeGuid \<noteq> None then SYSTEM_AUDIT_OBJECT_ACE_TYPE
        else SYSTEM_AUDIT_ACE_TYPE)"

definition RtlAddMandatoryAce :: "bytes \<Rightarrow> nat \<Rightarrow> ULONG \<Rightarrow> ULONG \<Rightarrow> ULONG \<Rightarrow> ULONG \<Rightarrow> nat \<Rightarrow>
    NTSTATUS \<times> bytes" where
  "RtlAddMandatoryAce m Acl Revision Flags MandatoryFlags AceType LabelSid =
     (if MandatoryFlags AND NOT SYSTEM_MANDATORY_LABEL_VALID_MASK \<noteq> 0 then (STATUS_INVALID_PARAMETER, m)
      else if AceType \<noteq> SYSTEM_MANDATORY_LABEL_ACE_TYPE then (STATUS_INVALID_PARAMETER, m)
      else RtlpAddKnownAce m Acl Revision Flags MandatoryFlags None None LabelSid AceType)"

section \<open>Inserting and deleting\<close>

definition RtlpAddData :: "bytes \<Rightarrow> nat \<Rightarrow> ULONG \<Rightarrow> nat \<Rightarrow> ULONG \<Rightarrow> bytes" where
  "RtlpAddData m AceList AceListLength Ace Offset =
     (let m = (if Offset > 0 then memcpy m (ptr_add Ace (unat AceListLength)) Ace (unat Offset) else m)
      in if AceListLength \<noteq> 0 then memcpy m Ace AceList (unat AceListLength) else m)"

text \<open>
  The loop that counts the new ACEs. It does not return when it meets an ACE of size
  zero. \<open>Some None\<close> is the return of \<open>STATUS_INVALID_PARAMETER\<close>.
\<close>

partial_function (option) count_aces_loop :: "bytes \<Rightarrow> nat \<Rightarrow> ULONG \<Rightarrow> ULONG \<Rightarrow> nat \<Rightarrow> ULONG \<Rightarrow>
    ULONG option option" where
  "count_aces_loop m AceList AceListLength Revision Current NewAceCount =
     (if \<not> Current < ptr_add AceList (unat AceListLength) then Some (Some NewAceCount)
      else if m AceList = ACCESS_ALLOWED_COMPOUND_ACE_TYPE \<and> Revision < ucast ACL_REVISION3 then Some None
      else count_aces_loop m AceList AceListLength Revision (next_ace m Current) (NewAceCount + 1))"

fun skip_aces :: "bytes \<Rightarrow> nat \<Rightarrow> nat \<Rightarrow> nat" where
  "skip_aces m Current 0 = Current"
| "skip_aces m Current (Suc left) = skip_aces m (next_ace m Current) left"

text \<open>The result is \<open>None\<close> when the routine does not return.\<close>

definition RtlAddAce :: "bytes \<Rightarrow> nat \<Rightarrow> ULONG \<Rightarrow> ULONG \<Rightarrow> nat \<Rightarrow> ULONG \<Rightarrow> (NTSTATUS \<times> bytes) option" where
  "RtlAddAce m Acl Revision StartingIndex AceList AceListLength =
     (if AclRevision m Acl < MIN_ACL_REVISION \<or> AclRevision m Acl > MAX_ACL_REVISION then
        Some (STATUS_INVALID_PARAMETER, m)
      else case RtlFirstFreeAce m Acl of
        None \<Rightarrow> Some (STATUS_INVALID_PARAMETER, m)
      | Some Ace \<Rightarrow>
          (let Revision = (if ucast (AclRevision m Acl) \<le> Revision then ucast (AclRevision m Acl) else Revision)
           in if ptr_add AceList (unat AceListLength) \<le> AceList then Some (STATUS_INVALID_PARAMETER, m)
              else case count_aces_loop m AceList AceListLength Revision AceList 0 of
                None \<Rightarrow> None
              | Some None \<Rightarrow> Some (STATUS_INVALID_PARAMETER, m)
              | Some (Some NewAceCount) \<Rightarrow>
                  (case Ace of
                     None \<Rightarrow> Some (STATUS_BUFFER_TOO_SMALL, m)
                   | Some Ace \<Rightarrow>
                       if ptr_add Ace (unat AceListLength) > acl_end m Acl then Some (STATUS_BUFFER_TOO_SMALL, m)
                       else
                         let Current = skip_aces m (Acl + 8) (min (unat StartingIndex) (unat (AceCount m Acl)));
                             m = RtlpAddData m AceList AceListLength Current (of_nat Ace - of_nat Current);
                             m = write_USHORT m (Acl + 4) (ucast (ucast (AceCount m Acl) + NewAceCount))
                         in Some (STATUS_SUCCESS, m(Acl := ucast Revision)))))"

text \<open>
  \<open>RtlpDeleteData\<close> moves and clears a range that its caller computes. \<open>ok q\<close> tells
  whether the byte at \<open>q\<close> can be read and written; \<open>None\<close> is the access violation
  when a byte of the range cannot.
\<close>

definition accessible :: "(nat \<Rightarrow> bool) \<Rightarrow> nat \<Rightarrow> nat \<Rightarrow> bool" where
  "accessible ok p n \<longleftrightarrow> list_all ok [p..<p + n]"

definition RtlpDeleteData :: "(nat \<Rightarrow> bool) \<Rightarrow> bytes \<Rightarrow> nat \<Rightarrow> ULONG \<Rightarrow> ULONG \<Rightarrow> bytes option" where
  "RtlpDeleteData ok m Ace Size Offset =
     (case (if Size < Offset then
              (if accessible ok (ptr_add Ace (unat Size)) (unat (Offset - Size)) \<and> accessible ok Ace (unat (Offset - Size))
               then Some (memmove m Ace (ptr_add Ace (unat Size)) (unat (Offset - Size))) else None)
            else Some m) of
        None \<Rightarrow> None
      | Some m \<Rightarrow>
          if Offset - Size < Offset then
            (if accessible ok (unat (of_nat Ace + Offset - Size)) (unat Size)
             then Some (memset m (unat (of_nat Ace + Offset - Size)) 0 (unat Size)) else None)
          else Some m)"

text \<open>A \<open>NULL\<close> from \<open>RtlFirstFreeAce\<close> enters the offset as the address 0.\<close>

definition RtlDeleteAce :: "(nat \<Rightarrow> bool) \<Rightarrow> bytes \<Rightarrow> nat \<Rightarrow> ULONG \<Rightarrow> (NTSTATUS \<times> bytes) option" where
  "RtlDeleteAce ok m Acl AceIndex =
     (if AclRevision m Acl < MIN_ACL_REVISION \<or> AclRevision m Acl > MAX_ACL_REVISION \<or>
         ucast (AceCount m Acl) \<le> AceIndex then Some (STATUS_INVALID_PARAMETER, m)
      else case RtlFirstFreeAce m Acl of
        None \<Rightarrow> Some (STATUS_INVALID_PARAMETER, m)
      | Some Ace \<Rightarrow>
          (let Current = skip_aces m (Acl + 8) (unat AceIndex)
           in case RtlpDeleteData ok m Current (ucast (AceSize m Current))
                     (of_nat (case Ace of None \<Rightarrow> 0 | Some a \<Rightarrow> a) - of_nat Current) of
                None \<Rightarrow> None
              | Some m \<Rightarrow> Some (STATUS_SUCCESS, write_USHORT m (Acl + 4) (AceCount m Acl - 1))))"

section \<open>Creating, querying, validating\<close>

definition ROUND_UP4 :: "ULONG \<Rightarrow> ULONG" where
  "ROUND_UP4 n = (n + 4 - 1) AND NOT (4 - 1)"

definition RtlCreateAcl :: "bytes \<Rightarrow> nat \<Rightarrow> ULONG \<Rightarrow> ULONG \<Rightarrow> NTSTATUS \<times> bytes" where
  "RtlCreateAcl m Acl Size Revision =
     (if Size < 8 then (STATUS_BUFFER_TOO_SMALL, m)
      else if Revision < ucast MIN_ACL_REVISION \<or> Revision > ucast MAX_ACL_REVISION \<or> Size > 0xFFFF then
        (STATUS_INVALID_PARAMETER, m)
      else
        let Size = ROUND_UP4 Size;
            m = write_USHORT m (Acl + 2) (ucast Size);
            m = m(Acl := ucast Revision);
            m = write_USHORT m (Acl + 4) 0;
            m = m(Acl + 1 := 0);
            m = write_USHORT m (Acl + 6) 0
        in (STATUS_SUCCESS, m))"

datatype ACL_INFORMATION_CLASS = AclRevisionInformation | AclSizeInformation | OtherAclInformation

datatype acl_information = RevisionInfo ULONG | SizeInfo ULONG ULONG ULONG

definition RtlQueryInformationAcl :: "bytes \<Rightarrow> nat \<Rightarrow> ULONG \<Rightarrow> ACL_INFORMATION_CLASS \<Rightarrow>
    NTSTATUS \<times> acl_information option" where
  "RtlQueryInformationAcl m Acl InformationLength InformationClass =
     (if AclRevision m Acl < MIN_ACL_REVISION \<or> AclRevision m Acl > MAX_ACL_REVISION then
        (STATUS_INVALID_PARAMETER, None)
      else case InformationClass of
        AclRevisionInformation \<Rightarrow>
          if InformationLength < 4 then (STATUS_BUFFER_TOO_SMALL, None)
          else (STATUS_SUCCESS, Some (RevisionInfo (ucast (AclRevision m Acl))))
      | AclSizeInformation \<Rightarrow>
          if InformationLength < 12 then (STATUS_BUFFER_TOO_SMALL, None)
          else (case RtlFirstFreeAce m Acl of
              None \<Rightarrow> (STATUS_INVALID_PARAMETER, None)
            | Some (Some Ace) \<Rightarrow>
                (let AclBytesInUse = of_nat Ace - of_nat Acl
                 in (STATUS_SUCCESS, Some (SizeInfo (ucast (AceCount m Acl)) AclBytesInUse
                       (ucast (AclSize m Acl) - AclBytesInUse))))
            | Some None \<Rightarrow>
                (STATUS_SUCCESS, Some (SizeInfo (ucast (AceCount m Acl)) (ucast (AclSize m Acl)) 0)))
      | OtherAclInformation \<Rightarrow> (STATUS_INVALID_INFO_CLASS, None))"

text \<open>\<open>NewRevision\<close> is \<open>AclRevision\<close> of the caller's \<open>ACL_REVISION_INFORMATION\<close>.\<close>

definition RtlSetInformationAcl :: "bytes \<Rightarrow> nat \<Rightarrow> ULONG \<Rightarrow> ULONG \<Rightarrow> ACL_INFORMATION_CLASS \<Rightarrow>
    NTSTATUS \<times> bytes" where
  "RtlSetInformationAcl m Acl NewRevision InformationLength InformationClass =
     (if AclRevision m Acl < MIN_ACL_REVISION \<or> AclRevision m Acl > MAX_ACL_REVISION then
        (STATUS_INVALID_PARAMETER, m)
      else case InformationClass of
        AclRevisionInformation \<Rightarrow>
          if InformationLength < 4 then (STATUS_BUFFER_TOO_SMALL, m)
          else if ucast (AclRevision m Acl) \<ge> NewRevision then (STATUS_INVALID_PARAMETER, m)
          else (STATUS_SUCCESS, m(Acl := ucast NewRevision))
      | _ \<Rightarrow> (STATUS_INVALID_INFO_CLASS, m))"

definition RtlValidAcl :: "bytes \<Rightarrow> nat \<Rightarrow> bool" where
  "RtlValidAcl m Acl =
     (let Size = ucast (ROUND_UP4 (ucast (AclSize m Acl)))
      in if AclRevision m Acl < MIN_ACL_REVISION \<or> AclRevision m Acl > MAX_ACL_REVISION then False
         else if Size \<noteq> AclSize m Acl then False
         else RtlFirstFreeAce m Acl \<noteq> None)"

section \<open>What an ACL holds\<close>

text \<open>
  The abstract view of an ACL is the list of its ACEs, each the list of its bytes. An
  ACE is well formed when the size in its header is its length. \<open>acl_holds m Acl xs\<close>
  says that the memory at \<open>Acl\<close> is an ACL with exactly the ACEs \<open>xs\<close>, one after the other
  from offset 8, within \<open>AclSize\<close>. No object reaches into the last 64 KiB of the address
  space, which the kernel never maps.
\<close>

definition ace_bytes_size :: "UCHAR list \<Rightarrow> nat" where
  "ace_bytes_size x = unat (ucast (x ! 2) OR push_bit 8 (ucast (x ! 3)) :: USHORT)"

definition ace_ok :: "UCHAR \<Rightarrow> UCHAR list \<Rightarrow> bool" where
  "ace_ok r x \<longleftrightarrow> 4 \<le> length x \<and> ace_bytes_size x = length x \<and>
     (x ! 0 = ACCESS_ALLOWED_COMPOUND_ACE_TYPE \<longrightarrow> ACL_REVISION3 \<le> r)"

definition acl_holds :: "bytes \<Rightarrow> nat \<Rightarrow> UCHAR list list \<Rightarrow> bool" where
  "acl_holds m Acl xs \<longleftrightarrow>
     MIN_ACL_REVISION \<le> m Acl \<and> m Acl \<le> MAX_ACL_REVISION \<and> 4 dvd unat (AclSize m Acl) \<and>
     0 < Acl \<and> Acl + unat (AclSize m Acl) < 4294901760 \<and> unat (AceCount m Acl) = length xs \<and>
     list_all (ace_ok (m Acl)) xs \<and> 8 + length (concat xs) \<le> unat (AclSize m Acl) \<and>
     holds m (Acl + 8) (concat xs)"

lemma ace_ok_mono: "ace_ok r x \<Longrightarrow> r \<le> r' \<Longrightarrow> ace_ok r' x"
  by (auto simp: ace_ok_def)

lemma ptr_add_eq: "p + n < 4294967296 \<Longrightarrow> ptr_add p n = p + n"
  by (simp add: ptr_add_def)

lemma AceSize_holds:
  assumes "holds m p x" "ace_ok r x"
  shows "unat (AceSize m p) = length x"
proof -
  have "m (p + i) = x ! i" if "i < 4" for i using assms that by (simp add: holds_iff ace_ok_def)
  from this [of 2] this [of 3] have "unat (AceSize m p) = ace_bytes_size x"
    by (simp add: AceSize_def read_USHORT_def ace_bytes_size_def numeral_eq_Suc)
  then show ?thesis using assms(2) by (simp add: ace_ok_def)
qed

lemma next_ace_holds:
  assumes "holds m p x" "ace_ok r x" "p + length x < 4294967296"
  shows "next_ace m p = p + length x"
  using assms(3) by (simp add: next_ace_def AceSize_holds [OF assms(1,2)] ptr_add_eq)

lemma acl_end_holds: "acl_holds m A xs \<Longrightarrow> acl_end m A = A + unat (AclSize m A)"
  by (simp add: acl_end_def ptr_add_eq acl_holds_def)

lemma skip_aces_holds:
  assumes "holds m p (concat xs)" "list_all (ace_ok r) xs" "p + length (concat xs) < 4294967296" "k \<le> length xs"
  shows "skip_aces m p k = p + length (concat (take k xs))"
  using assms
proof (induction k arbitrary: p xs)
  case (Suc k)
  then obtain x ys where xs: "xs = x # ys" by (cases xs) auto
  have "next_ace m p = p + length x" using Suc.prems next_ace_holds [of m p x r] by (simp add: xs holds_append)
  then show ?case using Suc.IH [of "p + length x" ys] Suc.prems by (simp add: xs holds_append)
qed simp

lemma first_free_loop_holds:
  assumes "holds m p (concat xs)" "list_all (ace_ok (m A)) xs" "p + length (concat xs) \<le> acl_end m A"
    "acl_end m A < 4294967296"
  shows "first_free_loop m A p (length xs) = Some (p + length (concat xs))"
  using assms
proof (induction xs arbitrary: p)
  case (Cons x xs)
  have x: "ace_ok (m A) x" "holds m p x" using Cons.prems by (auto simp: holds_append)
  then have len: "4 \<le> length x" and hd: "m p = x ! 0"
    by (simp_all add: ace_ok_def holds_iff) (metis add_0_right less_le_trans zero_less_numeral)
  have "next_ace m p = p + length x" using x Cons.prems by (intro next_ace_holds) auto
  moreover have "\<not> (m p = 4 \<and> m A < 3)" using x(1) hd by (auto simp: ace_ok_def)
  ultimately show ?case
    using Cons.IH [of "p + length x"] Cons.prems len by (auto simp: holds_append)
qed simp

lemma get_ace_loop_holds:
  assumes "holds m p (concat xs)" "list_all (ace_ok r) xs" "p + length (concat xs) \<le> acl_end m A"
    "acl_end m A < 4294967296" "k \<le> length xs"
  shows "get_ace_loop m A p k = (True, p + length (concat (take k xs)))"
  using assms
proof (induction k arbitrary: p xs)
  case (Suc k)
  then obtain x ys where xs: "xs = x # ys" by (cases xs) auto
  have x: "ace_ok r x" "holds m p x" using Suc.prems by (auto simp: xs holds_append)
  then have len: "4 \<le> length x" by (simp add: ace_ok_def)
  have "next_ace m p = p + length x" using x Suc.prems by (intro next_ace_holds) (auto simp: xs)
  then show ?case using Suc.IH [of "p + length x" ys] Suc.prems len by (simp add: xs holds_append)
qed simp

lemma acl_count_less: "acl_holds m A xs \<Longrightarrow> 4 * length xs \<le> length (concat xs)"
proof -
  assume "acl_holds m A xs"
  then have "list_all (\<lambda>x. 4 \<le> length x) xs"
    by (auto simp: acl_holds_def list_all_iff ace_ok_def)
  then show ?thesis by (induction xs) auto
qed

lemma RtlFirstFreeAce_holds:
  assumes "acl_holds m A xs"
  shows "RtlFirstFreeAce m A =
    Some (if xs = [] \<or> 8 + length (concat xs) < unat (AclSize m A) then Some (A + 8 + length (concat xs)) else None)"
proof -
  have "first_free_loop m A (A + 8) (length xs) = Some (A + 8 + length (concat xs))"
    using assms acl_end_holds [OF assms] by (intro first_free_loop_holds) (auto simp: acl_holds_def)
  moreover have "AceCount m A = 0 \<longleftrightarrow> xs = []" using assms by (auto simp: acl_holds_def unat_eq_0)
  moreover have "unat (AceCount m A) = length xs" using assms by (simp add: acl_holds_def)
  ultimately show ?thesis
    using acl_end_holds [OF assms] by (auto simp: RtlFirstFreeAce_def Let_def)
qed

lemma RtlGetAce_holds:
  assumes "acl_holds m A xs" "unat i < length xs"
  shows "RtlGetAce m A i = (STATUS_SUCCESS, Some (A + 8 + length (concat (take (unat i) xs))))"
proof -
  have "get_ace_loop m A (A + 8) (unat i) = (True, A + 8 + length (concat (take (unat i) xs)))"
    using assms acl_end_holds [OF assms(1)] by (intro get_ace_loop_holds [of _ _ xs "m A"]) (auto simp: acl_holds_def)
  moreover have "\<not> ucast (AceCount m A) \<le> i"
    using assms by (simp add: acl_holds_def word_le_nat_alt)
  moreover have "A + 8 + length (concat (take (unat i) xs)) < acl_end m A"
  proof -
    have "concat xs = concat (take (unat i) xs) @ xs ! unat i @ concat (drop (Suc (unat i)) xs)"
      by (metis assms(2) concat.simps(2) concat_append id_take_nth_drop)
    moreover have "4 \<le> length (xs ! unat i)" using assms by (auto simp: acl_holds_def list_all_length ace_ok_def)
    ultimately have "length (concat (take (unat i) xs)) < length (concat xs)" by (cases "xs ! unat i") simp_all
    then show ?thesis using assms acl_end_holds [OF assms(1)] by (simp add: acl_holds_def)
  qed
  ultimately show ?thesis using assms by (auto simp: RtlGetAce_def acl_holds_def)
qed

lemma unat_align4: "unat (w AND NOT 3 :: ULONG) = unat w div 4 * 4"
proof -
  have "w AND NOT (mask 2) = push_bit 2 (drop_bit 2 w)"
    by (rule bit_word_eqI) (auto simp: bit_simps not_less simp del: add_2_eq_Suc)
  then have "w AND NOT 3 = push_bit 2 (drop_bit 2 w)" by (simp add: mask_eq_exp_minus_1)
  moreover have "unat (drop_bit 2 w) = unat w div 4" by (simp add: drop_bit_eq_div unat_div)
  moreover have "unat w div 4 * 4 < 4294967296" using unat_less_2p32 [of w] by linarith
  ultimately show ?thesis
    by (simp add: push_bit_eq_mult unat_mult_lem [THEN iffD1] unat_word_ariths mult.commute)
qed

lemma unat_ROUND_UP4: "unat n \<le> 0xFFFF \<Longrightarrow> unat (ROUND_UP4 n) = (unat n + 3) div 4 * 4"
proof -
  assume n: "unat n \<le> 0xFFFF"
  then have "unat (n + 3) = unat n + 3" by (simp add: unat_word_ariths)
  then show ?thesis unfolding ROUND_UP4_def using unat_align4 [of "n + 3"] by (simp add: add.commute)
qed

lemma RtlValidAcl_holds:
  assumes "acl_holds m A xs"
  shows "RtlValidAcl m A"
proof -
  have "ucast (ROUND_UP4 (ucast (AclSize m A))) = AclSize m A"
  proof -
    have s: "unat (AclSize m A) < 65536" by (rule unat_USHORT_less)
    have "(unat (AclSize m A) + 3) div 4 * 4 = unat (AclSize m A)"
      using assms by (auto simp: acl_holds_def elim!: dvdE)
    then have "unat (ROUND_UP4 (ucast (AclSize m A))) = unat (AclSize m A)" using s by (simp add: unat_ROUND_UP4)
    then show ?thesis using s by (simp add: word_unat_eq_iff unsigned_ucast_eq take_bit_nat_eq_self)
  qed
  then show ?thesis using assms RtlFirstFreeAce_holds [OF assms]
    by (auto simp: RtlValidAcl_def acl_holds_def Let_def)
qed

section \<open>Updating the header\<close>

definition set_header :: "bytes \<Rightarrow> nat \<Rightarrow> USHORT \<Rightarrow> UCHAR \<Rightarrow> bytes" where
  "set_header m A c r = (write_USHORT m (A + 4) c)(A := r)"

lemma set_header_simps [simp]:
  "AclSize (set_header m A c r) A = AclSize m A" "AceCount (set_header m A c r) A = c" "set_header m A c r A = r"
proof -
  show "AclSize (set_header m A c r) A = AclSize m A"
    unfolding AclSize_def by (rule read_USHORT_cong) (simp_all add: set_header_def write_USHORT_def)
  have "read_USHORT (set_header m A c r) (A + 4) = read_USHORT (write_USHORT m (A + 4) c) (A + 4)"
    by (rule read_USHORT_cong) (simp_all add: set_header_def)
  then show "AceCount (set_header m A c r) A = c" by (simp add: AceCount_def)
qed (simp add: set_header_def)

lemma set_header_other: "A + 8 \<le> q \<or> q < A \<Longrightarrow> set_header m A c r q = m q"
  by (auto simp: set_header_def write_USHORT_def)

lemma header_put_bytes [simp]:
  assumes "A + 8 \<le> p"
  shows "AclSize (put_bytes m p bs) A = AclSize m A" "AceCount (put_bytes m p bs) A = AceCount m A"
    "put_bytes m p bs A = m A"
proof -
  have o: "put_bytes m p bs q = m q" if "q < A + 8" for q using assms that by (simp add: put_bytes_other)
  show "AclSize (put_bytes m p bs) A = AclSize m A" unfolding AclSize_def by (rule read_USHORT_cong) (simp_all add: o)
  show "AceCount (put_bytes m p bs) A = AceCount m A" unfolding AceCount_def by (rule read_USHORT_cong) (simp_all add: o)
qed (use assms in \<open>simp add: put_bytes_other\<close>)

lemma acl_holds_set_header:
  assumes "acl_holds m A xs" "AclSize m1 A = AclSize m A" "holds m1 (A + 8) (concat ys)" "list_all (ace_ok r) ys"
    "8 + length (concat ys) \<le> unat (AclSize m A)" "unat c = length ys" "2 \<le> r" "r \<le> 4"
  shows "acl_holds (set_header m1 A c r) A ys"
  using assms by (auto simp: acl_holds_def set_header_other intro: holds_cong)

lemma acl_room:
  assumes "list_all (ace_ok r) xs" "8 + length (concat xs) \<le> unat (w :: USHORT)"
  shows "length xs < 16384"
proof -
  have "4 * length xs \<le> length (concat xs)"
    using assms(1) by (induction xs) (auto simp: ace_ok_def)
  then show ?thesis using assms(2) unat_USHORT_less [of w] by linarith
qed

section \<open>The bytes of a known ACE\<close>

definition guid_bytes :: "bytes \<Rightarrow> nat option \<Rightarrow> UCHAR list" where
  "guid_bytes m g = (case g of None \<Rightarrow> [] | Some p \<Rightarrow> bytes_at m p 16)"

definition object_flags :: "nat option \<Rightarrow> nat option \<Rightarrow> UCHAR list" where
  "object_flags g h = (if g = None \<and> h = None then [] else
     ULONG_bytes ((if g = None then 0 else 1) OR (if h = None then 0 else 2)))"

definition known_ace :: "bytes \<Rightarrow> ULONG \<Rightarrow> ACCESS_MASK \<Rightarrow> nat option \<Rightarrow> nat option \<Rightarrow> nat \<Rightarrow> ULONG \<Rightarrow> UCHAR list" where
  "known_ace m Flags AccessMask g h Sid Type =
     [ucast Type, ucast Flags] @ USHORT_bytes (ucast (known_ace_size m g h Sid)) @ ULONG_bytes AccessMask @
     object_flags g h @ guid_bytes m g @ guid_bytes m h @ bytes_at m Sid (unat (RtlLengthSid m Sid))"

text \<open>The source of a copy lies outside the bytes from \<open>a\<close> to \<open>e\<close>.\<close>

definition outside :: "nat \<Rightarrow> nat \<Rightarrow> nat \<Rightarrow> nat \<Rightarrow> bool" where
  "outside p n a e \<longleftrightarrow> p + n \<le> a \<or> e \<le> p"

definition guid_outside :: "nat option \<Rightarrow> nat \<Rightarrow> nat \<Rightarrow> bool" where
  "guid_outside g a e \<longleftrightarrow> (case g of None \<Rightarrow> True | Some p \<Rightarrow> outside p 16 a e)"

lemma known_ace_size_eq:
  "unat (known_ace_size m g h s) = 16 + 4 * unat (m (s + 1)) + length (object_flags g h) +
     length (guid_bytes m g) + length (guid_bytes m h)"
proof -
  have "known_ace_size m g h s = of_nat (16 + 4 * unat (m (s + 1)) + length (object_flags g h) +
     length (guid_bytes m g) + length (guid_bytes m h))"
    by (auto simp: known_ace_size_def RtlLengthSid_def object_flags_def guid_bytes_def split: option.splits)
  moreover have "length (object_flags g h) \<le> 4" "length (guid_bytes m g) \<le> 16" "length (guid_bytes m h) \<le> 16"
    by (auto simp: object_flags_def guid_bytes_def split: option.splits)
  ultimately show ?thesis using unat_UCHAR_less [of "m (s + 1)"]
    by (simp add: unat_of_nat take_bit_nat_eq_self del: of_nat_add of_nat_mult)
qed

lemma length_known_ace: "length (known_ace m f am g h s t) = unat (known_ace_size m g h s)"
  by (simp add: known_ace_def known_ace_size_eq unat_RtlLengthSid)

lemma known_ace_size_less: "unat (known_ace_size m g h s) < 2000"
proof -
  have "length (object_flags g h) \<le> 4" "length (guid_bytes m g) \<le> 16" "length (guid_bytes m h) \<le> 16"
    by (auto simp: object_flags_def guid_bytes_def split: option.splits)
  then show ?thesis using unat_UCHAR_less [of "m (s + 1)"] by (simp add: known_ace_size_eq)
qed

lemma USHORT_bytes_join: "ucast (USHORT_bytes v ! 0) OR push_bit 8 (ucast (USHORT_bytes v ! 1)) = v"
  using read_write_USHORT [of "\<lambda>_. 0" 0 v] by (simp add: read_USHORT_def write_USHORT_def USHORT_bytes_def)

lemma known_ace_ok:
  assumes "ucast t \<noteq> (4 :: UCHAR)"
  shows "ace_ok r (known_ace m f am g h s t)"
proof -
  let ?x = "known_ace m f am g h s t"
  have "?x ! 2 = USHORT_bytes (ucast (known_ace_size m g h s)) ! 0" "?x ! 3 = USHORT_bytes (ucast (known_ace_size m g h s)) ! 1"
    "?x ! 0 = ucast t" by (simp_all add: known_ace_def nth_append)
  then have "ace_bytes_size ?x = unat (ucast (known_ace_size m g h s) :: USHORT)"
    using USHORT_bytes_join [of "ucast (known_ace_size m g h s)"] by (simp add: ace_bytes_size_def)
  also have "\<dots> = unat (known_ace_size m g h s)"
    using known_ace_size_less [of m g h s] by (simp add: unsigned_ucast_eq take_bit_nat_eq_self)
  finally show ?thesis using assms by (simp add: ace_ok_def length_known_ace known_ace_size_eq) (simp add: known_ace_def)
qed

lemma copy_guid_put:
  assumes "guid_outside g a e" "a + length bs + length (guid_bytes m g) \<le> e" "e < 4294967296"
  shows "copy_guid (put_bytes m a bs, a + length bs) g =
    (put_bytes m a (bs @ guid_bytes m g), a + length (bs @ guid_bytes m g))"
proof (cases g)
  case (Some p)
  have "bytes_at (put_bytes m a bs) p 16 = bytes_at m p 16"
    using assms by (intro bytes_at_put_bytes) (auto simp: guid_outside_def outside_def guid_bytes_def Some)
  then show ?thesis
    using assms by (simp add: Some copy_guid_def guid_bytes_def memcpy_eq_put put_bytes_append ptr_add_eq add.assoc)
qed (simp add: copy_guid_def guid_bytes_def)

lemma write_known_ace_eq:
  assumes "outside s (unat (RtlLengthSid m s)) a e" "guid_outside g a e" "guid_outside h a e"
    and "a + unat (known_ace_size m g h s) \<le> e" "e < 4294967296"
  shows "write_known_ace m a (known_ace_size m g h s) f am g h s t = put_bytes m a (known_ace m f am g h s t)"
proof -
  define bs0 where "bs0 = [ucast t, ucast f] @ USHORT_bytes (ucast (known_ace_size m g h s)) @ ULONG_bytes am"
  define bs1 where "bs1 = bs0 @ object_flags g h"
  define bs2 where "bs2 = bs1 @ guid_bytes m g"
  define bs3 where "bs3 = bs2 @ guid_bytes m h"
  have size: "a + length bs3 + unat (RtlLengthSid m s) \<le> e"
    using assms(4) by (simp add: bs3_def bs2_def bs1_def bs0_def known_ace_size_eq unat_RtlLengthSid)
  have m0: "write_ULONG (write_USHORT (m(a + 1 := ucast f, a := ucast t)) (a + 2)
      (ucast (known_ace_size m g h s))) (a + 4) am = put_bytes m a bs0"
  proof -
    have "m(a + 1 := ucast f, a := ucast t) = put_bytes m a [ucast t, ucast f]"
      by (simp add: fun_upd_eq_put put_bytes_Cons)
    then show ?thesis
      using put_bytes_append [of m a "[ucast t, ucast f]" "USHORT_bytes (ucast (known_ace_size m g h s))"]
        put_bytes_append [of m a "[ucast t, ucast f] @ USHORT_bytes (ucast (known_ace_size m g h s))" "ULONG_bytes am"]
      by (simp add: write_USHORT_eq_put write_ULONG_eq_put bs0_def)
  qed
  have l0: "length bs0 = 8" by (simp add: bs0_def)
  have m1: "(if (if g \<noteq> None then ACE_OBJECT_TYPE_PRESENT else 0) OR (if h \<noteq> None then ACE_INHERITED_OBJECT_TYPE_PRESENT else 0) \<noteq> 0
      then (write_ULONG (put_bytes m a bs0) (a + 8) ((if g \<noteq> None then ACE_OBJECT_TYPE_PRESENT else 0) OR
        (if h \<noteq> None then ACE_INHERITED_OBJECT_TYPE_PRESENT else 0)), ptr_add (a + 8) 4)
      else (put_bytes m a bs0, a + 8)) = (put_bytes m a bs1, a + length bs1)"
    using put_bytes_append [of m a bs0] size l0 assms(5)
    by (auto simp: bs1_def bs2_def bs3_def object_flags_def write_ULONG_eq_put ptr_add_eq)
  have m2: "copy_guid (put_bytes m a bs1, a + length bs1) g = (put_bytes m a bs2, a + length bs2)"
    unfolding bs2_def using size assms(5) by (intro copy_guid_put [OF assms(2)]) (auto simp: bs3_def bs2_def)
  have m3: "copy_guid (put_bytes m a bs2, a + length bs2) h = (put_bytes m a bs3, a + length bs3)"
    unfolding bs3_def using size assms(5) by (intro copy_guid_put [OF assms(3)]) (auto simp: bs3_def)
  have len: "RtlLengthSid (put_bytes m a bs3) s = RtlLengthSid m s"
  proof -
    have "put_bytes m a bs3 (s + 1) = m (s + 1)"
      using assms(1) size by (intro put_bytes_other) (auto simp: outside_def unat_RtlLengthSid)
    then show ?thesis by (simp add: RtlLengthSid_def)
  qed
  have sid: "bytes_at (put_bytes m a bs3) s (unat (RtlLengthSid m s)) = bytes_at m s (unat (RtlLengthSid m s))"
    using assms(1) size by (intro bytes_at_put_bytes) (auto simp: outside_def)
  show ?thesis
    unfolding write_known_ace_def Let_def m0 m1 prod.case m2 m3
    by (simp add: RtlCopySid_def memmove_eq_put len sid put_bytes_append) (simp add: known_ace_def bs3_def bs2_def bs1_def bs0_def)
qed

section \<open>Adding, deleting and inserting on the list of ACEs\<close>

text \<open>The SID and the GUIDs of the new ACE are not stored inside the ACL.\<close>

definition sources_outside :: "bytes \<Rightarrow> nat \<Rightarrow> nat option \<Rightarrow> nat option \<Rightarrow> nat \<Rightarrow> bool" where
  "sources_outside m A g h s \<longleftrightarrow> outside s (unat (RtlLengthSid m s)) A (A + unat (AclSize m A)) \<and>
     guid_outside g A (A + unat (AclSize m A)) \<and> guid_outside h A (A + unat (AclSize m A))"

lemma outside_inner: "outside p n a e \<Longrightarrow> a \<le> a' \<Longrightarrow> outside p n a' e"
  by (auto simp: outside_def)

lemma guid_outside_inner: "guid_outside g a e \<Longrightarrow> a \<le> a' \<Longrightarrow> guid_outside g a' e"
  by (auto simp: guid_outside_def outside_inner split: option.splits)

lemma RtlpAddKnownAce_fail: "RtlpAddKnownAce m A rv f am g h s t = (st, m') \<Longrightarrow> st \<noteq> STATUS_SUCCESS \<Longrightarrow> m' = m"
  by (auto simp: RtlpAddKnownAce_def Let_def split: if_splits option.splits)

lemma RtlpAddKnownAce_holds:
  assumes acl: "acl_holds m A xs" and src: "sources_outside m A g h s" and t: "ucast t \<noteq> (4 :: UCHAR)"
    and ok: "RtlpAddKnownAce m A rv f am g h s t = (STATUS_SUCCESS, m')"
  shows "acl_holds m' A (xs @ [known_ace m f am g h s t])" "AclSize m' A = AclSize m A"
    "q < A \<or> A + unat (AclSize m A) \<le> q \<Longrightarrow> m' q = m q"
proof -
  let ?a = "A + 8 + length (concat xs)" and ?x = "known_ace m f am g h s t" and ?e = "A + unat (AclSize m A)"
  define r where "r = (if rv < ucast (m A) then ucast (m A) else rv)"
  define S where "S = known_ace_size m g h s"
  have lim: "?e < 4294901760" "8 + length (concat xs) \<le> unat (AclSize m A)" using acl by (auto simp: acl_holds_def)
  have S: "unat S < 2000" by (simp add: S_def known_ace_size_less)
  have ff: "RtlFirstFreeAce m A = Some (Some ?a)" and fit: "\<not> ptr_add ?a (unat S) > ?e" and rv: "rv \<le> 4"
    and m': "m' = (write_USHORT (write_known_ace m ?a S f am g h s t) (A + 4)
        (AceCount (write_known_ace m ?a S f am g h s t) A + 1))(A := ucast r)"
  proof -
    show ff: "RtlFirstFreeAce m A = Some (Some ?a)"
      using ok RtlFirstFreeAce_holds [OF acl] by (auto simp: RtlpAddKnownAce_def Let_def split: if_splits)
    show "\<not> ptr_add ?a (unat S) > ?e" "rv \<le> 4" "m' = (write_USHORT (write_known_ace m ?a S f am g h s t) (A + 4)
        (AceCount (write_known_ace m ?a S f am g h s t) A + 1))(A := ucast r)"
      using ok unfolding RtlpAddKnownAce_def Let_def ff option.case r_def [symmetric] S_def [symmetric]
      by (auto simp: acl_end_holds [OF acl] not_less split: if_splits)
  qed
  have fit': "?a + unat S \<le> ?e" using fit lim S by (simp add: ptr_add_eq)
  have w: "write_known_ace m ?a S f am g h s t = put_bytes m ?a ?x"
    unfolding S_def
  proof (rule write_known_ace_eq [of _ _ _ ?e])
    show "outside s (unat (RtlLengthSid m s)) ?a ?e" "guid_outside g ?a ?e" "guid_outside h ?a ?e"
      using src by (auto simp: sources_outside_def intro: outside_inner guid_outside_inner)
  qed (use fit' lim in \<open>auto simp: S_def\<close>)
  have m'': "m' = set_header (put_bytes m ?a ?x) A (AceCount m A + 1) (ucast r)"
    unfolding m' w by (simp add: set_header_def)
  have r: "m A \<le> ucast r" "ucast r \<le> (4 :: UCHAR)"
  proof -
    have mA: "unat (m A) \<le> 4" using acl by (auto simp: acl_holds_def word_le_nat_alt)
    then have "unat r \<le> 4" "unat (m A) \<le> unat r" using rv by (auto simp: r_def word_le_nat_alt word_less_nat_alt)
    moreover from this have "unat (ucast r :: UCHAR) = unat r" by (simp add: unsigned_ucast_eq take_bit_nat_eq_self)
    ultimately show "m A \<le> ucast r" "ucast r \<le> (4 :: UCHAR)" by (simp_all add: word_le_nat_alt)
  qed
  have xs: "list_all (ace_ok (ucast r)) (xs @ [?x])"
    using acl r(1) known_ace_ok [OF t] by (auto simp: acl_holds_def list_all_iff intro: ace_ok_mono)
  have room: "8 + length (concat (xs @ [?x])) \<le> unat (AclSize m A)"
    using fit' by (simp add: length_known_ace S_def)
  have cnt: "unat (AceCount m A + 1) = length (xs @ [?x])"
    using acl acl_room [OF xs room] by (simp add: acl_holds_def unat_word_ariths)
  show "acl_holds m' A (xs @ [?x])"
    unfolding m''
  proof (rule acl_holds_set_header [OF acl _ _ xs room cnt _ r(2)])
    show "holds (put_bytes m ?a ?x) (A + 8) (concat (xs @ [?x]))"
      using acl holds_put_bytes [of m ?a ?x] by (simp add: holds_append holds_put_bytes_other acl_holds_def)
    show "2 \<le> (ucast r :: UCHAR)" using acl r(1) by (auto simp: acl_holds_def)
  qed simp
  show "AclSize m' A = AclSize m A" by (simp add: m'')
  show "m' q = m q" if "q < A \<or> ?e \<le> q"
    using that fit' lim by (auto simp: m'' set_header_other put_bytes_other length_known_ace S_def)
qed

lemma unat_of_nat_diff: "b \<le> a \<Longrightarrow> a < 4294967296 \<Longrightarrow> unat (of_nat a - of_nat b :: ULONG) = a - b"
  by (simp add: of_nat_diff [symmetric] unat_of_nat take_bit_nat_eq_self del: of_nat_diff)

lemma set_header_same: "A + 8 \<le> p \<Longrightarrow> write_USHORT (put_bytes m p bs) (A + 4) c = set_header (put_bytes m p bs) A c (m A)"
  by (auto simp: set_header_def fun_eq_iff write_USHORT_def put_bytes_other)

lemma drop_nth_concat: "i < length xs \<Longrightarrow> concat (drop i xs) = xs ! i @ concat (drop (Suc i) xs)"
  by (simp add: Cons_nth_drop_Suc [symmetric])

lemma take_drop_concat: "concat xs = concat (take i xs) @ concat (drop i xs)"
  by (metis append_take_drop_id concat_append)

lemma holds_bytes_at_eq: "holds m p bs \<Longrightarrow> n = length bs \<Longrightarrow> bytes_at m p n = bs"
  by (simp add: holds_def)

lemma accessibleI: "(\<And>q. a \<le> q \<Longrightarrow> q < b \<Longrightarrow> ok q) \<Longrightarrow> a \<le> p \<Longrightarrow> p + n \<le> b \<Longrightarrow> accessible ok p n"
  by (auto simp: accessible_def list_all_iff)

lemma accessibleD: "accessible ok p n \<Longrightarrow> p \<le> q \<Longrightarrow> q < p + n \<Longrightarrow> ok q"
  by (auto simp: accessible_def list_all_iff)

lemma RtlpDeleteData_eq:
  assumes "holds m c (x @ ys)" "unat S = length x" "unat off = length x + length ys" "x \<noteq> []"
    "c + length x + length ys < 4294967296" and acc: "\<And>q. c \<le> q \<Longrightarrow> q < c + length x + length ys \<Longrightarrow> ok q"
  shows "RtlpDeleteData ok m c S off = Some (put_bytes m c (ys @ replicate (length x) 0))"
proof -
  have h: "holds m (c + length x) ys" using assms(1) by (simp add: holds_append)
  have u: "unat (off - S) = length ys" using assms(2,3) by (simp add: unat_sub word_le_nat_alt)
  have "of_nat c + off - S = of_nat c + (off - S)" by simp
  also have "unat \<dots> = c + length ys"
    using assms(5) u by (simp add: unat_word_ariths unat_of_nat take_bit_nat_eq_self)
  finally have z: "unat (of_nat c + off - S) = c + length ys" .
  have p: "ptr_add c (unat S) = c + length x" using assms by (simp add: ptr_add_eq)
  have "accessible ok (c + length x) (length ys)" "accessible ok c (length ys)" "accessible ok (c + length ys) (length x)"
    by (rule accessibleI [of c "c + length x + length ys", OF acc], simp_all)+
  note ac = this
  have m1: "(if S < off then
      (if accessible ok (ptr_add c (unat S)) (unat (off - S)) \<and> accessible ok c (unat (off - S))
       then Some (memmove m c (ptr_add c (unat S)) (unat (off - S))) else None)
    else Some m) = Some (put_bytes m c ys)"
  proof (cases "ys = []")
    case False
    then have "S < off" using assms(2,3) by (simp add: word_less_nat_alt)
    then show ?thesis by (simp add: memmove_eq_put p u holds_bytes_at_eq [OF h] ac)
  qed (use assms in \<open>simp add: word_less_nat_alt\<close>)
  have "off - S < off" using u assms(3,4) by (simp add: word_less_nat_alt)
  then show ?thesis
    unfolding RtlpDeleteData_def m1 by (simp add: z memset_eq_put assms(2) put_bytes_append ac)
qed

lemma RtlDeleteAce_holds:
  assumes acl: "acl_holds m A xs" and i: "unat idx < length xs"
    and room: "8 + length (concat xs) < unat (AclSize m A)"
    and acc: "\<And>q. A \<le> q \<Longrightarrow> q < A + unat (AclSize m A) \<Longrightarrow> ok q"
  obtains m' where "RtlDeleteAce ok m A idx = Some (STATUS_SUCCESS, m')"
    "acl_holds m' A (take (unat idx) xs @ drop (Suc (unat idx)) xs)" "AclSize m' A = AclSize m A"
    "\<And>q. q < A \<or> A + unat (AclSize m A) \<le> q \<Longrightarrow> m' q = m q"
proof -
  define i where "i = unat idx"
  define c where "c = A + 8 + length (concat (take i xs))"
  define x where "x = xs ! i"
  define ys where "ys = concat (drop (Suc i) xs)"
  have i: "i < length xs" using assms(2) by (simp add: i_def)
  have lim: "A + unat (AclSize m A) < 4294901760" using acl by (simp add: acl_holds_def)
  have cat: "concat xs = concat (take i xs) @ x @ ys"
    using take_drop_concat [of xs i] drop_nth_concat [OF i] by (simp add: x_def ys_def)
  have aok: "ace_ok (m A) x" using acl i by (simp add: acl_holds_def list_all_length x_def)
  have hx: "holds m c (x @ ys)" using acl by (simp add: acl_holds_def cat holds_append c_def)
  have bound: "c + length x + length ys < A + unat (AclSize m A)" using room by (simp add: cat c_def)
  have ff: "RtlFirstFreeAce m A = Some (Some (c + length x + length ys))"
    using RtlFirstFreeAce_holds [OF acl] room by (simp add: cat c_def)
  have skip: "skip_aces m (A + 8) i = c"
    unfolding c_def using acl i room lim by (intro skip_aces_holds [of m _ _ "m A"]) (auto simp: acl_holds_def)
  have sz: "unat (AceSize m c) = length x" using AceSize_holds [OF _ aok] hx by (simp add: holds_append)
  have A8: "A + 8 \<le> c" by (simp add: c_def)
  define m1 where "m1 = put_bytes m c (ys @ replicate (length x) 0)"
  have del: "RtlpDeleteData ok m c (ucast (AceSize m c)) (of_nat (c + length x + length ys) - of_nat c) = Some m1"
    unfolding m1_def using bound lim aok A8 acc
    by (intro RtlpDeleteData_eq [OF hx]) (auto simp: sz unat_of_nat_diff ace_ok_def simp del: of_nat_add)
  define m' where "m' = set_header m1 A (AceCount m A - 1) (m A)"
  have cnt: "\<not> ucast (AceCount m A) \<le> idx" using acl assms(2) by (simp add: acl_holds_def word_le_nat_alt)
  have rev: "\<not> m A < 2" "\<not> 4 < m A" using acl by (auto simp: acl_holds_def)
  have eq: "RtlDeleteAce ok m A idx = Some (STATUS_SUCCESS, m')"
    unfolding RtlDeleteAce_def Let_def ff option.case i_def [symmetric] skip del
    using cnt rev A8 set_header_same [OF A8] by (simp add: m'_def m1_def)
  have holds1: "holds m1 (A + 8) (concat (take i xs @ drop (Suc i) xs))"
  proof -
    have "holds m1 c ys" using holds_put_bytes [of m c "ys @ replicate (length x) 0"] by (simp add: holds_append m1_def)
    moreover have "holds m1 (A + 8) (concat (take i xs))"
      using acl by (simp add: acl_holds_def cat holds_append m1_def holds_put_bytes_other c_def)
    ultimately show ?thesis by (simp add: holds_append c_def ys_def add.assoc)
  qed
  have "acl_holds m' A (take i xs @ drop (Suc i) xs)"
    unfolding m'_def
  proof (rule acl_holds_set_header [OF acl _ holds1])
    show "AclSize m1 A = AclSize m A" using A8 by (simp add: m1_def)
    show "list_all (ace_ok (m A)) (take i xs @ drop (Suc i) xs)"
      using acl by (auto simp: acl_holds_def list_all_iff dest: in_set_takeD in_set_dropD)
    show "8 + length (concat (take i xs @ drop (Suc i) xs)) \<le> unat (AclSize m A)"
      using bound by (simp add: c_def ys_def)
    have "unat (AceCount m A) = length xs" using acl by (simp add: acl_holds_def)
    then show "unat (AceCount m A - 1) = length (take i xs @ drop (Suc i) xs)"
      using i by (simp add: unat_sub word_le_nat_alt)
  qed (use rev in \<open>auto simp: not_less\<close>)
  moreover have "m' q = m q" if "q < A \<or> A + unat (AclSize m A) \<le> q" for q
    using that A8 bound by (auto simp: m'_def set_header_other m1_def put_bytes_other)
  moreover have "AclSize m' A = AclSize m A" using A8 by (simp add: m'_def m1_def)
  ultimately show thesis using that eq by (auto simp: i_def)
qed

lemma unat_minus_of_nat: "0 < c \<Longrightarrow> c < 4294967296 \<Longrightarrow> unat (- of_nat c :: ULONG) = 4294967296 - c"
proof -
  assume c: "0 < c" "c < 4294967296"
  have "(of_nat (4294967296 - c) :: ULONG) = of_nat 4294967296 - of_nat c" using c by (intro of_nat_diff) simp
  then have "(- of_nat c :: ULONG) = of_nat (4294967296 - c)" by simp
  then show ?thesis using c by (simp add: unat_of_nat take_bit_nat_eq_self del: of_nat_diff)
qed

lemma RtlDeleteAce_full:
  assumes acl: "acl_holds m A xs" and i: "unat idx < length xs"
    and full: "8 + length (concat xs) = unat (AclSize m A)"
    and q: "A + unat (AclSize m A) \<le> q" "q < 4294967296" "\<not> ok q"
  shows "RtlDeleteAce ok m A idx = None"
proof -
  define i where "i = unat idx"
  define c where "c = A + 8 + length (concat (take i xs))"
  define x where "x = xs ! i"
  have i: "i < length xs" using assms(2) by (simp add: i_def)
  have lim: "A + unat (AclSize m A) < 4294901760" using acl by (simp add: acl_holds_def)
  have cat: "concat xs = concat (take i xs) @ x @ concat (drop (Suc i) xs)"
    using take_drop_concat [of xs i] drop_nth_concat [OF i] by (simp add: x_def)
  have aok: "ace_ok (m A) x" using acl i by (simp add: acl_holds_def list_all_length x_def)
  have hx: "holds m c x" using acl by (simp add: acl_holds_def cat holds_append c_def)
  have bound: "c + length x \<le> A + unat (AclSize m A)" using full by (simp add: cat c_def)
  have ff: "RtlFirstFreeAce m A = Some None"
    using RtlFirstFreeAce_holds [OF acl] full i by auto
  have skip: "skip_aces m (A + 8) i = c"
    unfolding c_def using acl i lim by (intro skip_aces_holds [of m _ _ "m A"]) (auto simp: acl_holds_def)
  have sz: "unat (AceSize m c) = length x" using AceSize_holds [OF hx aok] .
  have A8: "A + 8 \<le> c" by (simp add: c_def)
  let ?S = "ucast (AceSize m c) :: ULONG" and ?off = "of_nat 0 - of_nat c :: ULONG"
  have off: "unat ?off = 4294967296 - c"
    using bound lim A8 unat_minus_of_nat [of c] by simp
  have lt: "?S < ?off" using off bound lim sz by (simp add: word_less_nat_alt)
  then have u: "unat (?off - ?S) = 4294967296 - c - length x"
    using off sz by (simp add: unat_sub word_le_nat_alt word_less_nat_alt)
  have p: "ptr_add c (unat ?S) = c + length x" using sz bound lim by (simp add: ptr_add_eq)
  have "\<not> accessible ok (ptr_add c (unat ?S)) (unat (?off - ?S))"
    using accessibleD [of ok "c + length x" "4294967296 - c - length x" q] q bound lim unfolding p u by auto
  then have del: "RtlpDeleteData ok m c ?S ?off = None"
    unfolding RtlpDeleteData_def using lt by (simp only: if_True simp_thms if_False option.case)
  have cnt: "\<not> ucast (AceCount m A) \<le> idx" using acl assms(2) by (simp add: acl_holds_def word_le_nat_alt)
  have rev: "\<not> m A < 2" "\<not> 4 < m A" using acl by (auto simp: acl_holds_def)
  show ?thesis
    unfolding RtlDeleteAce_def Let_def ff option.case i_def [symmetric] skip del using cnt rev by simp
qed

lemma count_aces_loop_holds:
  assumes "holds m p (concat ys)" "list_all (ace_ok r) ys" "ptr_add L (unat len) = p + length (concat ys)"
    "\<not> (m L = 4 \<and> rv < 3)" "p + length (concat ys) < 4294967296"
  shows "count_aces_loop m L len rv p n = Some (Some (n + of_nat (length ys)))"
  using assms
proof (induction ys arbitrary: p n)
  case Nil
  then show ?case by (subst count_aces_loop.simps) simp
next
  case (Cons y ys)
  have y: "ace_ok r y" "holds m p y" using Cons.prems by (auto simp: holds_append)
  then have len: "4 \<le> length y" by (simp add: ace_ok_def)
  have nx: "next_ace m p = p + length y" using y Cons.prems by (intro next_ace_holds) auto
  have "count_aces_loop m L len rv p n = count_aces_loop m L len rv (p + length y) (n + 1)"
  proof -
    have "p < ptr_add L (unat len)" using Cons.prems(3) len by (cases y) auto
    then show ?thesis using Cons.prems(4) by (subst count_aces_loop.simps) (auto simp: nx)
  qed
  also have "\<dots> = Some (Some (n + 1 + of_nat (length ys)))"
    using Cons.prems by (intro Cons.IH) (auto simp: holds_append)
  finally show ?case by (simp add: algebra_simps)
qed

lemma count_aces_loop_zero:
  assumes "AceSize m p = 0" "p < ptr_add L (unat len)" "\<not> (m L = 4 \<and> rv < 3)"
  shows "count_aces_loop m L len rv p n = None"
proof -
  have p: "p < 4294967296" using assms(2) by (simp add: ptr_add_def)
  have "\<not> (AceSize m p = 0 \<and> p < ptr_add L (unat len) \<and> \<not> (m L = 4 \<and> rv < 3) \<and> p < 4294967296)"
    if "count_aces_loop m L len rv p n = Some y" for y
  proof (rule count_aces_loop.raw_induct [OF _ that, where P = "\<lambda>m L len rv p n y.
      \<not> (AceSize m p = 0 \<and> p < ptr_add L (unat len) \<and> \<not> (m L = 4 \<and> rv < 3) \<and> p < 4294967296)"])
    fix f m L len rv p n y
    assume IH: "\<And>m L len rv p n y. f m L len rv p n = Some y \<Longrightarrow>
        \<not> (AceSize m p = 0 \<and> p < ptr_add L (unat len) \<and> \<not> (m L = 4 \<and> rv < 3) \<and> p < 4294967296)"
      and eq: "(if \<not> p < ptr_add L (unat len) then Some (Some n)
        else if m L = 4 \<and> rv < ucast (3 :: UCHAR) then Some None else f m L len rv (next_ace m p) (n + 1)) = Some y"
    show "\<not> (AceSize m p = 0 \<and> p < ptr_add L (unat len) \<and> \<not> (m L = 4 \<and> rv < 3) \<and> p < 4294967296)"
    proof
      assume a: "AceSize m p = 0 \<and> p < ptr_add L (unat len) \<and> \<not> (m L = 4 \<and> rv < 3) \<and> p < 4294967296"
      then have "next_ace m p = p" by (simp add: next_ace_def ptr_add_def)
      with a eq have "f m L len rv p (n + 1) = Some y" by auto
      from IH [OF this] a show False by blast
    qed
  qed
  with assms p show ?thesis by (cases "count_aces_loop m L len rv p n") auto
qed

lemma RtlpAddData_eq:
  assumes "holds m c xs" "holds m L ys" "unat len = length ys" "unat off = length xs" "ys \<noteq> []"
    "c + length ys + length xs < 4294967296" "outside L (length ys) c (c + length ys + length xs)"
  shows "RtlpAddData m L len c off = put_bytes m c (ys @ xs)"
proof -
  let ?m1 = "put_bytes m (c + length ys) xs"
  have m1: "(if off > 0 then memcpy m (ptr_add c (unat len)) c (unat off) else m) = ?m1"
    using assms by (auto simp: memcpy_eq_put ptr_add_eq holds_bytes_at_eq word_less_nat_alt)
  have "len \<noteq> 0" using assms(3,5) by auto
  moreover have "bytes_at ?m1 L (length ys) = ys"
    using assms(2,7) by (subst bytes_at_put_bytes) (auto simp: outside_def holds_bytes_at_eq)
  moreover have "put_bytes ?m1 c ys = put_bytes m c (ys @ xs)"
    by (auto simp: put_bytes_def fun_eq_iff nth_append)
  ultimately show ?thesis unfolding RtlpAddData_def Let_def m1 by (simp add: memcpy_eq_put assms(3))
qed

lemma ucast_narrow: "(ucast (ucast (b :: UCHAR) :: ULONG) :: UCHAR) = b"
  by (rule bit_word_eqI) (auto simp: bit_ucast_iff)

lemma RtlAddAce_holds:
  assumes acl: "acl_holds m A xs" and L: "holds m L (concat ys)" "L + length (concat ys) < 4294967296"
    and len: "unat len = length (concat ys)" and ys: "list_all (ace_ok (m A)) ys" "ys \<noteq> []"
    and out: "outside L (length (concat ys)) A (A + unat (AclSize m A))"
    and room: "8 + length (concat xs) + length (concat ys) \<le> unat (AclSize m A)"
    and rv: "ucast (m A) \<le> rv"
  obtains m' where "RtlAddAce m A rv start L len = Some (STATUS_SUCCESS, m')"
    "acl_holds m' A (take (unat start) xs @ ys @ drop (unat start) xs)" "AclSize m' A = AclSize m A"
    "\<And>q. q < A \<or> A + unat (AclSize m A) \<le> q \<Longrightarrow> m' q = m q"
proof -
  define k where "k = min (unat start) (length xs)"
  define c where "c = A + 8 + length (concat (take k xs))"
  have k: "take (unat start) xs = take k xs" "drop (unat start) xs = drop k xs" "k \<le> length xs"
    by (auto simp: k_def min_def)
  have lim: "A + unat (AclSize m A) < 4294901760" using acl by (simp add: acl_holds_def)
  have cat: "concat xs = concat (take k xs) @ concat (drop k xs)" by (rule take_drop_concat)
  obtain y ys' where y: "ys = y # ys'" using ys(2) by (cases ys) auto
  have "ace_ok (m A) y" using ys(1) y by simp
  then have y4: "4 \<le> length y" and y0: "y ! 0 = 4 \<longrightarrow> \<not> m A < 3" by (auto simp: ace_ok_def)
  have "holds m L y" using L(1) by (simp add: y holds_append)
  then have "m (L + 0) = y ! 0" using y4 unfolding holds_iff by (meson less_le_trans zero_less_numeral)
  with y0 have cpd: "\<not> (m L = 4 \<and> m A < 3)" by auto
  have ne: "concat ys \<noteq> []" using y4 by (cases y) (auto simp: y)
  have pos: "0 < length (concat ys)" using ne by simp
  have bound: "c + length (concat ys) + length (concat (drop k xs)) \<le> A + unat (AclSize m A)"
    using room by (simp add: cat c_def)
  have ff: "RtlFirstFreeAce m A = Some (Some (c + length (concat (drop k xs))))"
  proof -
    have "8 + length (concat xs) < unat (AclSize m A)" using room pos by linarith
    then show ?thesis using RtlFirstFreeAce_holds [OF acl] by (simp add: cat c_def)
  qed
  have cnt: "unat (AceCount m A) = length xs" using acl by (simp add: acl_holds_def)
  have skip: "skip_aces m (A + 8) (min (unat start) (unat (AceCount m A))) = c"
    unfolding c_def cnt k_def [symmetric] using acl lim k(3) by (intro skip_aces_holds [of m _ _ "m A"]) (auto simp: acl_holds_def)
  have lend: "ptr_add L (unat len) = L + length (concat ys)" using L(2) len by (simp add: ptr_add_eq)
  have count: "count_aces_loop m L len (ucast (m A)) L 0 = Some (Some (of_nat (length ys)))"
  proof -
    have "\<not> (m L = 4 \<and> (ucast (m A) :: ULONG) < 3)" using cpd by (simp add: word_less_nat_alt)
    then show ?thesis using count_aces_loop_holds [OF L(1) ys(1) lend _ L(2), of "ucast (m A)" 0] by simp
  qed
  define m1 where "m1 = put_bytes m c (concat ys @ concat (drop k xs))"
  have add: "RtlpAddData m L len c (of_nat (c + length (concat (drop k xs))) - of_nat c) = m1"
    unfolding m1_def
  proof (rule RtlpAddData_eq [OF _ L(1) len _ ne])
    show "holds m c (concat (drop k xs))" using acl by (simp add: acl_holds_def cat holds_append c_def)
    show "outside L (length (concat ys)) c (c + length (concat ys) + length (concat (drop k xs)))"
      using out bound by (auto simp: outside_def c_def)
  qed (use bound lim in \<open>auto simp: unat_of_nat_diff simp del: of_nat_add\<close>)
  have A8: "A + 8 \<le> c" by (simp add: c_def)
  define m' where "m' = set_header m1 A (ucast (ucast (AceCount m A) + of_nat (length ys) :: ULONG)) (m A)"
  have rev: "\<not> m A < 2" "\<not> 4 < m A" using acl by (auto simp: acl_holds_def)
  have fit: "\<not> ptr_add (c + length (concat (drop k xs))) (unat len) > acl_end m A"
    using bound lim len by (simp add: ptr_add_eq acl_end_holds [OF acl])
  have lpos: "\<not> ptr_add L (unat len) \<le> L" using lend pos by linarith
  have eq: "RtlAddAce m A rv start L len = Some (STATUS_SUCCESS, m')"
    unfolding RtlAddAce_def Let_def ff option.case skip if_P [OF rv] count add
    using fit rev lpos A8 by (simp add: m'_def set_header_def m1_def ucast_narrow)
  have okr: "list_all (ace_ok (m A)) (take k xs @ ys @ drop k xs)"
    using acl ys(1) by (auto simp: acl_holds_def list_all_iff dest: in_set_takeD in_set_dropD)
  have rm: "8 + length (concat (take k xs @ ys @ drop k xs)) \<le> unat (AclSize m A)"
    using bound by (simp add: c_def)
  have few: "length xs + length ys < 16384" using acl_room [OF okr rm] k(3) by simp
  have "acl_holds m' A (take k xs @ ys @ drop k xs)"
    unfolding m'_def
  proof (rule acl_holds_set_header [OF acl _ _ okr rm])
    show "AclSize m1 A = AclSize m A" using A8 by (simp add: m1_def)
    have "holds m1 c (concat ys @ concat (drop k xs))" unfolding m1_def by (rule holds_put_bytes)
    moreover have "holds m1 (A + 8) (concat (take k xs))"
      using acl by (simp add: acl_holds_def cat holds_append m1_def holds_put_bytes_other c_def)
    ultimately show "holds m1 (A + 8) (concat (take k xs @ ys @ drop k xs))"
      by (simp add: holds_append c_def add.assoc)
    have "unat (ucast (AceCount m A) + of_nat (length ys) :: ULONG) = length xs + length ys"
      using few cnt by (simp add: unat_word_ariths unat_of_nat take_bit_nat_eq_self)
    then show "unat (ucast (ucast (AceCount m A) + of_nat (length ys) :: ULONG) :: USHORT) = length (take k xs @ ys @ drop k xs)"
      using few k(3) by (simp add: unsigned_ucast_eq take_bit_nat_eq_self)
  qed (use rev in \<open>auto simp: not_less\<close>)
  moreover have "m' q = m q" if "q < A \<or> A + unat (AclSize m A) \<le> q" for q
    using that A8 bound by (auto simp: m'_def set_header_other m1_def put_bytes_other)
  moreover have "AclSize m' A = AclSize m A" using A8 by (simp add: m'_def m1_def)
  ultimately show thesis using that eq k by auto
qed

lemma RtlCreateAcl_holds:
  assumes "8 \<le> sz" "sz \<le> 0xFFFC" "2 \<le> rv" "rv \<le> 4" "0 < A" "A + 0x10000 < 4294901760"
  obtains m' where "RtlCreateAcl m A sz rv = (STATUS_SUCCESS, m')" "acl_holds m' A []"
    "unat (AclSize m' A) = (unat sz + 3) div 4 * 4" "\<And>q. q < A \<or> A + 8 \<le> q \<Longrightarrow> m' q = m q"
proof -
  have sz: "8 \<le> unat sz" "unat sz \<le> 0xFFFC" using assms(1,2) by (simp_all add: word_le_nat_alt)
  define w where "w = (ucast (ROUND_UP4 sz) :: USHORT)"
  have w: "unat w = (unat sz + 3) div 4 * 4"
    using sz by (simp add: w_def unsigned_ucast_eq unat_ROUND_UP4 take_bit_nat_eq_self)
  define m' where "m' = write_USHORT ((write_USHORT ((write_USHORT m (A + 2) w)(A := ucast rv)) (A + 4) 0)(A + 1 := 0)) (A + 6) 0"
  have eq: "RtlCreateAcl m A sz rv = (STATUS_SUCCESS, m')"
    using assms(1-4) sz by (simp add: RtlCreateAcl_def Let_def m'_def w_def word_le_nat_alt word_less_nat_alt)
  have "read_USHORT m' (A + 2) = read_USHORT (write_USHORT m (A + 2) w) (A + 2)"
    by (rule read_USHORT_cong) (simp_all add: m'_def write_USHORT_def)
  then have size: "AclSize m' A = w" by (simp add: AclSize_def)
  have "read_USHORT m' (A + 4) = read_USHORT (write_USHORT m (A + 4) 0) (A + 4)"
    by (rule read_USHORT_cong) (simp_all add: m'_def write_USHORT_def)
  then have count: "AceCount m' A = 0" by (simp add: AceCount_def)
  have rv: "m' A = ucast rv" by (simp add: m'_def write_USHORT_def)
  have "unat rv \<le> 4" "2 \<le> unat rv" using assms(3,4) by (simp_all add: word_le_nat_alt)
  then have "2 \<le> m' A" "m' A \<le> 4" by (simp_all add: rv word_le_nat_alt unsigned_ucast_eq take_bit_nat_eq_self)
  then have "acl_holds m' A []" using assms(5,6) sz size count w by (auto simp: acl_holds_def)
  moreover have "m' q = m q" if "q < A \<or> A + 8 \<le> q" for q using that by (auto simp: m'_def write_USHORT_def)
  ultimately show thesis using that eq size w by auto
qed

section \<open>The routines that add one ACE\<close>

text \<open>
  What every routine that adds one ACE promises: on success the new ACE is the last of
  the list and nothing outside the ACL changes, on failure nothing changes at all. The
  lemmas of the locale say what a caller of \<open>RtlGetAce\<close> and \<open>RtlValidAcl\<close> then sees.
\<close>

locale ace_adder =
  fixes add :: "bytes \<Rightarrow> nat \<Rightarrow> NTSTATUS \<times> bytes"
    and ace :: "bytes \<Rightarrow> UCHAR list"
    and pre :: "bytes \<Rightarrow> nat \<Rightarrow> bool"
  assumes add_holds: "acl_holds m A xs \<Longrightarrow> pre m A \<Longrightarrow> add m A = (STATUS_SUCCESS, m') \<Longrightarrow>
      acl_holds m' A (xs @ [ace m])"
    and add_frame: "acl_holds m A xs \<Longrightarrow> pre m A \<Longrightarrow> add m A = (st, m') \<Longrightarrow>
      q < A \<or> A + unat (AclSize m A) \<le> q \<Longrightarrow> m' q = m q"
    and add_fail: "add m A = (st, m') \<Longrightarrow> st \<noteq> STATUS_SUCCESS \<Longrightarrow> m' = m"
begin

lemma added_is_last:
  assumes "acl_holds m A xs" "pre m A" "add m A = (STATUS_SUCCESS, m')"
  shows "RtlGetAce m' A (of_nat (length xs)) = (STATUS_SUCCESS, Some (A + 8 + length (concat xs)))"
    "holds m' (A + 8 + length (concat xs)) (ace m)"
proof -
  have acl: "acl_holds m' A (xs @ [ace m])" by (rule add_holds [OF assms])
  have "length (xs @ [ace m]) < 16384" using acl acl_room [of "m' A" "xs @ [ace m]" "AclSize m' A"] by (simp add: acl_holds_def)
  then have "unat (of_nat (length xs) :: ULONG) = length xs" by (simp add: unat_of_nat take_bit_nat_eq_self)
  then show "RtlGetAce m' A (of_nat (length xs)) = (STATUS_SUCCESS, Some (A + 8 + length (concat xs)))"
    using RtlGetAce_holds [OF acl, of "of_nat (length xs)"] by simp
  show "holds m' (A + 8 + length (concat xs)) (ace m)" using acl by (simp add: acl_holds_def holds_append)
qed

lemma earlier_kept:
  assumes "acl_holds m A xs" "pre m A" "add m A = (STATUS_SUCCESS, m')" "unat i < length xs"
  shows "RtlGetAce m' A i = RtlGetAce m A i"
  using RtlGetAce_holds [OF assms(1,4)] RtlGetAce_holds [OF add_holds [OF assms(1-3)], of i] assms(4) by simp

lemma stays_valid:
  assumes "acl_holds m A xs" "pre m A" "add m A = (st, m')"
  shows "RtlValidAcl m' A"
proof (cases "st = STATUS_SUCCESS")
  case True
  with assms show ?thesis by (auto intro: RtlValidAcl_holds add_holds)
next
  case False
  then show ?thesis using RtlValidAcl_holds [OF assms(1)] add_fail [OF assms(3)] by simp
qed

end

lemma known_ace_adder:
  assumes "ucast t \<noteq> (4 :: UCHAR)"
  shows "ace_adder (\<lambda>m A. RtlpAddKnownAce m A rv f am g h s t) (\<lambda>m. known_ace m f am g h s t)
    (\<lambda>m A. sources_outside m A g h s)"
proof
  fix m A xs m' st and q
  assume a: "acl_holds m A xs" "sources_outside m A g h s"
  show "acl_holds m' A (xs @ [known_ace m f am g h s t])"
    if "RtlpAddKnownAce m A rv f am g h s t = (STATUS_SUCCESS, m')"
    by (rule RtlpAddKnownAce_holds [OF a assms that])
  show "m' q = m q"
    if "RtlpAddKnownAce m A rv f am g h s t = (st, m')" "q < A \<or> A + unat (AclSize m A) \<le> q"
    using RtlpAddKnownAce_holds(3) [OF a assms, of rv f am m' q] RtlpAddKnownAce_fail [OF that(1)] that
    by (cases "st = STATUS_SUCCESS") auto
qed (rule RtlpAddKnownAce_fail)

interpretation allowed: ace_adder "\<lambda>m A. RtlAddAccessAllowedAce m A rv am s" "\<lambda>m. known_ace m 0 am None None s 0"
    "\<lambda>m A. sources_outside m A None None s" for rv am s
  unfolding RtlAddAccessAllowedAce_def by (rule known_ace_adder) simp

interpretation allowed_ex: ace_adder "\<lambda>m A. RtlAddAccessAllowedAceEx m A rv f am s"
    "\<lambda>m. known_ace m f am None None s 0" "\<lambda>m A. sources_outside m A None None s" for rv f am s
  unfolding RtlAddAccessAllowedAceEx_def by (rule known_ace_adder) simp

interpretation allowed_object: ace_adder "\<lambda>m A. RtlAddAccessAllowedObjectAce m A rv f am g h s"
    "\<lambda>m. known_ace m f am g h s (if g \<noteq> None \<or> h \<noteq> None then 5 else 0)"
    "\<lambda>m A. sources_outside m A g h s" for rv f am g h s
  unfolding RtlAddAccessAllowedObjectAce_def by (rule known_ace_adder) simp

interpretation denied: ace_adder "\<lambda>m A. RtlAddAccessDeniedAce m A rv am s" "\<lambda>m. known_ace m 0 am None None s 1"
    "\<lambda>m A. sources_outside m A None None s" for rv am s
  unfolding RtlAddAccessDeniedAce_def by (rule known_ace_adder) simp

interpretation denied_ex: ace_adder "\<lambda>m A. RtlAddAccessDeniedAceEx m A rv f am s"
    "\<lambda>m. known_ace m f am None None s 1" "\<lambda>m A. sources_outside m A None None s" for rv f am s
  unfolding RtlAddAccessDeniedAceEx_def by (rule known_ace_adder) simp

interpretation denied_object: ace_adder "\<lambda>m A. RtlAddAccessDeniedObjectAce m A rv f am g h s"
    "\<lambda>m. known_ace m f am g h s (if g \<noteq> None \<or> h \<noteq> None then 6 else 1)"
    "\<lambda>m A. sources_outside m A g h s" for rv f am g h s
  unfolding RtlAddAccessDeniedObjectAce_def by (rule known_ace_adder) simp

interpretation audit: ace_adder "\<lambda>m A. RtlAddAuditAccessAce m A rv am s ok bad"
    "\<lambda>m. known_ace m (audit_flags 0 ok bad) am None None s 2" "\<lambda>m A. sources_outside m A None None s"
    for rv am s ok bad
  unfolding RtlAddAuditAccessAce_def by (rule known_ace_adder) simp

interpretation audit_object: ace_adder "\<lambda>m A. RtlAddAuditAccessObjectAce m A rv f am g h s ok bad"
    "\<lambda>m. known_ace m (audit_flags f ok bad) am g h s (if g \<noteq> None \<or> h \<noteq> None then 7 else 2)"
    "\<lambda>m A. sources_outside m A g h s" for rv f am g h s ok bad
  unfolding RtlAddAuditAccessObjectAce_def by (rule known_ace_adder) simp

lemma holds_ULONG_bytes: "holds m p (ULONG_bytes v) \<Longrightarrow> read_ULONG m p = v"
proof -
  assume h: "holds m p (ULONG_bytes v)"
  have "read_ULONG m p = read_ULONG (put_bytes m p (ULONG_bytes v)) p"
    by (rule read_ULONG_cong) (use h in \<open>simp add: holds_iff put_bytes_def\<close>)
  then show ?thesis by (simp add: write_ULONG_eq_put [symmetric])
qed

lemma known_ace_fields:
  assumes "holds m' p (known_ace m f am None None s t)" "bytes_at m' s (unat (RtlLengthSid m s)) = bytes_at m s (unat (RtlLengthSid m s))"
  shows "m' p = ucast t" "m' (p + 1) = ucast f" "read_ULONG m' (p + 4) = am" "RtlEqualSid m' (p + 8) s"
proof -
  let ?n = "unat (RtlLengthSid m s)"
  have h: "holds m' p [ucast t, ucast f]" "holds m' (p + 4) (ULONG_bytes am)" "holds m' (p + 8) (bytes_at m s ?n)"
    using assms(1) by (simp_all add: known_ace_def holds_append object_flags_def guid_bytes_def ac_simps
        del: append_Cons add_2_eq_Suc add_2_eq_Suc')
  show "m' p = ucast t" "m' (p + 1) = ucast f" using h(1) by (auto simp: holds_iff dest: spec [of _ 0] spec [of _ 1])
  show "read_ULONG m' (p + 4) = am" by (rule holds_ULONG_bytes [OF h(2)])
  have eq: "m' (p + 8 + k) = m' (s + k)" if "k < ?n" for k
    using h(3) assms(2) that by (simp add: holds_iff list_eq_iff_nth_eq)
  have "m' (s + 1) = m (s + 1)"
  proof -
    have "1 < ?n" by (simp add: unat_RtlLengthSid)
    then show ?thesis using assms(2) by (metis nth_bytes_at)
  qed
  then have "m' (p + 8 + 1) = m (s + 1)" using eq [of 1] by (simp add: unat_RtlLengthSid)
  then show "RtlEqualSid m' (p + 8) s" unfolding RtlEqualSid_iff using eq by (simp add: unat_RtlLengthSid)
qed

text \<open>
  An ACL of 44 bytes at \<open>0x3000\<close> with one ACE of 24 bytes, in the memory that holds the SID of
  the administrators at \<open>0x1000\<close>; and the same with an \<open>AclSize\<close> of 32, so that it is full.
\<close>

definition example_ace :: "UCHAR list" where
  "example_ace = known_ace example_sid 0 0x1F01FF None None 0x1000 0"

definition example_acl :: "USHORT \<Rightarrow> bytes" where
  "example_acl sz = set_header (write_USHORT (put_bytes example_sid 0x3008 example_ace) 0x3002 sz) 0x3000 1 2"

lemma example_ace_length: "length example_ace = 24"
  by (simp add: example_ace_def length_known_ace known_ace_size_eq object_flags_def guid_bytes_def) (simp add: example_sid_def)

lemma example_acl_holds:
  assumes "sz = 32 \<or> sz = 80"
  shows "acl_holds (example_acl sz) 0x3000 [example_ace]" "AclSize (example_acl sz) 0x3000 = sz"
proof -
  have "read_USHORT (example_acl sz) (0x3000 + 2) = read_USHORT (write_USHORT (put_bytes example_sid 0x3008 example_ace) (0x3000 + 2) sz) (0x3000 + 2)"
    by (rule read_USHORT_cong) (simp_all add: example_acl_def set_header_def write_USHORT_def)
  then show size: "AclSize (example_acl sz) 0x3000 = sz" unfolding AclSize_def by simp
  have "holds (example_acl sz) (0x3000 + 8) example_ace"
    by (rule holds_cong [OF _ holds_put_bytes [of example_sid]]) (simp add: example_acl_def set_header_def write_USHORT_def)
  moreover have "AceCount (example_acl sz) 0x3000 = 1" "example_acl sz 0x3000 = 2" by (simp_all add: example_acl_def)
  moreover have "ace_ok 2 example_ace" unfolding example_ace_def by (rule known_ace_ok) simp
  ultimately show "acl_holds (example_acl sz) 0x3000 [example_ace]"
    using size assms by (auto simp: acl_holds_def example_ace_length)
qed

lemma example_acl_sid: "p < 0x3000 \<Longrightarrow> example_acl sz p = example_sid p"
  by (simp add: example_acl_def set_header_def write_USHORT_def put_bytes_other)

lemma example_acl_sid_length: "RtlLengthSid (example_acl sz) 0x1000 = 16"
  by (simp add: RtlLengthSid_def example_acl_sid) (simp add: example_sid_def)

lemma example_sources: "sources_outside (example_acl sz) 0x3000 None None 0x1000"
  by (simp add: sources_outside_def outside_def guid_outside_def example_acl_sid_length)

lemma example_add:
  assumes "t = 0 \<or> t = 1"
  shows "\<exists>m'. RtlpAddKnownAce (example_acl 80) 0x3000 2 0 1 None None 0x1000 t = (STATUS_SUCCESS, m')"
proof -
  have acl: "acl_holds (example_acl 80) 0x3000 [example_ace]" "AclSize (example_acl 80) 0x3000 = 80"
    using example_acl_holds [of 80] by simp_all
  have size: "known_ace_size (example_acl 80) None None 0x1000 = 24"
    by (simp add: known_ace_size_def example_acl_sid_length)
  have "acl_end (example_acl 80) 0x3000 = 0x3050" using acl_end_holds [OF acl(1)] acl(2) by simp
  moreover have "RtlFirstFreeAce (example_acl 80) 0x3000 = Some (Some 0x3020)"
    using RtlFirstFreeAce_holds [OF acl(1)] acl(2) by (simp add: example_ace_length)
  moreover have "RtlValidSid (example_acl 80) 0x1000"
    using example_sid_valid by (simp add: RtlValidSid_def example_acl_sid)
  ultimately show ?thesis
    using size assms by (auto simp: RtlpAddKnownAce_def Let_def ptr_add_def example_acl_def)
qed

lemma acl_holds_cong:
  assumes "acl_holds m A xs" "\<And>q. A \<le> q \<Longrightarrow> q < A + unat (AclSize m A) \<Longrightarrow> m' q = m q"
  shows "acl_holds m' A xs" "AclSize m' A = AclSize m A"
proof -
  have "8 \<le> unat (AclSize m A)" using assms(1) by (simp add: acl_holds_def)
  then have h: "m' q = m q" if "A \<le> q" "q < A + 8" for q using assms(2) [of q] that by simp
  show size: "AclSize m' A = AclSize m A" unfolding AclSize_def by (rule read_USHORT_cong) (simp_all add: h)
  have "AceCount m' A = AceCount m A" unfolding AceCount_def by (rule read_USHORT_cong) (simp_all add: h)
  moreover have "m' A = m A" by (simp add: h)
  moreover have "holds m' (A + 8) (concat xs)"
    by (rule holds_cong [of _ _ _ m]) (use assms in \<open>auto simp: acl_holds_def\<close>)
  ultimately show "acl_holds m' A xs" using assms(1) size by (simp add: acl_holds_def)
qed

section \<open>Properties\<close>

text \<open>
  \<open>RtlCreateAcl\<close> makes a valid empty ACL of the requested size rounded up to four,
  for every size from 8 to \<open>0xFFFC\<close>. For the three larger sizes that it accepts, the
  rounded size does not fit in \<open>AclSize\<close> and becomes 0.
\<close>

theorem RtlCreateAcl_creates:
  assumes "8 \<le> Size" and "Size \<le> 0xFFFF" and "2 \<le> Revision" and "Revision \<le> 4"
    and "0 < Acl" and "Acl + 0x10000 < 4294901760"
  shows "\<exists>m'. RtlCreateAcl m Acl Size Revision = (STATUS_SUCCESS, m') \<and>
    (if Size \<le> 0xFFFC
     then acl_holds m' Acl [] \<and> RtlValidAcl m' Acl \<and> unat (AclSize m' Acl) = (unat Size + 3) div 4 * 4
     else AclSize m' Acl = 0)"
proof (cases "Size \<le> 0xFFFC")
  case True
  obtain m' where "RtlCreateAcl m Acl Size Revision = (STATUS_SUCCESS, m')" "acl_holds m' Acl []"
    "unat (AclSize m' Acl) = (unat Size + 3) div 4 * 4"
    using RtlCreateAcl_holds [OF assms(1) True assms(3-6), of m] by blast
  with True RtlValidAcl_holds [of m' Acl "[]"] show ?thesis by auto
next
  case False
  then have "unat Size \<in> {0xFFFD..0xFFFF}" using assms(2) by (simp add: word_le_nat_alt)
  then have "unat (ROUND_UP4 Size) = 0x10000" by (subst unat_ROUND_UP4) auto
  then have z: "(ucast (ROUND_UP4 Size) :: USHORT) = 0" by (simp add: word_unat_eq_iff unsigned_ucast_eq take_bit_eq_mod)
  have "\<exists>m'. RtlCreateAcl m Acl Size Revision = (STATUS_SUCCESS, m') \<and> AclSize m' Acl = 0"
    using assms(1-4) z by (auto simp: RtlCreateAcl_def Let_def AclSize_def write_USHORT_def read_USHORT_def)
  with False show ?thesis by simp
qed

theorem RtlCreateAcl_creates_witness:
  "\<exists>m'. RtlCreateAcl (\<lambda>_. 0xCC) 0x3000 50 2 = (STATUS_SUCCESS, m') \<and> RtlValidAcl m' 0x3000 \<and>
    unat (AclSize m' 0x3000) = 52"
  using RtlCreateAcl_creates [of 50 2 "0x3000" "\<lambda>_. 0xCC"] by auto

text \<open>
  C4: \<open>RtlpAddKnownAce\<close> appends. On an ACL that holds the ACEs \<open>xs\<close>, success means that
  it now holds \<open>xs\<close> followed by the ACE with the given type, flags, mask, GUIDs and SID
  and that no byte outside the ACL changed; any other status means that no byte
  changed at all.
\<close>

theorem RtlpAddKnownAce_appends:
  assumes "acl_holds m Acl xs" and "sources_outside m Acl g h Sid" and "ucast Type \<noteq> (4 :: UCHAR)"
    and "RtlpAddKnownAce m Acl Revision Flags AccessMask g h Sid Type = (st, m')"
  shows "if st = STATUS_SUCCESS
    then acl_holds m' Acl (xs @ [known_ace m Flags AccessMask g h Sid Type]) \<and>
      (\<forall>q. m' q \<noteq> m q \<longrightarrow> Acl \<le> q \<and> q < Acl + unat (AclSize m Acl))
    else m' = m"
proof (cases "st = STATUS_SUCCESS")
  case True
  note R = RtlpAddKnownAce_holds [OF assms(1-3) assms(4) [unfolded True]]
  have "Acl \<le> q \<and> q < Acl + unat (AclSize m Acl)" if "m' q \<noteq> m q" for q
    using R(3) [of q] that by (meson not_le)
  with True R(1) show ?thesis by simp
qed (use RtlpAddKnownAce_fail [OF assms(4)] in simp)

theorem RtlpAddKnownAce_appends_witness:
  "\<exists>m'. RtlpAddKnownAce (example_acl 80) 0x3000 2 0 1 None None 0x1000 1 = (STATUS_SUCCESS, m') \<and>
     acl_holds m' 0x3000 ([example_ace] @ [known_ace (example_acl 80) 0 1 None None 0x1000 1])"
proof -
  obtain m' where m': "RtlpAddKnownAce (example_acl 80) 0x3000 2 0 1 None None 0x1000 1 = (STATUS_SUCCESS, m')"
    using example_add [of 1] by auto
  show ?thesis using RtlpAddKnownAce_appends [OF example_acl_holds(1) example_sources _ m'] m' by simp
qed

text \<open>
  C30: an access right that was added is the one that is read. After a successful
  \<open>RtlAddAccessAllowedAce\<close> to an ACL with \<open>n\<close> entries, \<open>RtlGetAce\<close> finds entry \<open>n\<close> and it
  is an access-allowed ACE with the given mask and an equal SID, the earlier entries
  are found where they were, and the ACL is valid.
\<close>

theorem add_allowed_then_get:
  assumes "acl_holds m Acl xs" and "sources_outside m Acl None None Sid"
    and "RtlAddAccessAllowedAce m Acl Revision AccessMask Sid = (STATUS_SUCCESS, m')"
  shows "\<exists>Ace. RtlGetAce m' Acl (of_nat (length xs)) = (STATUS_SUCCESS, Some Ace) \<and>
    m' Ace = ucast ACCESS_ALLOWED_ACE_TYPE \<and> read_ULONG m' (Ace + 4) = AccessMask \<and> RtlEqualSid m' (Ace + 8) Sid \<and>
    (\<forall>i. unat i < length xs \<longrightarrow> RtlGetAce m' Acl i = RtlGetAce m Acl i) \<and> RtlValidAcl m' Acl"
proof -
  let ?p = "Acl + 8 + length (concat xs)"
  note get = allowed.added_is_last [OF assms]
  have "bytes_at m' Sid (unat (RtlLengthSid m Sid)) = bytes_at m Sid (unat (RtlLengthSid m Sid))"
    using assms(2) allowed.add_frame [OF assms]
    by (intro bytes_at_cong) (auto simp: sources_outside_def outside_def)
  from known_ace_fields [OF get(2) this] get(1) allowed.earlier_kept [OF assms] allowed.stays_valid [OF assms]
  show ?thesis by auto
qed

theorem add_allowed_then_get_witness:
  "\<exists>m' Ace. RtlAddAccessAllowedAce (example_acl 80) 0x3000 2 1 0x1000 = (STATUS_SUCCESS, m') \<and>
    RtlGetAce m' 0x3000 1 = (STATUS_SUCCESS, Some Ace) \<and> read_ULONG m' (Ace + 4) = 1 \<and> RtlEqualSid m' (Ace + 8) 0x1000"
proof -
  obtain m' where "RtlAddAccessAllowedAce (example_acl 80) 0x3000 2 1 0x1000 = (STATUS_SUCCESS, m')"
    using example_add [of 0] by (auto simp: RtlAddAccessAllowedAce_def)
  with add_allowed_then_get [OF example_acl_holds(1) example_sources this] show ?thesis by auto
qed

text \<open>
  C27: from an ACL with at least one free byte, whose bytes can be accessed,
  \<open>RtlDeleteAce\<close> removes exactly the ACE with the index, without a fault, and changes
  no byte outside the ACL.
\<close>

theorem RtlDeleteAce_removes:
  assumes "acl_holds m Acl xs" and "unat AceIndex < length xs"
    and "8 + length (concat xs) < unat (AclSize m Acl)"
    and "\<And>q. Acl \<le> q \<Longrightarrow> q < Acl + unat (AclSize m Acl) \<Longrightarrow> ok q"
  shows "\<exists>m'. RtlDeleteAce ok m Acl AceIndex = Some (STATUS_SUCCESS, m') \<and>
    acl_holds m' Acl (take (unat AceIndex) xs @ drop (Suc (unat AceIndex)) xs) \<and>
    (\<forall>q. m' q \<noteq> m q \<longrightarrow> Acl \<le> q \<and> q < Acl + unat (AclSize m Acl))"
  by (rule RtlDeleteAce_holds [OF assms]) (assumption | metis not_le)+

theorem RtlDeleteAce_removes_witness:
  "\<exists>m'. RtlDeleteAce (\<lambda>q. 0x3000 \<le> q \<and> q < 0x3050) (example_acl 80) 0x3000 0 = Some (STATUS_SUCCESS, m') \<and> acl_holds m' 0x3000 []"
  using RtlDeleteAce_removes [of "example_acl 80" "0x3000" "[example_ace]" 0 "\<lambda>q. 0x3000 \<le> q \<and> q < 0x3050"] example_acl_holds [of 80]
  by (auto simp: example_ace_length)

text \<open>
  C39: on an ACL with no free byte the same call faults. \<open>RtlFirstFreeAce\<close> yields
  \<open>NULL\<close>, the offset computed from it wraps, and the range to move becomes the whole
  address space above the ACE, so that one inaccessible byte anywhere behind the ACL
  is enough for an access violation.
\<close>

theorem RtlDeleteAce_full_faults:
  assumes "acl_holds m Acl xs" and "unat AceIndex < length xs"
    and "8 + length (concat xs) = unat (AclSize m Acl)"
    and "Acl + unat (AclSize m Acl) \<le> q" and "q < 4294967296" and "\<not> ok q"
  shows "RtlDeleteAce ok m Acl AceIndex = None"
  using RtlDeleteAce_full [of m Acl xs AceIndex q ok] assms by blast

theorem RtlDeleteAce_full_faults_witness:
  "RtlDeleteAce (\<lambda>q. 0x3000 \<le> q \<and> q < 0x5000) (example_acl 32) 0x3000 0 = None"
  using RtlDeleteAce_full_faults [of "example_acl 32" "0x3000" "[example_ace]" 0 "0xFFFFF000" "\<lambda>q. 0x3000 \<le> q \<and> q < 0x5000"]
    example_acl_holds [of 32]
  by (auto simp: example_ace_length)

text \<open>
  C13: \<open>RtlAddAce\<close> inserts the ACEs of the caller's list at the starting index, or at the
  end when the index is past it, keeps the other ACEs in order and changes no byte
  outside the ACL, when there is room and the caller's revision is not below that of
  the ACL. In particular it returns.
\<close>

theorem RtlAddAce_inserts:
  assumes "acl_holds m Acl xs" and "holds m AceList (concat ys)" and "AceList + length (concat ys) < 4294967296"
    and "unat AceListLength = length (concat ys)" and "list_all (ace_ok (m Acl)) ys" and "ys \<noteq> []"
    and "outside AceList (length (concat ys)) Acl (Acl + unat (AclSize m Acl))"
    and "8 + length (concat xs) + length (concat ys) \<le> unat (AclSize m Acl)" and "ucast (m Acl) \<le> Revision"
  shows "\<exists>m'. RtlAddAce m Acl Revision StartingIndex AceList AceListLength = Some (STATUS_SUCCESS, m') \<and>
    acl_holds m' Acl (take (unat StartingIndex) xs @ ys @ drop (unat StartingIndex) xs) \<and>
    (\<forall>q. m' q \<noteq> m q \<longrightarrow> Acl \<le> q \<and> q < Acl + unat (AclSize m Acl))"
  by (rule RtlAddAce_holds [OF assms, of StartingIndex]) (metis not_le)

theorem RtlAddAce_inserts_witness:
  "\<exists>m'. RtlAddAce (put_bytes (example_acl 80) 0x6000 example_ace) 0x3000 2 0 0x6000 24 = Some (STATUS_SUCCESS, m') \<and>
    acl_holds m' 0x3000 [example_ace, example_ace]"
proof -
  let ?m = "put_bytes (example_acl 80) 0x6000 example_ace"
  have ex: "acl_holds (example_acl 80) 0x3000 [example_ace]" "AclSize (example_acl 80) 0x3000 = 80"
    using example_acl_holds [of 80] by simp_all
  have same: "?m q = example_acl 80 q" if "0x3000 \<le> q" "q < 0x3000 + unat (AclSize (example_acl 80) 0x3000)" for q
    using that ex(2) by (simp add: put_bytes_other)
  note acl = acl_holds_cong [OF ex(1) same]
  have rev: "put_bytes (example_acl 80) 0x6000 example_ace 0x3000 = 2"
    by (simp add: put_bytes_other) (simp add: example_acl_def)
  have "ace_ok 2 example_ace" unfolding example_ace_def by (rule known_ace_ok) simp
  with RtlAddAce_inserts [OF acl(1), of "0x6000" "[example_ace]" 24 2 0] acl(2) ex(2)
  show ?thesis by (auto simp: example_ace_length holds_put_bytes outside_def rev)
qed

text \<open>
  C40: \<open>RtlAddAce\<close> does not return when the first ACE of the caller's list has size
  zero: the counting loop stays at the same address.
\<close>

theorem RtlAddAce_zero_size_diverges:
  assumes "acl_holds m Acl xs" and "AceSize m AceList = 0" and "AceList < ptr_add AceList (unat AceListLength)"
    and "m AceList \<noteq> ACCESS_ALLOWED_COMPOUND_ACE_TYPE"
  shows "RtlAddAce m Acl Revision StartingIndex AceList AceListLength = None"
proof -
  have "count_aces_loop m AceList AceListLength rv AceList 0 = None" for rv
    by (rule count_aces_loop_zero [OF assms(2,3)]) (use assms(4) in simp)
  then show ?thesis
    using assms(1,3) RtlFirstFreeAce_holds [OF assms(1)] by (auto simp: RtlAddAce_def Let_def acl_holds_def)
qed

theorem RtlAddAce_zero_size_diverges_witness:
  "RtlAddAce (example_acl 80) 0x3000 2 0 0x7000 4 = None"
proof (rule RtlAddAce_zero_size_diverges [OF example_acl_holds(1)])
  have "example_acl 80 q = 0" if "0x7000 \<le> q" for q
    using that by (simp add: example_acl_def set_header_def write_USHORT_def put_bytes_other example_ace_length example_sid_def)
  then show "AceSize (example_acl 80) 0x7000 = 0" "example_acl 80 0x7000 \<noteq> 4"
    by (simp_all add: AceSize_def read_USHORT_def)
qed (simp_all add: ptr_add_def)

end
