(* ===== verification/Rtl_Sd.thy ===== *)
theory Rtl_Sd
  imports Rtl_Acl
begin

text \<open>
  Security descriptors, \<open>lib/rtl/sd.c\<close>, on the byte memory. Both forms of the structure
  have \<open>Revision\<close> at offset 0, \<open>Sbz1\<close> at 1, \<open>Control\<close> at 2, and \<open>Owner\<close>, \<open>Group\<close>, \<open>Sacl\<close> and
  \<open>Dacl\<close> at 4, 8, 12 and 16: addresses in the absolute form, offsets from the start of the
  descriptor in the self-relative one. The pointer width is that of the i386 build, in
  which the two structures have the same size. \<open>NULL\<close> is the address 0.
\<close>

section \<open>Fields\<close>

abbreviation (input) SECURITY_DESCRIPTOR_REVISION1 :: UCHAR where "SECURITY_DESCRIPTOR_REVISION1 \<equiv> 1"

abbreviation (input) SE_OWNER_DEFAULTED :: USHORT where "SE_OWNER_DEFAULTED \<equiv> 0x0001"
abbreviation (input) SE_GROUP_DEFAULTED :: USHORT where "SE_GROUP_DEFAULTED \<equiv> 0x0002"
abbreviation (input) SE_DACL_PRESENT :: USHORT where "SE_DACL_PRESENT \<equiv> 0x0004"
abbreviation (input) SE_DACL_DEFAULTED :: USHORT where "SE_DACL_DEFAULTED \<equiv> 0x0008"
abbreviation (input) SE_SACL_PRESENT :: USHORT where "SE_SACL_PRESENT \<equiv> 0x0010"
abbreviation (input) SE_SACL_DEFAULTED :: USHORT where "SE_SACL_DEFAULTED \<equiv> 0x0020"
abbreviation (input) SE_RM_CONTROL_VALID :: USHORT where "SE_RM_CONTROL_VALID \<equiv> 0x4000"
abbreviation (input) SE_SELF_RELATIVE :: USHORT where "SE_SELF_RELATIVE \<equiv> 0x8000"

abbreviation (input) OWNER_SECURITY_INFORMATION :: ULONG where "OWNER_SECURITY_INFORMATION \<equiv> 1"
abbreviation (input) GROUP_SECURITY_INFORMATION :: ULONG where "GROUP_SECURITY_INFORMATION \<equiv> 2"
abbreviation (input) DACL_SECURITY_INFORMATION :: ULONG where "DACL_SECURITY_INFORMATION \<equiv> 4"
abbreviation (input) SACL_SECURITY_INFORMATION :: ULONG where "SACL_SECURITY_INFORMATION \<equiv> 8"

definition sd_Control :: "bytes \<Rightarrow> nat \<Rightarrow> USHORT" where
  "sd_Control m sd = read_USHORT m (sd + 2)"

definition set_Control :: "bytes \<Rightarrow> nat \<Rightarrow> USHORT \<Rightarrow> bytes" where
  "set_Control m sd c = write_USHORT m (sd + 2) c"

definition sd_Owner :: "bytes \<Rightarrow> nat \<Rightarrow> nat" where "sd_Owner m sd = unat (read_ULONG m (sd + 4))"
definition sd_Group :: "bytes \<Rightarrow> nat \<Rightarrow> nat" where "sd_Group m sd = unat (read_ULONG m (sd + 8))"
definition sd_Sacl :: "bytes \<Rightarrow> nat \<Rightarrow> nat" where "sd_Sacl m sd = unat (read_ULONG m (sd + 12))"
definition sd_Dacl :: "bytes \<Rightarrow> nat \<Rightarrow> nat" where "sd_Dacl m sd = unat (read_ULONG m (sd + 16))"

definition set_Owner :: "bytes \<Rightarrow> nat \<Rightarrow> nat \<Rightarrow> bytes" where "set_Owner m sd p = write_ULONG m (sd + 4) (of_nat p)"
definition set_Group :: "bytes \<Rightarrow> nat \<Rightarrow> nat \<Rightarrow> bytes" where "set_Group m sd p = write_ULONG m (sd + 8) (of_nat p)"
definition set_Sacl :: "bytes \<Rightarrow> nat \<Rightarrow> nat \<Rightarrow> bytes" where "set_Sacl m sd p = write_ULONG m (sd + 12) (of_nat p)"
definition set_Dacl :: "bytes \<Rightarrow> nat \<Rightarrow> nat \<Rightarrow> bytes" where "set_Dacl m sd p = write_ULONG m (sd + 16) (of_nat p)"

section \<open>Querying the pointers\<close>

text \<open>
  The four pointers of \<open>RtlpQuerySecurityDescriptorPointers\<close>, in the order owner,
  group, SACL, DACL. A caller that passes \<open>NULL\<close> for an out parameter ignores it.
\<close>

definition RtlpQuerySecurityDescriptorPointers :: "bytes \<Rightarrow> nat \<Rightarrow> nat \<times> nat \<times> nat \<times> nat" where
  "RtlpQuerySecurityDescriptorPointers m sd =
     (if sd_Control m sd AND SE_SELF_RELATIVE \<noteq> 0 then
        (if sd_Owner m sd \<noteq> 0 then ptr_add sd (sd_Owner m sd) else 0,
         if sd_Group m sd \<noteq> 0 then ptr_add sd (sd_Group m sd) else 0,
         if sd_Control m sd AND SE_SACL_PRESENT \<noteq> 0 \<and> sd_Sacl m sd \<noteq> 0 then ptr_add sd (sd_Sacl m sd) else 0,
         if sd_Control m sd AND SE_DACL_PRESENT \<noteq> 0 \<and> sd_Dacl m sd \<noteq> 0 then ptr_add sd (sd_Dacl m sd) else 0)
      else
        (sd_Owner m sd, sd_Group m sd,
         if sd_Control m sd AND SE_SACL_PRESENT \<noteq> 0 then sd_Sacl m sd else 0,
         if sd_Control m sd AND SE_DACL_PRESENT \<noteq> 0 then sd_Dacl m sd else 0))"

text \<open>The pointers with their lengths, in the same order.\<close>

definition RtlpQuerySecurityDescriptor :: "bytes \<Rightarrow> nat \<Rightarrow>
    (nat \<times> ULONG) \<times> (nat \<times> ULONG) \<times> (nat \<times> ULONG) \<times> (nat \<times> ULONG)" where
  "RtlpQuerySecurityDescriptor m sd =
     (case RtlpQuerySecurityDescriptorPointers m sd of (Owner, Group, Sacl, Dacl) \<Rightarrow>
        ((Owner, if Owner \<noteq> 0 then ROUND_UP4 (RtlLengthSid m Owner) else 0),
         (Group, if Group \<noteq> 0 then ROUND_UP4 (RtlLengthSid m Group) else 0),
         (Sacl, if Sacl \<noteq> 0 then ROUND_UP4 (ucast (AclSize m Sacl)) else 0),
         (Dacl, if Dacl \<noteq> 0 then ROUND_UP4 (ucast (AclSize m Dacl)) else 0)))"

section \<open>Creating, measuring, validating\<close>

definition RtlCreateSecurityDescriptor :: "bytes \<Rightarrow> nat \<Rightarrow> ULONG \<Rightarrow> NTSTATUS \<times> bytes" where
  "RtlCreateSecurityDescriptor m pSD Revision =
     (if Revision \<noteq> ucast SECURITY_DESCRIPTOR_REVISION1 then (STATUS_UNKNOWN_REVISION, m)
      else
        let m = m(pSD := ucast Revision);
            m = m(pSD + 1 := 0);
            m = set_Control m pSD 0;
            m = set_Owner m pSD 0;
            m = set_Group m pSD 0;
            m = set_Sacl m pSD 0
        in (STATUS_SUCCESS, set_Dacl m pSD 0))"

definition RtlCreateSecurityDescriptorRelative :: "bytes \<Rightarrow> nat \<Rightarrow> ULONG \<Rightarrow> NTSTATUS \<times> bytes" where
  "RtlCreateSecurityDescriptorRelative m sd Revision =
     (if Revision \<noteq> ucast SECURITY_DESCRIPTOR_REVISION1 then (STATUS_UNKNOWN_REVISION, m)
      else
        let m = m(sd := ucast Revision);
            m = m(sd + 1 := 0);
            m = set_Control m sd SE_SELF_RELATIVE;
            m = set_Owner m sd 0;
            m = set_Group m sd 0;
            m = set_Sacl m sd 0
        in (STATUS_SUCCESS, set_Dacl m sd 0))"

definition RtlLengthSecurityDescriptor :: "bytes \<Rightarrow> nat \<Rightarrow> ULONG" where
  "RtlLengthSecurityDescriptor m sd =
     (case RtlpQuerySecurityDescriptorPointers m sd of (Owner, Group, Sacl, Dacl) \<Rightarrow>
        let Length = 20;
            Length = (if Owner \<noteq> 0 then Length + ROUND_UP4 (RtlLengthSid m Owner) else Length);
            Length = (if Group \<noteq> 0 then Length + ROUND_UP4 (RtlLengthSid m Group) else Length);
            Length = (if Dacl \<noteq> 0 then Length + ROUND_UP4 (ucast (AclSize m Dacl)) else Length)
        in if Sacl \<noteq> 0 then Length + ROUND_UP4 (ucast (AclSize m Sacl)) else Length)"

definition RtlValidSecurityDescriptor :: "bytes \<Rightarrow> nat \<Rightarrow> bool" where
  "RtlValidSecurityDescriptor m pSD =
     (if m pSD \<noteq> SECURITY_DESCRIPTOR_REVISION1 then False
      else case RtlpQuerySecurityDescriptorPointers m pSD of (Owner, Group, Sacl, Dacl) \<Rightarrow>
        if Owner \<noteq> 0 \<and> \<not> RtlValidSid m Owner \<or> Group \<noteq> 0 \<and> \<not> RtlValidSid m Group \<or>
           Sacl \<noteq> 0 \<and> \<not> RtlValidAcl m Sacl \<or> Dacl \<noteq> 0 \<and> \<not> RtlValidAcl m Dacl then False
        else True)"

definition RtlValidRelativeSecurityDescriptor :: "bytes \<Rightarrow> nat \<Rightarrow> ULONG \<Rightarrow> ULONG \<Rightarrow> bool" where
  "RtlValidRelativeSecurityDescriptor m pSD SecurityDescriptorLength RequiredInformation =
     (if SecurityDescriptorLength < 20 \<or> m pSD \<noteq> SECURITY_DESCRIPTOR_REVISION1 \<or>
         sd_Control m pSD AND SE_SELF_RELATIVE = 0 then False
      else if (if sd_Owner m pSD \<noteq> 0 then \<not> RtlValidSid m (ptr_add (sd_Owner m pSD) pSD)
               else RequiredInformation AND OWNER_SECURITY_INFORMATION \<noteq> 0) then False
      else if (if sd_Group m pSD \<noteq> 0 then \<not> RtlValidSid m (ptr_add (sd_Group m pSD) pSD)
               else RequiredInformation AND GROUP_SECURITY_INFORMATION \<noteq> 0) then False
      else if (if sd_Control m pSD AND SE_DACL_PRESENT \<noteq> 0
               then sd_Dacl m pSD \<noteq> 0 \<and> \<not> RtlValidAcl m (ptr_add (sd_Dacl m pSD) pSD)
               else RequiredInformation AND DACL_SECURITY_INFORMATION \<noteq> 0) then False
      else if (if sd_Control m pSD AND SE_SACL_PRESENT \<noteq> 0
               then sd_Sacl m pSD \<noteq> 0 \<and> \<not> RtlValidAcl m (ptr_add (sd_Sacl m pSD) pSD)
               else RequiredInformation AND SACL_SECURITY_INFORMATION \<noteq> 0) then False
      else True)"

section \<open>Getting and setting the parts\<close>

text \<open>
  A getter yields its status and the out parameters it wrote. The getters of an ACL
  write only \<open>Present\<close> when the ACL is absent.
\<close>

definition RtlGetDaclSecurityDescriptor :: "bytes \<Rightarrow> nat \<Rightarrow> NTSTATUS \<times> bool option \<times> (nat \<times> bool) option" where
  "RtlGetDaclSecurityDescriptor m pSD =
     (if m pSD \<noteq> SECURITY_DESCRIPTOR_REVISION1 then (STATUS_UNKNOWN_REVISION, None, None)
      else if sd_Control m pSD AND SE_DACL_PRESENT = 0 then (STATUS_SUCCESS, Some False, None)
      else case RtlpQuerySecurityDescriptorPointers m pSD of (_, _, _, Dacl) \<Rightarrow>
        (STATUS_SUCCESS, Some True, Some (Dacl, sd_Control m pSD AND SE_DACL_DEFAULTED \<noteq> 0)))"

definition RtlGetSaclSecurityDescriptor :: "bytes \<Rightarrow> nat \<Rightarrow> NTSTATUS \<times> bool option \<times> (nat \<times> bool) option" where
  "RtlGetSaclSecurityDescriptor m pSD =
     (if m pSD \<noteq> SECURITY_DESCRIPTOR_REVISION1 then (STATUS_UNKNOWN_REVISION, None, None)
      else if sd_Control m pSD AND SE_SACL_PRESENT = 0 then (STATUS_SUCCESS, Some False, None)
      else case RtlpQuerySecurityDescriptorPointers m pSD of (_, _, Sacl, _) \<Rightarrow>
        (STATUS_SUCCESS, Some True, Some (Sacl, sd_Control m pSD AND SE_SACL_DEFAULTED \<noteq> 0)))"

definition RtlGetOwnerSecurityDescriptor :: "bytes \<Rightarrow> nat \<Rightarrow> NTSTATUS \<times> (nat \<times> bool) option" where
  "RtlGetOwnerSecurityDescriptor m pSD =
     (if m pSD \<noteq> SECURITY_DESCRIPTOR_REVISION1 then (STATUS_UNKNOWN_REVISION, None)
      else case RtlpQuerySecurityDescriptorPointers m pSD of (Owner, _, _, _) \<Rightarrow>
        (STATUS_SUCCESS, Some (Owner, sd_Control m pSD AND SE_OWNER_DEFAULTED \<noteq> 0)))"

definition RtlGetGroupSecurityDescriptor :: "bytes \<Rightarrow> nat \<Rightarrow> NTSTATUS \<times> (nat \<times> bool) option" where
  "RtlGetGroupSecurityDescriptor m pSD =
     (if m pSD \<noteq> SECURITY_DESCRIPTOR_REVISION1 then (STATUS_UNKNOWN_REVISION, None)
      else case RtlpQuerySecurityDescriptorPointers m pSD of (_, Group, _, _) \<Rightarrow>
        (STATUS_SUCCESS, Some (Group, sd_Control m pSD AND SE_GROUP_DEFAULTED \<noteq> 0)))"

definition RtlSetDaclSecurityDescriptor :: "bytes \<Rightarrow> nat \<Rightarrow> bool \<Rightarrow> nat \<Rightarrow> bool \<Rightarrow> NTSTATUS \<times> bytes" where
  "RtlSetDaclSecurityDescriptor m pSD DaclPresent Dacl DaclDefaulted =
     (if m pSD \<noteq> SECURITY_DESCRIPTOR_REVISION1 then (STATUS_UNKNOWN_REVISION, m)
      else if sd_Control m pSD AND SE_SELF_RELATIVE \<noteq> 0 then (STATUS_BAD_DESCRIPTOR_FORMAT, m)
      else if \<not> DaclPresent then (STATUS_SUCCESS, set_Control m pSD (sd_Control m pSD AND NOT SE_DACL_PRESENT))
      else
        let m = set_Dacl m pSD Dacl;
            m = set_Control m pSD (sd_Control m pSD OR SE_DACL_PRESENT);
            m = set_Control m pSD (sd_Control m pSD AND NOT SE_DACL_DEFAULTED)
        in (STATUS_SUCCESS,
            if DaclDefaulted then set_Control m pSD (sd_Control m pSD OR SE_DACL_DEFAULTED) else m))"

definition RtlSetSaclSecurityDescriptor :: "bytes \<Rightarrow> nat \<Rightarrow> bool \<Rightarrow> nat \<Rightarrow> bool \<Rightarrow> NTSTATUS \<times> bytes" where
  "RtlSetSaclSecurityDescriptor m pSD SaclPresent Sacl SaclDefaulted =
     (if m pSD \<noteq> SECURITY_DESCRIPTOR_REVISION1 then (STATUS_UNKNOWN_REVISION, m)
      else if sd_Control m pSD AND SE_SELF_RELATIVE \<noteq> 0 then (STATUS_BAD_DESCRIPTOR_FORMAT, m)
      else if \<not> SaclPresent then (STATUS_SUCCESS, set_Control m pSD (sd_Control m pSD AND NOT SE_SACL_PRESENT))
      else
        let m = set_Sacl m pSD Sacl;
            m = set_Control m pSD (sd_Control m pSD OR SE_SACL_PRESENT);
            m = set_Control m pSD (sd_Control m pSD AND NOT SE_SACL_DEFAULTED)
        in (STATUS_SUCCESS,
            if SaclDefaulted then set_Control m pSD (sd_Control m pSD OR SE_SACL_DEFAULTED) else m))"

definition RtlSetOwnerSecurityDescriptor :: "bytes \<Rightarrow> nat \<Rightarrow> nat \<Rightarrow> bool \<Rightarrow> NTSTATUS \<times> bytes" where
  "RtlSetOwnerSecurityDescriptor m pSD Owner OwnerDefaulted =
     (if m pSD \<noteq> SECURITY_DESCRIPTOR_REVISION1 then (STATUS_UNKNOWN_REVISION, m)
      else if sd_Control m pSD AND SE_SELF_RELATIVE \<noteq> 0 then (STATUS_BAD_DESCRIPTOR_FORMAT, m)
      else
        let m = set_Owner m pSD Owner;
            m = set_Control m pSD (sd_Control m pSD AND NOT SE_OWNER_DEFAULTED)
        in (STATUS_SUCCESS,
            if OwnerDefaulted then set_Control m pSD (sd_Control m pSD OR SE_OWNER_DEFAULTED) else m))"

definition RtlSetGroupSecurityDescriptor :: "bytes \<Rightarrow> nat \<Rightarrow> nat \<Rightarrow> bool \<Rightarrow> NTSTATUS \<times> bytes" where
  "RtlSetGroupSecurityDescriptor m pSD Group GroupDefaulted =
     (if m pSD \<noteq> SECURITY_DESCRIPTOR_REVISION1 then (STATUS_UNKNOWN_REVISION, m)
      else if sd_Control m pSD AND SE_SELF_RELATIVE \<noteq> 0 then (STATUS_BAD_DESCRIPTOR_FORMAT, m)
      else
        let m = set_Group m pSD Group;
            m = set_Control m pSD (sd_Control m pSD AND NOT SE_GROUP_DEFAULTED)
        in (STATUS_SUCCESS,
            if GroupDefaulted then set_Control m pSD (sd_Control m pSD OR SE_GROUP_DEFAULTED) else m))"

text \<open>The second component is \<open>*Control\<close>, if written, and the third \<open>*Revision\<close>.\<close>

definition RtlGetControlSecurityDescriptor :: "bytes \<Rightarrow> nat \<Rightarrow> NTSTATUS \<times> USHORT option \<times> ULONG" where
  "RtlGetControlSecurityDescriptor m pSD =
     (if m pSD \<noteq> SECURITY_DESCRIPTOR_REVISION1 then (STATUS_UNKNOWN_REVISION, None, ucast (m pSD))
      else (STATUS_SUCCESS, Some (sd_Control m pSD), ucast (m pSD)))"

definition control_immutable :: USHORT where
  "control_immutable = SE_OWNER_DEFAULTED OR SE_GROUP_DEFAULTED OR SE_DACL_PRESENT OR SE_DACL_DEFAULTED OR
     SE_SACL_PRESENT OR SE_SACL_DEFAULTED OR SE_RM_CONTROL_VALID OR SE_SELF_RELATIVE"

definition RtlSetControlSecurityDescriptor :: "bytes \<Rightarrow> nat \<Rightarrow> USHORT \<Rightarrow> USHORT \<Rightarrow> NTSTATUS \<times> bytes" where
  "RtlSetControlSecurityDescriptor m pSD ControlBitsOfInterest ControlBitsToSet =
     (if m pSD \<noteq> SECURITY_DESCRIPTOR_REVISION1 then (STATUS_UNKNOWN_REVISION, m)
      else if (ControlBitsOfInterest OR ControlBitsToSet) AND control_immutable \<noteq> 0 then
        (STATUS_INVALID_PARAMETER, m)
      else
        let m = set_Control m pSD (sd_Control m pSD AND NOT ControlBitsOfInterest)
        in (STATUS_SUCCESS, set_Control m pSD (sd_Control m pSD OR (ControlBitsToSet AND ControlBitsOfInterest))))"

definition RtlGetSecurityDescriptorRMControl :: "bytes \<Rightarrow> nat \<Rightarrow> bool \<times> UCHAR" where
  "RtlGetSecurityDescriptorRMControl m pSD =
     (if sd_Control m pSD AND SE_RM_CONTROL_VALID = 0 then (False, 0) else (True, m (pSD + 1)))"

text \<open>\<open>RMControl\<close> is \<open>None\<close> for a \<open>NULL\<close> pointer and the byte it points to otherwise.\<close>

definition RtlSetSecurityDescriptorRMControl :: "bytes \<Rightarrow> nat \<Rightarrow> UCHAR option \<Rightarrow> bytes" where
  "RtlSetSecurityDescriptorRMControl m pSD RMControl =
     (case RMControl of
        None \<Rightarrow> (set_Control m pSD (sd_Control m pSD AND NOT SE_RM_CONTROL_VALID))(pSD + 1 := 0)
      | Some b \<Rightarrow> (set_Control m pSD (sd_Control m pSD OR SE_RM_CONTROL_VALID))(pSD + 1 := b))"

definition RtlSetAttributesSecurityDescriptor :: "bytes \<Rightarrow> nat \<Rightarrow> USHORT \<Rightarrow> (NTSTATUS \<times> bytes) \<times> ULONG" where
  "RtlSetAttributesSecurityDescriptor m pSD Control =
     (if m pSD \<noteq> SECURITY_DESCRIPTOR_REVISION1 then ((STATUS_UNKNOWN_REVISION, m), ucast (m pSD))
      else
        let Control = Control AND NOT (SE_OWNER_DEFAULTED OR SE_GROUP_DEFAULTED OR SE_DACL_PRESENT OR
              SE_DACL_DEFAULTED OR SE_SACL_PRESENT OR SE_SACL_DEFAULTED OR SE_RM_CONTROL_VALID OR SE_SELF_RELATIVE)
        in (RtlSetControlSecurityDescriptor m pSD Control Control, ucast (m pSD)))"

section \<open>The two forms\<close>

text \<open>
  One of the four copies of \<open>RtlMakeSelfRelativeSD\<close>: the part of length \<open>Length\<close> goes
  to \<open>Current\<close> and its offset to the field at offset \<open>field\<close>.
\<close>

definition copy_part :: "nat \<Rightarrow> nat \<Rightarrow> nat \<times> ULONG \<Rightarrow> bytes \<times> nat \<Rightarrow> bytes \<times> nat" where
  "copy_part pRelSD field = (\<lambda>(Part, Length) (m, Current).
     if Length \<noteq> 0 then
       (write_ULONG (memcpy m Current Part (unat Length)) (pRelSD + field) (of_nat Current - of_nat pRelSD),
        ptr_add Current (unat Length))
     else (m, Current))"

text \<open>The last component is the value of \<open>*BufferLength\<close> on return.\<close>

definition RtlMakeSelfRelativeSD :: "bytes \<Rightarrow> nat \<Rightarrow> nat \<Rightarrow> ULONG \<Rightarrow> NTSTATUS \<times> bytes \<times> ULONG" where
  "RtlMakeSelfRelativeSD m pAbsSD pRelSD BufferLength =
     (case RtlpQuerySecurityDescriptor m pAbsSD of (Owner, Group, Sacl, Dacl) \<Rightarrow>
        let TotalLength = 20 + snd Owner + snd Group + snd Sacl + snd Dacl
        in if BufferLength < TotalLength then (STATUS_BUFFER_TOO_SMALL, m, TotalLength)
           else
             let m = memset m pRelSD 0 (unat TotalLength);
                 m = m(pRelSD := m pAbsSD);
                 m = m(pRelSD + 1 := m (pAbsSD + 1));
                 m = set_Control m pRelSD (sd_Control m pAbsSD OR SE_SELF_RELATIVE);
                 (m, _) = copy_part pRelSD 8 Group (copy_part pRelSD 4 Owner (copy_part pRelSD 16 Dacl
                            (copy_part pRelSD 12 Sacl (m, pRelSD + 20))))
             in (STATUS_SUCCESS, m, BufferLength))"

definition RtlAbsoluteToSelfRelativeSD :: "bytes \<Rightarrow> nat \<Rightarrow> nat \<Rightarrow> ULONG \<Rightarrow> NTSTATUS \<times> bytes \<times> ULONG" where
  "RtlAbsoluteToSelfRelativeSD m pAbsSD pRelSD BufferLength =
     (if sd_Control m pAbsSD AND SE_SELF_RELATIVE \<noteq> 0 then (STATUS_BAD_DESCRIPTOR_FORMAT, m, BufferLength)
      else RtlMakeSelfRelativeSD m pAbsSD pRelSD BufferLength)"

text \<open>
  The sizes are \<open>*OwnerSize\<close>, \<open>*PrimaryGroupSize\<close>, \<open>*SaclSize\<close> and \<open>*DaclSize\<close>, before and
  after the call. \<open>AbsoluteSDSize\<close> is never read.
\<close>

definition RtlSelfRelativeToAbsoluteSD :: "bytes \<Rightarrow> nat \<Rightarrow> nat \<Rightarrow> nat \<Rightarrow> nat \<Rightarrow> nat \<Rightarrow> nat \<Rightarrow>
    ULONG \<times> ULONG \<times> ULONG \<times> ULONG \<Rightarrow> NTSTATUS \<times> bytes \<times> (ULONG \<times> ULONG \<times> ULONG \<times> ULONG)" where
  "RtlSelfRelativeToAbsoluteSD m pRelSD pAbsSD Dacl Sacl Owner PrimaryGroup sizes =
     (if m pRelSD \<noteq> SECURITY_DESCRIPTOR_REVISION1 then (STATUS_UNKNOWN_REVISION, m, sizes)
      else if sd_Control m pRelSD AND SE_SELF_RELATIVE = 0 then (STATUS_BAD_DESCRIPTOR_FORMAT, m, sizes)
      else case (RtlpQuerySecurityDescriptor m pRelSD, sizes) of
        (((pOwner, OwnerLength), (pGroup, GroupLength), (pSacl, SaclLength), (pDacl, DaclLength)),
         (OwnerSize, PrimaryGroupSize, SaclSize, DaclSize)) \<Rightarrow>
          if OwnerLength > OwnerSize \<or> GroupLength > PrimaryGroupSize \<or> DaclLength > DaclSize \<or> SaclLength > SaclSize
          then (STATUS_BUFFER_TOO_SMALL, m, (OwnerLength, GroupLength, SaclLength, DaclLength))
          else
            let m = memcpy m Owner pOwner (unat OwnerLength);
                m = memcpy m PrimaryGroup pGroup (unat GroupLength);
                m = memcpy m Dacl pDacl (unat DaclLength);
                m = memcpy m Sacl pSacl (unat SaclLength);
                m = m(pAbsSD := m pRelSD);
                m = m(pAbsSD + 1 := m (pRelSD + 1));
                m = set_Control m pAbsSD (sd_Control m pRelSD AND NOT SE_SELF_RELATIVE);
                m = set_Owner m pAbsSD Owner;
                m = set_Group m pAbsSD PrimaryGroup;
                m = set_Dacl m pAbsSD Dacl;
                m = set_Sacl m pAbsSD Sacl
            in (STATUS_SUCCESS, m, (OwnerLength, GroupLength, SaclLength, DaclLength)))"

text \<open>The branch of a 32-bit build; \<open>size_null\<close> tells whether \<open>BufferSize\<close> is \<open>NULL\<close>.\<close>

definition offsets_to_pointers :: "bytes \<Rightarrow> nat \<Rightarrow> bytes" where
  "offsets_to_pointers m sd =
     (case RtlpQuerySecurityDescriptorPointers m sd of (pOwner, pGroup, pSacl, pDacl) \<Rightarrow>
        let m = set_Control m sd (sd_Control m sd AND NOT SE_SELF_RELATIVE);
            m = set_Owner m sd pOwner;
            m = set_Group m sd pGroup;
            m = set_Sacl m sd pSacl
        in set_Dacl m sd pDacl)"

definition RtlSelfRelativeToAbsoluteSD2 :: "bytes \<Rightarrow> nat \<Rightarrow> bool \<Rightarrow> NTSTATUS \<times> bytes" where
  "RtlSelfRelativeToAbsoluteSD2 m sd size_null =
     (if sd = 0 then (STATUS_INVALID_PARAMETER_1, m)
      else if size_null then (STATUS_INVALID_PARAMETER_2, m)
      else if m sd \<noteq> SECURITY_DESCRIPTOR_REVISION1 then (STATUS_UNKNOWN_REVISION, m)
      else if sd_Control m sd AND SE_SELF_RELATIVE = 0 then (STATUS_BAD_DESCRIPTOR_FORMAT, m)
      else (STATUS_SUCCESS, offsets_to_pointers m sd))"

text \<open>
  \<open>DaclMem\<close> and \<open>SaclMem\<close> are what \<open>RtlAllocateHeap\<close> returns for the two ACLs. The result is
  \<open>None\<close> where the routine measures the SID of an owner or group that is \<open>NULL\<close>, or the
  size of an ACL that is \<open>NULL\<close> though present, and faults.
\<close>

definition copy_relative_acl :: "bytes \<Rightarrow> nat \<Rightarrow> nat \<Rightarrow> nat \<Rightarrow> bytes" where
  "copy_relative_acl m destSD offset Acl =
     (if offset \<noteq> 0 \<and> RtlValidAcl m offset then memcpy m (destSD + offset) Acl (unat (AclSize m Acl)) else m)"

definition copy_absolute_acl :: "bytes \<Rightarrow> nat \<Rightarrow> (bytes \<Rightarrow> nat \<Rightarrow> bytes) \<Rightarrow> (bytes \<Rightarrow> nat) \<Rightarrow> nat \<Rightarrow> nat \<Rightarrow>
    bytes option" where
  "copy_absolute_acl m Mem set_field dest_field src_field Acl =
     (if Acl = 0 then None
      else
        let m = set_field m Mem
        in Some (if src_field \<noteq> 0 \<and> RtlValidAcl m src_field
                 then memcpy m (dest_field m) Acl (unat (AclSize m Acl)) else m))"

definition RtlCopySecurityDescriptor :: "bytes \<Rightarrow> nat \<Rightarrow> nat \<Rightarrow> nat \<Rightarrow> nat \<Rightarrow> (NTSTATUS \<times> bytes) option" where
  "RtlCopySecurityDescriptor m DaclMem SaclMem srcSD destSD =
     (if m srcSD \<noteq> SECURITY_DESCRIPTOR_REVISION1 then Some (STATUS_UNKNOWN_REVISION, m)
      else
        let m = m(destSD := m srcSD);
            m = m(destSD + 1 := m (srcSD + 1));
            m = set_Control m destSD (sd_Control m srcSD);
            (Owner, Group, Sacl, Dacl) = RtlpQuerySecurityDescriptorPointers m srcSD
        in if Owner = 0 \<or> Group = 0 then None
           else
             let OwnerLength = RtlLengthSid m Owner;
                 GroupLength = RtlLengthSid m Group
             in if sd_Control m srcSD AND SE_SELF_RELATIVE \<noteq> 0 then
                  let m = set_Owner m destSD (sd_Owner m srcSD);
                      m = snd (RtlCopySid m OwnerLength (destSD + sd_Owner m destSD) Owner);
                      m = set_Group m destSD (sd_Group m srcSD);
                      m = snd (RtlCopySid m GroupLength (destSD + sd_Group m destSD) Group);
                      m = (if sd_Control m srcSD AND SE_DACL_PRESENT \<noteq> 0 then
                             let m = set_Dacl m destSD (sd_Dacl m srcSD)
                             in copy_relative_acl m destSD (sd_Dacl m srcSD) Dacl
                           else m);
                      m = (if sd_Control m srcSD AND SE_SACL_PRESENT \<noteq> 0 then
                             let m = set_Sacl m destSD (sd_Sacl m srcSD)
                             in copy_relative_acl m destSD (sd_Sacl m srcSD) Sacl
                           else m)
                  in Some (STATUS_SUCCESS, m)
                else
                  let m = snd (RtlCopySid m OwnerLength (sd_Owner m destSD) Owner);
                      m = snd (RtlCopySid m GroupLength (sd_Group m destSD) Group)
                  in case (if sd_Control m srcSD AND SE_DACL_PRESENT \<noteq> 0
                           then copy_absolute_acl m DaclMem (\<lambda>m. set_Dacl m destSD) (\<lambda>m. sd_Dacl m destSD)
                                  (sd_Dacl m srcSD) Dacl else Some m) of
                       None \<Rightarrow> None
                     | Some m \<Rightarrow>
                         (case (if sd_Control m srcSD AND SE_SACL_PRESENT \<noteq> 0
                                then copy_absolute_acl m SaclMem (\<lambda>m. set_Sacl m destSD) (\<lambda>m. sd_Sacl m destSD)
                                       (sd_Sacl m srcSD) Sacl else Some m) of
                            None \<Rightarrow> None
                          | Some m \<Rightarrow> Some (STATUS_SUCCESS, m)))"

section \<open>Reading back a field\<close>

lemma read_ULONG_write_ULONG_other: "p + 4 \<le> q \<or> q + 4 \<le> p \<Longrightarrow> read_ULONG (write_ULONG m p v) q = read_ULONG m q"
  by (rule read_ULONG_cong, rule write_ULONG_other) auto

lemma read_ULONG_write_USHORT_other: "p + 2 \<le> q \<or> q + 4 \<le> p \<Longrightarrow> read_ULONG (write_USHORT m p v) q = read_ULONG m q"
  by (rule read_ULONG_cong, rule write_USHORT_other) auto

lemma read_USHORT_write_ULONG_other: "p + 4 \<le> q \<or> q + 2 \<le> p \<Longrightarrow> read_USHORT (write_ULONG m p v) q = read_USHORT m q"
  by (rule read_USHORT_cong) (rule write_ULONG_other, auto)+

lemma sd_control_simps [simp]:
  "sd_Control (set_Control m sd c) sd = c" "sd_Control (set_Owner m sd p) sd = sd_Control m sd"
  "sd_Control (set_Group m sd p) sd = sd_Control m sd" "sd_Control (set_Sacl m sd p) sd = sd_Control m sd"
  "sd_Control (set_Dacl m sd p) sd = sd_Control m sd"
  by (simp_all add: sd_Control_def set_Control_def set_Owner_def set_Group_def set_Sacl_def set_Dacl_def
      read_USHORT_write_ULONG_other del: add_2_eq_Suc')

lemma sd_pointer_simps [simp]:
  "sd_Owner (set_Control m sd c) sd = sd_Owner m sd" "sd_Group (set_Control m sd c) sd = sd_Group m sd"
  "sd_Sacl (set_Control m sd c) sd = sd_Sacl m sd" "sd_Dacl (set_Control m sd c) sd = sd_Dacl m sd"
  "sd_Group (set_Owner m sd p) sd = sd_Group m sd" "sd_Sacl (set_Owner m sd p) sd = sd_Sacl m sd"
  "sd_Dacl (set_Owner m sd p) sd = sd_Dacl m sd" "sd_Owner (set_Group m sd p) sd = sd_Owner m sd"
  "sd_Sacl (set_Group m sd p) sd = sd_Sacl m sd" "sd_Dacl (set_Group m sd p) sd = sd_Dacl m sd"
  "sd_Owner (set_Sacl m sd p) sd = sd_Owner m sd" "sd_Group (set_Sacl m sd p) sd = sd_Group m sd"
  "sd_Dacl (set_Sacl m sd p) sd = sd_Dacl m sd" "sd_Owner (set_Dacl m sd p) sd = sd_Owner m sd"
  "sd_Group (set_Dacl m sd p) sd = sd_Group m sd" "sd_Sacl (set_Dacl m sd p) sd = sd_Sacl m sd"
  by (simp_all add: sd_Owner_def sd_Group_def sd_Sacl_def sd_Dacl_def set_Control_def set_Owner_def set_Group_def
      set_Sacl_def set_Dacl_def read_ULONG_write_ULONG_other read_ULONG_write_USHORT_other del: add_2_eq_Suc')

lemma sd_same_simps [simp]:
  assumes "p < 4294967296"
  shows "sd_Owner (set_Owner m sd p) sd = p" "sd_Group (set_Group m sd p) sd = p"
    "sd_Sacl (set_Sacl m sd p) sd = p" "sd_Dacl (set_Dacl m sd p) sd = p"
  using assms by (simp_all add: sd_Owner_def sd_Group_def sd_Sacl_def sd_Dacl_def set_Owner_def set_Group_def
      set_Sacl_def set_Dacl_def unat_of_nat take_bit_nat_eq_self)

lemma set_field_other:
  assumes "q < sd + 2 \<or> sd + 20 \<le> q"
  shows "set_Control m sd c q = m q" "set_Owner m sd p q = m q" "set_Group m sd p q = m q"
    "set_Sacl m sd p q = m q" "set_Dacl m sd p q = m q"
  using assms by (auto simp: set_Control_def set_Owner_def set_Group_def set_Sacl_def set_Dacl_def
      write_USHORT_def write_ULONG_def)

lemma sd_pointers_less: "sd_Owner m sd < 4294967296" "sd_Group m sd < 4294967296" "sd_Sacl m sd < 4294967296"
  "sd_Dacl m sd < 4294967296"
  by (simp_all add: sd_Owner_def sd_Group_def sd_Sacl_def sd_Dacl_def)

section \<open>Well-formed descriptors\<close>

text \<open>
  A SID or an ACL that a descriptor at \<open>sd\<close> points to: \<open>NULL\<close>, or a valid object outside
  the header of the descriptor.
\<close>

definition sid_part :: "bytes \<Rightarrow> nat \<Rightarrow> nat \<Rightarrow> bool" where
  "sid_part m sd p \<longleftrightarrow> p < 4294967296 \<and>
     (p \<noteq> 0 \<longrightarrow> RtlValidSid m p \<and> outside p (unat (RtlLengthSid m p)) sd (sd + 20))"

definition acl_part :: "bytes \<Rightarrow> nat \<Rightarrow> nat \<Rightarrow> bool" where
  "acl_part m sd p \<longleftrightarrow> p < 4294967296 \<and>
     (p \<noteq> 0 \<longrightarrow> (\<exists>xs. acl_holds m p xs) \<and> outside p (unat (AclSize m p)) sd (sd + 20))"

definition sd_ok :: "bytes \<Rightarrow> nat \<Rightarrow> bool" where
  "sd_ok m sd \<longleftrightarrow> m sd = SECURITY_DESCRIPTOR_REVISION1 \<and>
     (case RtlpQuerySecurityDescriptorPointers m sd of (Owner, Group, Sacl, Dacl) \<Rightarrow>
        sid_part m sd Owner \<and> sid_part m sd Group \<and> acl_part m sd Sacl \<and> acl_part m sd Dacl)"

lemma sd_ok_valid: "sd_ok m sd \<Longrightarrow> RtlValidSecurityDescriptor m sd"
  by (auto simp: sd_ok_def RtlValidSecurityDescriptor_def sid_part_def acl_part_def intro: RtlValidAcl_holds)

lemma sid_part_cong:
  assumes "sid_part m sd p" "\<And>q. q < sd \<or> sd + 20 \<le> q \<Longrightarrow> m' q = m q"
  shows "sid_part m' sd p"
proof (cases "p = 0")
  case False
  then have out: "outside p (unat (RtlLengthSid m p)) sd (sd + 20)" and v: "RtlValidSid m p"
    using assms(1) by (auto simp: sid_part_def)
  have same: "m' (p + k) = m (p + k)" if "k < 8" for k
    using out that by (intro assms(2)) (auto simp: outside_def unat_RtlLengthSid)
  from same [of 0] same [of 1] have "RtlLengthSid m' p = RtlLengthSid m p" "RtlValidSid m' p = RtlValidSid m p"
    by (simp_all add: RtlLengthSid_def RtlValidSid_def)
  with assms(1) False show ?thesis by (simp add: sid_part_def)
qed (use assms in \<open>simp add: sid_part_def\<close>)

lemma acl_part_cong:
  assumes "acl_part m sd p" "\<And>q. q < sd \<or> sd + 20 \<le> q \<Longrightarrow> m' q = m q"
  shows "acl_part m' sd p"
proof (cases "p = 0")
  case False
  then obtain xs where xs: "acl_holds m p xs" and out: "outside p (unat (AclSize m p)) sd (sd + 20)"
    using assms(1) by (auto simp: acl_part_def)
  have "m' q = m q" if "p \<le> q" "q < p + unat (AclSize m p)" for q
    using out that by (intro assms(2)) (auto simp: outside_def)
  from acl_holds_cong [OF xs this] show ?thesis using assms(1) out by (auto simp: acl_part_def)
qed (use assms in \<open>simp add: acl_part_def\<close>)

lemma sd_ok_cong:
  assumes "sd_ok m sd" "\<And>q. q < sd + 2 \<or> sd + 20 \<le> q \<Longrightarrow> m' q = m q"
    and "RtlpQuerySecurityDescriptorPointers m' sd = (Owner, Group, Sacl, Dacl)"
    and "sid_part m sd Owner" "sid_part m sd Group" "acl_part m sd Sacl" "acl_part m sd Dacl"
  shows "sd_ok m' sd"
proof -
  have "m' q = m q" if "q < sd \<or> sd + 20 \<le> q" for q using that by (intro assms(2)) auto
  then have "sid_part m' sd Owner" "sid_part m' sd Group" "acl_part m' sd Sacl" "acl_part m' sd Dacl"
    using assms(4-7) by (blast intro: sid_part_cong acl_part_cong)+
  with assms(1,2,3) show ?thesis by (simp add: sd_ok_def)
qed

lemma pointers_absolute:
  "sd_Control m sd AND 0x8000 = 0 \<Longrightarrow> RtlpQuerySecurityDescriptorPointers m sd =
     (sd_Owner m sd, sd_Group m sd, if sd_Control m sd AND 0x10 \<noteq> 0 then sd_Sacl m sd else 0,
      if sd_Control m sd AND 4 \<noteq> 0 then sd_Dacl m sd else 0)"
  by (simp add: RtlpQuerySecurityDescriptorPointers_def)

section \<open>The parts of an absolute descriptor\<close>

text \<open>
  What a setter and its getter promise for one part of an absolute descriptor. The
  lemmas say what a caller sees that sets the part once or twice.
\<close>

locale sd_part =
  fixes set_part :: "bytes \<Rightarrow> nat \<Rightarrow> nat \<Rightarrow> bool \<Rightarrow> NTSTATUS \<times> bytes"
    and get_part :: "bytes \<Rightarrow> nat \<Rightarrow> NTSTATUS \<times> (nat \<times> bool) option"
    and part :: "bytes \<Rightarrow> nat \<Rightarrow> nat \<Rightarrow> bool"
  assumes set_part_ok: "sd_ok m sd \<Longrightarrow> sd_Control m sd AND SE_SELF_RELATIVE = 0 \<Longrightarrow> part m sd p \<Longrightarrow>
      \<exists>m'. set_part m sd p d = (STATUS_SUCCESS, m') \<and> sd_ok m' sd \<and> sd_Control m' sd AND SE_SELF_RELATIVE = 0 \<and>
        get_part m' sd = (STATUS_SUCCESS, Some (p, d)) \<and> (\<forall>q. q < sd \<or> sd + 20 \<le> q \<longrightarrow> m' q = m q)"
    and set_part_relative: "m sd = SECURITY_DESCRIPTOR_REVISION1 \<Longrightarrow> sd_Control m sd AND SE_SELF_RELATIVE \<noteq> 0 \<Longrightarrow>
      set_part m sd p d = (STATUS_BAD_DESCRIPTOR_FORMAT, m)"
    and part_cong: "part m sd p \<Longrightarrow> (\<And>q. q < sd \<or> sd + 20 \<le> q \<Longrightarrow> m' q = m q) \<Longrightarrow> part m' sd p"
begin

lemma set_get:
  assumes "sd_ok m sd" "sd_Control m sd AND SE_SELF_RELATIVE = 0" "part m sd p" "set_part m sd p d = (st, m')"
  shows "st = STATUS_SUCCESS" "get_part m' sd = (STATUS_SUCCESS, Some (p, d))" "RtlValidSecurityDescriptor m' sd"
  using set_part_ok [OF assms(1-3), of d] assms(4) by (auto intro: sd_ok_valid)

lemma set_twice:
  assumes "sd_ok m sd" "sd_Control m sd AND SE_SELF_RELATIVE = 0" "part m sd p" "part m sd q"
    and "set_part m sd p d = (st, m')" "set_part m' sd q e = (st', m'')"
  shows "st' = STATUS_SUCCESS" "get_part m'' sd = (STATUS_SUCCESS, Some (q, e))"
proof -
  have m': "sd_ok m' sd" "sd_Control m' sd AND SE_SELF_RELATIVE = 0" "\<And>r. r < sd \<or> sd + 20 \<le> r \<Longrightarrow> m' r = m r"
    using set_part_ok [OF assms(1-3), of d] assms(5) by auto
  from set_get [OF m'(1,2) part_cong [OF assms(4) m'(3)] assms(6)]
  show "st' = STATUS_SUCCESS" "get_part m'' sd = (STATUS_SUCCESS, Some (q, e))" by simp_all
qed

end

lemmas control_bits = and.assoc bit.conj_disj_distrib2

lemma sd_ok_absolute:
  assumes "sd_ok m sd" "sd_Control m sd AND SE_SELF_RELATIVE = 0"
  shows "m sd = 1" "sid_part m sd (sd_Owner m sd)" "sid_part m sd (sd_Group m sd)"
    "acl_part m sd (if sd_Control m sd AND 0x10 \<noteq> 0 then sd_Sacl m sd else 0)"
    "acl_part m sd (if sd_Control m sd AND 4 \<noteq> 0 then sd_Dacl m sd else 0)"
  using assms by (simp_all add: sd_ok_def pointers_absolute)

lemma sid_part_less: "sid_part m sd p \<Longrightarrow> p < 4294967296"
  by (simp add: sid_part_def)

lemma acl_part_less: "acl_part m sd p \<Longrightarrow> p < 4294967296"
  by (simp add: acl_part_def)

interpretation owner: sd_part RtlSetOwnerSecurityDescriptor RtlGetOwnerSecurityDescriptor sid_part
proof
  fix m sd p d
  assume ok: "sd_ok m sd" and abs: "sd_Control m sd AND 0x8000 = 0" and p: "sid_part m sd p"
  note parts = sd_ok_absolute [OF ok abs]
  define m' where "m' = snd (RtlSetOwnerSecurityDescriptor m sd p d)"
  have eq: "RtlSetOwnerSecurityDescriptor m sd p d = (STATUS_SUCCESS, m')"
    using parts(1) abs by (simp add: RtlSetOwnerSecurityDescriptor_def Let_def m'_def)
  have c: "sd_Control m' sd = (sd_Control m sd AND NOT 1) OR (if d then 1 else 0)"
    using parts(1) abs by (simp add: m'_def RtlSetOwnerSecurityDescriptor_def Let_def)
  have f: "sd_Owner m' sd = p" "sd_Group m' sd = sd_Group m sd" "sd_Sacl m' sd = sd_Sacl m sd" "sd_Dacl m' sd = sd_Dacl m sd"
    using parts(1) abs sid_part_less [OF p] by (simp_all add: m'_def RtlSetOwnerSecurityDescriptor_def Let_def)
  have other: "m' q = m q" if "q < sd + 2 \<or> sd + 20 \<le> q" for q
    using parts(1) abs that by (simp add: m'_def RtlSetOwnerSecurityDescriptor_def Let_def set_field_other)
  have abs': "sd_Control m' sd AND 0x8000 = 0" using abs by (simp add: c control_bits)
  have ptr: "RtlpQuerySecurityDescriptorPointers m' sd = (p, sd_Group m sd,
      if sd_Control m sd AND 0x10 \<noteq> 0 then sd_Sacl m sd else 0, if sd_Control m sd AND 4 \<noteq> 0 then sd_Dacl m sd else 0)"
    using abs' by (simp add: pointers_absolute f) (simp add: c control_bits)
  have "sd_ok m' sd" by (rule sd_ok_cong [OF ok other ptr p parts(3-5)])
  moreover have "RtlGetOwnerSecurityDescriptor m' sd = (STATUS_SUCCESS, Some (p, d))"
    using parts(1) other [of sd] by (simp add: RtlGetOwnerSecurityDescriptor_def ptr) (simp add: c control_bits)
  ultimately show "\<exists>m'. RtlSetOwnerSecurityDescriptor m sd p d = (STATUS_SUCCESS, m') \<and> sd_ok m' sd \<and>
      sd_Control m' sd AND 0x8000 = 0 \<and> RtlGetOwnerSecurityDescriptor m' sd = (STATUS_SUCCESS, Some (p, d)) \<and>
      (\<forall>q. q < sd \<or> sd + 20 \<le> q \<longrightarrow> m' q = m q)"
    using eq abs' other by (intro exI [of _ m']) auto
qed (auto simp: RtlSetOwnerSecurityDescriptor_def intro: sid_part_cong)

interpretation group: sd_part RtlSetGroupSecurityDescriptor RtlGetGroupSecurityDescriptor sid_part
proof
  fix m sd p d
  assume ok: "sd_ok m sd" and abs: "sd_Control m sd AND 0x8000 = 0" and p: "sid_part m sd p"
  note parts = sd_ok_absolute [OF ok abs]
  define m' where "m' = snd (RtlSetGroupSecurityDescriptor m sd p d)"
  have eq: "RtlSetGroupSecurityDescriptor m sd p d = (STATUS_SUCCESS, m')"
    using parts(1) abs by (simp add: RtlSetGroupSecurityDescriptor_def Let_def m'_def)
  have c: "sd_Control m' sd = (sd_Control m sd AND NOT 2) OR (if d then 2 else 0)"
    using parts(1) abs by (simp add: m'_def RtlSetGroupSecurityDescriptor_def Let_def)
  have f: "sd_Owner m' sd = sd_Owner m sd" "sd_Group m' sd = p" "sd_Sacl m' sd = sd_Sacl m sd" "sd_Dacl m' sd = sd_Dacl m sd"
    using parts(1) abs sid_part_less [OF p] by (simp_all add: m'_def RtlSetGroupSecurityDescriptor_def Let_def)
  have other: "m' q = m q" if "q < sd + 2 \<or> sd + 20 \<le> q" for q
    using parts(1) abs that by (simp add: m'_def RtlSetGroupSecurityDescriptor_def Let_def set_field_other)
  have abs': "sd_Control m' sd AND 0x8000 = 0" using abs by (simp add: c control_bits)
  have ptr: "RtlpQuerySecurityDescriptorPointers m' sd = (sd_Owner m sd, p,
      if sd_Control m sd AND 0x10 \<noteq> 0 then sd_Sacl m sd else 0, if sd_Control m sd AND 4 \<noteq> 0 then sd_Dacl m sd else 0)"
    using abs' by (simp add: pointers_absolute f) (simp add: c control_bits)
  have "sd_ok m' sd" by (rule sd_ok_cong [OF ok other ptr parts(2) p parts(4,5)])
  moreover have "RtlGetGroupSecurityDescriptor m' sd = (STATUS_SUCCESS, Some (p, d))"
    using parts(1) other [of sd] by (simp add: RtlGetGroupSecurityDescriptor_def ptr) (simp add: c control_bits)
  ultimately show "\<exists>m'. RtlSetGroupSecurityDescriptor m sd p d = (STATUS_SUCCESS, m') \<and> sd_ok m' sd \<and>
      sd_Control m' sd AND 0x8000 = 0 \<and> RtlGetGroupSecurityDescriptor m' sd = (STATUS_SUCCESS, Some (p, d)) \<and>
      (\<forall>q. q < sd \<or> sd + 20 \<le> q \<longrightarrow> m' q = m q)"
    using eq abs' other by (intro exI [of _ m']) auto
qed (auto simp: RtlSetGroupSecurityDescriptor_def intro: sid_part_cong)

interpretation dacl: sd_part "\<lambda>m sd. RtlSetDaclSecurityDescriptor m sd True"
    "\<lambda>m sd. case RtlGetDaclSecurityDescriptor m sd of (st, _, r) \<Rightarrow> (st, r)" acl_part
proof
  fix m sd p d
  assume ok: "sd_ok m sd" and abs: "sd_Control m sd AND 0x8000 = 0" and p: "acl_part m sd p"
  note parts = sd_ok_absolute [OF ok abs]
  define m' where "m' = snd (RtlSetDaclSecurityDescriptor m sd True p d)"
  have eq: "RtlSetDaclSecurityDescriptor m sd True p d = (STATUS_SUCCESS, m')"
    using parts(1) abs by (simp add: RtlSetDaclSecurityDescriptor_def Let_def m'_def)
  have c: "sd_Control m' sd = ((sd_Control m sd OR 4) AND NOT 8) OR (if d then 8 else 0)"
    using parts(1) abs by (simp add: m'_def RtlSetDaclSecurityDescriptor_def Let_def)
  have f: "sd_Owner m' sd = sd_Owner m sd" "sd_Group m' sd = sd_Group m sd" "sd_Sacl m' sd = sd_Sacl m sd" "sd_Dacl m' sd = p"
    using parts(1) abs acl_part_less [OF p] by (simp_all add: m'_def RtlSetDaclSecurityDescriptor_def Let_def)
  have other: "m' q = m q" if "q < sd + 2 \<or> sd + 20 \<le> q" for q
    using parts(1) abs that by (simp add: m'_def RtlSetDaclSecurityDescriptor_def Let_def set_field_other)
  have abs': "sd_Control m' sd AND 0x8000 = 0" using abs by (simp add: c control_bits)
  have ptr: "RtlpQuerySecurityDescriptorPointers m' sd = (sd_Owner m sd, sd_Group m sd,
      if sd_Control m sd AND 0x10 \<noteq> 0 then sd_Sacl m sd else 0, p)"
    using abs' by (simp add: pointers_absolute f) (simp add: c control_bits)
  have "sd_ok m' sd" by (rule sd_ok_cong [OF ok other ptr parts(2-4) p])
  moreover have "(case RtlGetDaclSecurityDescriptor m' sd of (st, _, r) \<Rightarrow> (st, r)) = (STATUS_SUCCESS, Some (p, d))"
    using parts(1) other [of sd] by (simp add: RtlGetDaclSecurityDescriptor_def ptr c control_bits)
  ultimately show "\<exists>m'. RtlSetDaclSecurityDescriptor m sd True p d = (STATUS_SUCCESS, m') \<and> sd_ok m' sd \<and>
      sd_Control m' sd AND 0x8000 = 0 \<and> (case RtlGetDaclSecurityDescriptor m' sd of (st, _, r) \<Rightarrow> (st, r)) = (STATUS_SUCCESS, Some (p, d)) \<and>
      (\<forall>q. q < sd \<or> sd + 20 \<le> q \<longrightarrow> m' q = m q)"
    using eq abs' other by (intro exI [of _ m']) auto
qed (auto simp: RtlSetDaclSecurityDescriptor_def intro: acl_part_cong)

interpretation sacl: sd_part "\<lambda>m sd. RtlSetSaclSecurityDescriptor m sd True"
    "\<lambda>m sd. case RtlGetSaclSecurityDescriptor m sd of (st, _, r) \<Rightarrow> (st, r)" acl_part
proof
  fix m sd p d
  assume ok: "sd_ok m sd" and abs: "sd_Control m sd AND 0x8000 = 0" and p: "acl_part m sd p"
  note parts = sd_ok_absolute [OF ok abs]
  define m' where "m' = snd (RtlSetSaclSecurityDescriptor m sd True p d)"
  have eq: "RtlSetSaclSecurityDescriptor m sd True p d = (STATUS_SUCCESS, m')"
    using parts(1) abs by (simp add: RtlSetSaclSecurityDescriptor_def Let_def m'_def)
  have c: "sd_Control m' sd = ((sd_Control m sd OR 0x10) AND NOT 0x20) OR (if d then 0x20 else 0)"
    using parts(1) abs by (simp add: m'_def RtlSetSaclSecurityDescriptor_def Let_def)
  have f: "sd_Owner m' sd = sd_Owner m sd" "sd_Group m' sd = sd_Group m sd" "sd_Sacl m' sd = p" "sd_Dacl m' sd = sd_Dacl m sd"
    using parts(1) abs acl_part_less [OF p] by (simp_all add: m'_def RtlSetSaclSecurityDescriptor_def Let_def)
  have other: "m' q = m q" if "q < sd + 2 \<or> sd + 20 \<le> q" for q
    using parts(1) abs that by (simp add: m'_def RtlSetSaclSecurityDescriptor_def Let_def set_field_other)
  have abs': "sd_Control m' sd AND 0x8000 = 0" using abs by (simp add: c control_bits)
  have ptr: "RtlpQuerySecurityDescriptorPointers m' sd = (sd_Owner m sd, sd_Group m sd, p, if sd_Control m sd AND 4 \<noteq> 0 then sd_Dacl m sd else 0)"
    using abs' by (simp add: pointers_absolute f) (simp add: c control_bits)
  have "sd_ok m' sd" by (rule sd_ok_cong [OF ok other ptr parts(2,3) p parts(5)])
  moreover have "(case RtlGetSaclSecurityDescriptor m' sd of (st, _, r) \<Rightarrow> (st, r)) = (STATUS_SUCCESS, Some (p, d))"
    using parts(1) other [of sd] by (simp add: RtlGetSaclSecurityDescriptor_def ptr c control_bits)
  ultimately show "\<exists>m'. RtlSetSaclSecurityDescriptor m sd True p d = (STATUS_SUCCESS, m') \<and> sd_ok m' sd \<and>
      sd_Control m' sd AND 0x8000 = 0 \<and> (case RtlGetSaclSecurityDescriptor m' sd of (st, _, r) \<Rightarrow> (st, r)) = (STATUS_SUCCESS, Some (p, d)) \<and>
      (\<forall>q. q < sd \<or> sd + 20 \<le> q \<longrightarrow> m' q = m q)"
    using eq abs' other by (intro exI [of _ m']) auto
qed (auto simp: RtlSetSaclSecurityDescriptor_def intro: acl_part_cong)

section \<open>The self-relative form\<close>

lemma put_bytes_overwrite:
  assumes "length ys = length zs"
  shows "put_bytes (put_bytes m p (xs @ ys @ ws)) (p + length xs) zs = put_bytes m p (xs @ zs @ ws)"
  using assms by (auto simp: put_bytes_def fun_eq_iff nth_append)

lemma acl_holds_move:
  assumes "acl_holds m p xs" and "bytes_at m' p' (unat (AclSize m p)) = bytes_at m p (unat (AclSize m p))"
    and "0 < p'" and "p' + unat (AclSize m p) < 4294901760"
  shows "acl_holds m' p' xs" "AclSize m' p' = AclSize m p"
proof -
  let ?n = "unat (AclSize m p)"
  have n: "8 \<le> ?n" "8 + length (concat xs) \<le> ?n" using assms(1) by (auto simp: acl_holds_def)
  have eq: "m' (p' + k) = m (p + k)" if "k < ?n" for k using assms(2) that by (metis nth_bytes_at)
  have eq': "m' (p' + k + 1) = m (p + k + 1)" if "k + 1 < ?n" for k using eq [of "k + 1"] that by (simp add: add.assoc)
  show size: "AclSize m' p' = AclSize m p" unfolding AclSize_def
    by (rule read_USHORT_cong) (use n eq [of 2] eq' [of 2] in \<open>simp_all add: numeral_eq_Suc\<close>)
  have "AceCount m' p' = AceCount m p" unfolding AceCount_def
    by (rule read_USHORT_cong) (use n eq [of 4] eq' [of 4] in \<open>simp_all\<close>)
  moreover have "m' p' = m p" using eq [of 0] n by simp
  moreover have "holds m' (p' + 8) (concat xs)"
  proof -
    have "m' (p' + 8 + i) = m (p + 8 + i)" if "i < length (concat xs)" for i
      using eq [of "8 + i"] n that by (simp add: add.assoc)
    then show ?thesis using assms(1) by (simp add: holds_iff acl_holds_def)
  qed
  ultimately show "acl_holds m' p' xs" using assms(1,3,4) size by (simp add: acl_holds_def)
qed

definition part_offset :: "ULONG \<Rightarrow> nat \<Rightarrow> ULONG" where
  "part_offset len k = (if len \<noteq> 0 then of_nat k else 0)"

lemma copy_part_put:
  assumes "outside q (unat len) R (R + length H + length B + r)" "unat len \<le> r" "length H = 20"
    "R + 20 + length B + r < 4294967296" "H = X @ Y @ Z" "length X = f" "length Y = 4"
    "len = 0 \<longrightarrow> Y = ULONG_bytes 0"
  shows "copy_part R f (q, len) (put_bytes m R (H @ B @ replicate r 0), R + 20 + length B) =
    (put_bytes m R ((X @ ULONG_bytes (part_offset len (20 + length B)) @ Z) @ (B @ bytes_at m q (unat len)) @
       replicate (r - unat len) 0), R + 20 + length (B @ bytes_at m q (unat len)))"
proof (cases "len = 0")
  case True
  then show ?thesis using assms by (simp add: copy_part_def part_offset_def bytes_at_def)
next
  case False
  let ?P = "bytes_at m q (unat len)" and ?m = "put_bytes m R (H @ B @ replicate r 0)"
  have P: "bytes_at ?m q (unat len) = ?P"
    using assms(1) by (intro bytes_at_put_bytes) (auto simp: outside_def)
  have r: "replicate r (0 :: UCHAR) = replicate (unat len) 0 @ replicate (r - unat len) 0"
    using assms(2) by (simp add: replicate_add [symmetric])
  have 1: "put_bytes ?m (R + 20 + length B) ?P = put_bytes m R ((H @ B) @ ?P @ replicate (r - unat len) 0)"
    unfolding r using put_bytes_overwrite [of "replicate (unat len) 0" ?P m R "H @ B" "replicate (r - unat len) 0"]
    by (simp add: assms(3) add.assoc)
  have 2: "put_bytes (put_bytes m R (X @ Y @ Z @ B @ ?P @ replicate (r - unat len) 0)) (R + f) (ULONG_bytes v) =
      put_bytes m R (X @ ULONG_bytes v @ Z @ B @ ?P @ replicate (r - unat len) 0)" for v
    using put_bytes_overwrite [of Y "ULONG_bytes v" m R X "Z @ B @ ?P @ replicate (r - unat len) 0"] assms(6,7) by simp
  have off: "(of_nat (R + 20 + length B) - of_nat R :: ULONG) = part_offset len (20 + length B)"
    using False by (simp add: part_offset_def)
  show ?thesis
    unfolding copy_part_def using False assms(2,4)
    by (simp only: prod.case if_True not_False_eq_True memcpy_eq_put P 1 write_ULONG_eq_put off)
      (simp add: assms(5) 2 ptr_add_eq add.assoc)
qed

definition part_bytes :: "bytes \<Rightarrow> nat \<times> ULONG \<Rightarrow> UCHAR list" where
  "part_bytes m P = bytes_at m (fst P) (unat (snd P))"

lemma length_part_bytes [simp]: "length (part_bytes m P) = unat (snd P)"
  by (simp add: part_bytes_def)

text \<open>The header of a self-relative descriptor, with the four offsets.\<close>

definition sd_header :: "UCHAR \<Rightarrow> UCHAR \<Rightarrow> USHORT \<Rightarrow> ULONG \<Rightarrow> ULONG \<Rightarrow> ULONG \<Rightarrow> ULONG \<Rightarrow> UCHAR list" where
  "sd_header r z c ow gr sa da = [r] @ [z] @ USHORT_bytes c @ ULONG_bytes ow @ ULONG_bytes gr @ ULONG_bytes sa @ ULONG_bytes da"

lemma length_sd_header [simp]: "length (sd_header r z c ow gr sa da) = 20"
  by (simp add: sd_header_def)

lemma ULONG_bytes_0: "ULONG_bytes 0 = replicate 4 0"
  by (simp add: ULONG_bytes_def numeral_eq_Suc)

lemma relative_header:
  assumes "outside Abs 20 R (R + 20 + r)"
  shows "(let m = memset m R 0 (20 + r); m = m(R := m Abs); m = m(R + 1 := m (Abs + 1))
      in set_Control m R (sd_Control m Abs OR c)) =
    put_bytes m R (sd_header (m Abs) (m (Abs + 1)) (sd_Control m Abs OR c) 0 0 0 0 @ replicate r 0)"
proof -
  let ?Z = "replicate 16 0 @ replicate r 0 :: UCHAR list"
  have abs: "put_bytes m R xs (Abs + k) = m (Abs + k)" if "k < 20" "length xs = 20 + r" for k xs
    using assms that by (intro put_bytes_other) (auto simp: outside_def)
  have ctl: "sd_Control (put_bytes m R xs) Abs = sd_Control m Abs" if "length xs = 20 + r" for xs
    unfolding sd_Control_def by (rule read_USHORT_cong)
      (use abs [of 2 xs] abs [of 3 xs] that in \<open>simp_all add: numeral_eq_Suc\<close>)
  have z: "memset m R 0 (20 + r) = put_bytes m R ([0] @ [0] @ [0, 0] @ ?Z)"
    by (simp add: memset_eq_put replicate_add numeral_eq_Suc)
  have 1: "(put_bytes m R ([0] @ [0] @ [0, 0] @ ?Z))(R := m Abs) = put_bytes m R ([m Abs] @ [0] @ [0, 0] @ ?Z)"
    unfolding fun_upd_eq_put using put_bytes_overwrite [of "[0]" "[m Abs]" m R "[]"] by simp
  have 2: "(put_bytes m R ([m Abs] @ [0] @ [0, 0] @ ?Z))(R + 1 := m (Abs + 1)) = put_bytes m R ([m Abs, m (Abs + 1)] @ [0, 0] @ ?Z)"
    unfolding fun_upd_eq_put using put_bytes_overwrite [of "[0]" "[m (Abs + 1)]" m R "[m Abs]"] by simp
  have 3: "set_Control (put_bytes m R ([m Abs, m (Abs + 1)] @ [0, 0] @ ?Z)) R v =
      put_bytes m R ([m Abs, m (Abs + 1)] @ USHORT_bytes v @ ?Z)" for v
    unfolding set_Control_def write_USHORT_eq_put
    using put_bytes_overwrite [of "[0, 0]" "USHORT_bytes v" m R "[m Abs, m (Abs + 1)]"] by (simp add: numeral_eq_Suc)
  show ?thesis
    unfolding Let_def z using abs [of 0 "[0] @ [0] @ [0, 0] @ ?Z"] abs [of 1 "[m Abs] @ [0] @ [0, 0] @ ?Z"]
      ctl [of "[m Abs, m (Abs + 1)] @ [0, 0] @ ?Z"]
    by (simp only: 1 2 3 add_0_right length_append list.size length_replicate)
      (simp add: 1 [simplified] 2 [simplified] 3 [simplified] sd_header_def ULONG_bytes_0 numeral_eq_Suc)
qed

lemma copy_part_field:
  assumes "outside (fst P) (unat (snd P)) R (R + 20 + length B + r)" "unat (snd P) \<le> r" "R + 20 + length B + r < 4294967296"
    and "length X = f" "length X + length Z = 16"
  shows "copy_part R f P (put_bytes m R ((X @ ULONG_bytes 0 @ Z) @ B @ replicate r 0), R + 20 + length B) =
    (put_bytes m R ((X @ ULONG_bytes (part_offset (snd P) (20 + length B)) @ Z) @ (B @ part_bytes m P) @
       replicate (r - unat (snd P)) 0), R + 20 + length (B @ part_bytes m P))"
proof -
  have "length (X @ ULONG_bytes 0 @ Z) = 20" using assms(4,5) by simp
  with copy_part_put [of "fst P" "snd P" R "X @ ULONG_bytes 0 @ Z" B r X "ULONG_bytes 0" Z f m] assms
  show ?thesis by (simp only: part_bytes_def prod.collapse length_field_bytes simp_thms)
qed

lemma make_relative_bytes:
  assumes q: "RtlpQuerySecurityDescriptor m Abs = (ow, gr, sa, da)"
    and n: "n = unat (snd ow) + unat (snd gr) + unat (snd sa) + unat (snd da)" "R + 20 + n < 4294967296"
    and buf: "20 + n \<le> unat len"
    and out: "outside Abs 20 R (R + 20 + n)" "outside (fst ow) (unat (snd ow)) R (R + 20 + n)"
      "outside (fst gr) (unat (snd gr)) R (R + 20 + n)" "outside (fst sa) (unat (snd sa)) R (R + 20 + n)"
      "outside (fst da) (unat (snd da)) R (R + 20 + n)"
  shows "RtlMakeSelfRelativeSD m Abs R len = (STATUS_SUCCESS,
    put_bytes m R (sd_header (m Abs) (m (Abs + 1)) (sd_Control m Abs OR 0x8000)
        (part_offset (snd ow) (20 + unat (snd sa) + unat (snd da)))
        (part_offset (snd gr) (20 + unat (snd sa) + unat (snd da) + unat (snd ow)))
        (part_offset (snd sa) 20) (part_offset (snd da) (20 + unat (snd sa))) @
      part_bytes m sa @ part_bytes m da @ part_bytes m ow @ part_bytes m gr), len)"
proof -
  let ?T = "20 + snd ow + snd gr + snd sa + snd da"
  have "?T = of_nat (20 + n)" by (simp add: n(1))
  then have T: "unat ?T = 20 + n" using n(2) by (simp add: unat_of_nat take_bit_nat_eq_self del: of_nat_add)
  have fit: "\<not> len < ?T" using buf T by (simp add: word_less_nat_alt)
  let ?p = "[m Abs] @ [m (Abs + 1)] @ USHORT_bytes (sd_Control m Abs OR 0x8000)" and ?z = "ULONG_bytes 0"
  let ?so = "ULONG_bytes (part_offset (snd sa) 20)"
  let ?do = "ULONG_bytes (part_offset (snd da) (20 + unat (snd sa)))"
  let ?oo = "ULONG_bytes (part_offset (snd ow) (20 + unat (snd sa) + unat (snd da)))"
  let ?go = "ULONG_bytes (part_offset (snd gr) (20 + unat (snd sa) + unat (snd da) + unat (snd ow)))"
  let ?S = "part_bytes m sa" and ?D = "part_bytes m da" and ?O = "part_bytes m ow" and ?G = "part_bytes m gr"
  have S: "copy_part R 12 sa (put_bytes m R ((?p @ ?z @ ?z @ ?z @ ?z) @ replicate n 0), R + 20) =
      (put_bytes m R ((?p @ ?z @ ?z @ ?so @ ?z) @ ?S @ replicate (n - unat (snd sa)) 0), R + 20 + length ?S)"
    using copy_part_field [of sa R "[]" n "?p @ ?z @ ?z" 12 ?z m] n out(4) by (simp add: add_ac)
  have D: "copy_part R 16 da (put_bytes m R ((?p @ ?z @ ?z @ ?so @ ?z) @ ?S @ replicate (n - unat (snd sa)) 0), R + 20 + length ?S) =
      (put_bytes m R ((?p @ ?z @ ?z @ ?so @ ?do) @ (?S @ ?D) @ replicate (n - unat (snd sa) - unat (snd da)) 0), R + 20 + length (?S @ ?D))"
    using copy_part_field [of da R ?S "n - unat (snd sa)" "?p @ ?z @ ?z @ ?so" 16 "[]" m] n out(5) by (simp add: add_ac)
  have O: "copy_part R 4 ow (put_bytes m R ((?p @ ?z @ ?z @ ?so @ ?do) @ (?S @ ?D) @ replicate (n - unat (snd sa) - unat (snd da)) 0), R + 20 + length (?S @ ?D)) =
      (put_bytes m R ((?p @ ?oo @ ?z @ ?so @ ?do) @ (?S @ ?D @ ?O) @ replicate (n - unat (snd sa) - unat (snd da) - unat (snd ow)) 0), R + 20 + length (?S @ ?D @ ?O))"
    using copy_part_field [of ow R "?S @ ?D" "n - unat (snd sa) - unat (snd da)" ?p 4 "?z @ ?so @ ?do" m] n out(2) by (simp add: add_ac)
  have G: "copy_part R 8 gr (put_bytes m R ((?p @ ?oo @ ?z @ ?so @ ?do) @ (?S @ ?D @ ?O) @ replicate (n - unat (snd sa) - unat (snd da) - unat (snd ow)) 0), R + 20 + length (?S @ ?D @ ?O)) =
      (put_bytes m R ((?p @ ?oo @ ?go @ ?so @ ?do) @ ?S @ ?D @ ?O @ ?G), R + 20 + length (?S @ ?D @ ?O @ ?G))"
    using copy_part_field [of gr R "?S @ ?D @ ?O" "n - unat (snd sa) - unat (snd da) - unat (snd ow)" "?p @ ?oo" 8 "?so @ ?do" m] n out(3) by (simp add: add_ac)
  have H: "(let m = memset m R 0 (20 + n); m = m(R := m Abs); m = m(R + 1 := m (Abs + 1))
      in set_Control m R (sd_Control m Abs OR 0x8000)) =
    put_bytes m R (sd_header (m Abs) (m (Abs + 1)) (sd_Control m Abs OR 0x8000) 0 0 0 0 @ replicate n 0)"
    by (rule relative_header) (use out(1) in simp)
  have chain: "copy_part R 8 gr (copy_part R 4 ow (copy_part R 16 da (copy_part R 12 sa
      (put_bytes m R ((?p @ ?z @ ?z @ ?z @ ?z) @ replicate n 0), R + 20)))) =
      (put_bytes m R ((?p @ ?oo @ ?go @ ?so @ ?do) @ ?S @ ?D @ ?O @ ?G), R + 20 + length (?S @ ?D @ ?O @ ?G))"
    by (simp only: S D O G)
  have hd: "sd_header (m Abs) (m (Abs + 1)) (sd_Control m Abs OR 0x8000) o' g' s' d' =
      ?p @ ULONG_bytes o' @ ULONG_bytes g' @ ULONG_bytes s' @ ULONG_bytes d'" for o' g' s' d'
    by (simp add: sd_header_def)
  show ?thesis
    using H chain fit unfolding RtlMakeSelfRelativeSD_def q prod.case Let_def hd T
    by (simp only: if_False prod.case)
qed

text \<open>
  What a descriptor says, wherever its parts lie: the bytes of the owner, of the group, of the
  SACL and of the DACL, each \<open>None\<close> where the part is absent.
\<close>

definition part_view :: "bytes \<Rightarrow> nat \<times> ULONG \<Rightarrow> UCHAR list option" where
  "part_view m P = (if fst P = 0 then None else Some (part_bytes m P))"

definition sd_view :: "bytes \<Rightarrow> nat \<Rightarrow> UCHAR list option \<times> UCHAR list option \<times> UCHAR list option \<times> UCHAR list option" where
  "sd_view m sd = (case RtlpQuerySecurityDescriptor m sd of (Owner, Group, Sacl, Dacl) \<Rightarrow>
     (part_view m Owner, part_view m Group, part_view m Sacl, part_view m Dacl))"

text \<open>No part of the descriptor, header included, meets the addresses from \<open>lo\<close> to \<open>hi\<close>.\<close>

definition sd_apart :: "bytes \<Rightarrow> nat \<Rightarrow> nat \<Rightarrow> nat \<Rightarrow> bool" where
  "sd_apart m sd lo hi \<longleftrightarrow> outside sd 20 lo hi \<and>
     (case RtlpQuerySecurityDescriptor m sd of (Owner, Group, Sacl, Dacl) \<Rightarrow>
        (\<forall>(p, n) \<in> {Owner, Group, Sacl, Dacl}. outside p (unat n) lo hi))"

lemma ROUND_UP4_sid: "unat (ROUND_UP4 (RtlLengthSid m p)) = unat (RtlLengthSid m p)"
  using unat_UCHAR_less [of "m (p + 1)"] by (simp add: unat_ROUND_UP4 unat_RtlLengthSid)

lemma ROUND_UP4_acl: "acl_holds m p xs \<Longrightarrow> unat (ROUND_UP4 (ucast (AclSize m p))) = unat (AclSize m p)"
  using unat_USHORT_less [of "AclSize m p"] by (auto simp: acl_holds_def unat_ROUND_UP4 unat_widen elim!: dvdE)

lemma sid_move:
  assumes "bytes_at m' p' (unat (RtlLengthSid m p)) = bytes_at m p (unat (RtlLengthSid m p))"
  shows "RtlValidSid m' p' = RtlValidSid m p" "RtlLengthSid m' p' = RtlLengthSid m p"
proof -
  have "m' (p' + k) = m (p + k)" if "k < 8" for k
    using assms that by (metis nth_bytes_at unat_RtlLengthSid trans_less_add1)
  from this [of 0] this [of 1] show "RtlValidSid m' p' = RtlValidSid m p" "RtlLengthSid m' p' = RtlLengthSid m p"
    by (simp_all add: RtlLengthSid_def RtlValidSid_def)
qed

lemma sd_query:
  assumes "sd_ok m sd" "RtlpQuerySecurityDescriptor m sd = (ow, gr, sa, da)"
  shows "snd ow = (if fst ow = 0 then 0 else ROUND_UP4 (RtlLengthSid m (fst ow)))"
    "snd gr = (if fst gr = 0 then 0 else ROUND_UP4 (RtlLengthSid m (fst gr)))"
    "snd sa = (if fst sa = 0 then 0 else ROUND_UP4 (ucast (AclSize m (fst sa))))"
    "snd da = (if fst da = 0 then 0 else ROUND_UP4 (ucast (AclSize m (fst da))))"
    "sid_part m sd (fst ow)" "sid_part m sd (fst gr)" "acl_part m sd (fst sa)" "acl_part m sd (fst da)"
    "fst sa \<noteq> 0 \<Longrightarrow> sd_Control m sd AND 0x10 \<noteq> 0" "fst da \<noteq> 0 \<Longrightarrow> sd_Control m sd AND 4 \<noteq> 0"
    "m sd = 1"
  using assms by (auto simp: RtlpQuerySecurityDescriptor_def sd_ok_def split: prod.splits)
    (auto simp: RtlpQuerySecurityDescriptorPointers_def split: if_splits)

lemma length_query:
  "RtlpQuerySecurityDescriptor m sd = (ow, gr, sa, da) \<Longrightarrow> RtlLengthSecurityDescriptor m sd = 20 + snd ow + snd gr + snd sa + snd da"
  by (auto simp: RtlpQuerySecurityDescriptor_def RtlLengthSecurityDescriptor_def Let_def split: prod.splits)

lemma part_nonempty:
  "fst P \<noteq> 0 \<Longrightarrow> sid_part m sd (fst P) \<Longrightarrow> snd P = (if fst P = 0 then 0 else ROUND_UP4 (RtlLengthSid m (fst P))) \<Longrightarrow> snd P \<noteq> 0"
  "fst P \<noteq> 0 \<Longrightarrow> acl_part m sd (fst P) \<Longrightarrow> snd P = (if fst P = 0 then 0 else ROUND_UP4 (ucast (AclSize m (fst P)))) \<Longrightarrow> snd P \<noteq> 0"
  using ROUND_UP4_sid [of m "fst P"]
  by (auto simp: unat_RtlLengthSid acl_part_def word_unat_eq_iff ROUND_UP4_acl acl_holds_def dest: ROUND_UP4_acl)

lemma outside_above: "20 \<le> k \<Longrightarrow> outside (R + k) n R (R + 20)"
  by (simp add: outside_def)

lemma sid_part_moved:
  assumes h: "holds m' p (part_bytes m P)" and P: "sid_part m sd (fst P)"
      "snd P = (if fst P = 0 then 0 else ROUND_UP4 (RtlLengthSid m (fst P)))"
    and k: "outside p (unat (snd P)) R (R + 20)" "0 < p" "p + unat (snd P) < 4294901760"
    and p': "p' = (if fst P = 0 then 0 else p)"
  shows "sid_part m' R p'" "part_view m' (p', if p' \<noteq> 0 then ROUND_UP4 (RtlLengthSid m' p') else 0) = part_view m P"
proof -
  have eq: "bytes_at m' p' (unat (RtlLengthSid m (fst P))) = bytes_at m (fst P) (unat (RtlLengthSid m (fst P)))" if "fst P \<noteq> 0"
    using that h P(2) p' by (simp add: part_bytes_def holds_bytes_at_eq ROUND_UP4_sid)
  show "sid_part m' R p'"
    using P k p' sid_move [OF eq] by (auto simp: sid_part_def outside_def ROUND_UP4_sid)
  show "part_view m' (p', if p' \<noteq> 0 then ROUND_UP4 (RtlLengthSid m' p') else 0) = part_view m P"
    using P k p' eq sid_move [OF eq] by (auto simp: part_view_def part_bytes_def ROUND_UP4_sid)
qed

lemma acl_part_moved:
  assumes h: "holds m' p (part_bytes m P)" and P: "acl_part m sd (fst P)"
      "snd P = (if fst P = 0 then 0 else ROUND_UP4 (ucast (AclSize m (fst P))))"
    and k: "outside p (unat (snd P)) R (R + 20)" "0 < p" "p + unat (snd P) < 4294901760"
    and p': "p' = (if fst P = 0 then 0 else p)"
  shows "acl_part m' R p'" "part_view m' (p', if p' \<noteq> 0 then ROUND_UP4 (ucast (AclSize m' p')) else 0) = part_view m P"
proof -
  have "acl_part m' R p' \<and> part_view m' (p', if p' \<noteq> 0 then ROUND_UP4 (ucast (AclSize m' p')) else 0) = part_view m P"
  proof (cases "fst P = 0")
    case False
    then obtain xs where xs: "acl_holds m (fst P) xs" using P(1) by (auto simp: acl_part_def)
    have n: "unat (snd P) = unat (AclSize m (fst P))" using P(2) False ROUND_UP4_acl [OF xs] by simp
    have eq: "bytes_at m' p' (unat (AclSize m (fst P))) = bytes_at m (fst P) (unat (AclSize m (fst P)))"
      using h p' False n by (simp add: part_bytes_def holds_bytes_at_eq)
    have "0 < p'" "p' + unat (AclSize m (fst P)) < 4294901760" using k p' False n by auto
    note move = acl_holds_move [OF xs eq this]
    have "outside p' (unat (AclSize m' p')) R (R + 20)" using k p' False n move(2) by simp
    then have "acl_part m' R p'" using move(1) k p' False by (auto simp: acl_part_def)
    moreover have "part_bytes m' (p', ROUND_UP4 (ucast (AclSize m' p'))) = part_bytes m P"
      unfolding part_bytes_def fst_conv snd_conv ROUND_UP4_acl [OF move(1)] n unfolding move(2) by (rule eq)
    ultimately show ?thesis using False p' k(2) by (simp add: part_view_def)
  qed (use p' in \<open>simp add: acl_part_def part_view_def\<close>)
  then show "acl_part m' R p'" "part_view m' (p', if p' \<noteq> 0 then ROUND_UP4 (ucast (AclSize m' p')) else 0) = part_view m P"
    by simp_all
qed

lemma holds_mid: "holds m p (X @ Y @ Z) \<Longrightarrow> holds m (p + length X) Y"
  by (simp add: holds_append)

lemma holds_USHORT_bytes: "holds m p (USHORT_bytes v) \<Longrightarrow> read_USHORT m p = v"
proof -
  assume "holds m p (USHORT_bytes v)"
  then have "m p = USHORT_bytes v ! 0" "m (p + 1) = USHORT_bytes v ! 1" by (auto simp: holds_iff dest: spec [of _ 0] spec [of _ 1])
  then show ?thesis using USHORT_bytes_join [of v] by (simp add: read_USHORT_def)
qed

lemma header_fields:
  assumes "holds m' R (sd_header r z c ow gr sa da)"
  shows "m' R = r" "sd_Control m' R = c" "sd_Owner m' R = unat ow" "sd_Group m' R = unat gr"
    "sd_Sacl m' R = unat sa" "sd_Dacl m' R = unat da"
proof -
  have "holds m' (R + 2) (USHORT_bytes c)" "holds m' (R + 4) (ULONG_bytes ow)" "holds m' (R + 8) (ULONG_bytes gr)"
    "holds m' (R + 12) (ULONG_bytes sa)" "holds m' (R + 16) (ULONG_bytes da)" "holds m' R [r]"
    using assms holds_mid [of m' R "[r, z]" "USHORT_bytes c"] holds_mid [of m' R "[]" "[r]"]
      holds_mid [of m' R "[r, z] @ USHORT_bytes c" "ULONG_bytes ow"]
      holds_mid [of m' R "[r, z] @ USHORT_bytes c @ ULONG_bytes ow" "ULONG_bytes gr"]
      holds_mid [of m' R "[r, z] @ USHORT_bytes c @ ULONG_bytes ow @ ULONG_bytes gr" "ULONG_bytes sa"]
      holds_mid [of m' R "[r, z] @ USHORT_bytes c @ ULONG_bytes ow @ ULONG_bytes gr @ ULONG_bytes sa" "ULONG_bytes da" "[]"]
    unfolding sd_header_def by simp_all
  then show "m' R = r" "sd_Control m' R = c" "sd_Owner m' R = unat ow" "sd_Group m' R = unat gr"
    "sd_Sacl m' R = unat sa" "sd_Dacl m' R = unat da"
    by (simp_all add: sd_Owner_def sd_Group_def sd_Sacl_def sd_Dacl_def sd_Control_def holds_ULONG_bytes holds_USHORT_bytes)
      (simp add: holds_iff)
qed

lemma unat_part_offset: "k < 4294967296 \<Longrightarrow> unat (part_offset len k) = (if len = 0 then 0 else k)"
  by (simp add: part_offset_def unat_of_nat take_bit_nat_eq_self)

lemma relative_pointers:
  assumes "holds m' R (sd_header r z (c OR 0x8000) (part_offset ol ok) (part_offset gl gk) (part_offset sl sk) (part_offset dl dk))"
    and "ok < n" "gk < n" "sk < n" "dk < n" "R + n < 4294967296" "0 < ok" "0 < gk" "0 < sk" "0 < dk"
    and "sl \<noteq> 0 \<Longrightarrow> c AND 0x10 \<noteq> 0" "dl \<noteq> 0 \<Longrightarrow> c AND 4 \<noteq> 0"
  shows "RtlpQuerySecurityDescriptorPointers m' R = (if ol = 0 then 0 else R + ok, if gl = 0 then 0 else R + gk,
    if sl = 0 then 0 else R + sk, if dl = 0 then 0 else R + dk)"
proof -
  note f = header_fields [OF assms(1)]
  have "sd_Control m' R AND 0x8000 \<noteq> 0" "sd_Control m' R AND 0x10 = c AND 0x10" "sd_Control m' R AND 4 = c AND 4"
    by (simp_all add: f(2) control_bits bit.conj_disj_distrib2)
  then show ?thesis using assms(2-) unfolding RtlpQuerySecurityDescriptorPointers_def f(3-6)
    by (auto simp: unat_part_offset ptr_add_eq)
qed

lemma query_length_less:
  assumes "sd_ok m sd" "RtlpQuerySecurityDescriptor m sd = (ow, gr, sa, da)"
  shows "unat (snd ow) < 65536" "unat (snd gr) < 65536" "unat (snd sa) < 65536" "unat (snd da) < 65536"
proof -
  have sid: "unat (ROUND_UP4 (RtlLengthSid m p)) < 65536" for p
    using unat_UCHAR_less [of "m (p + 1)"] by (simp add: ROUND_UP4_sid unat_RtlLengthSid)
  have acl: "acl_part m sd p \<Longrightarrow> p \<noteq> 0 \<Longrightarrow> unat (ROUND_UP4 (ucast (AclSize m p))) < 65536" for p
    using unat_USHORT_less [of "AclSize m p"] by (auto simp: acl_part_def ROUND_UP4_acl)
  note Q = sd_query [OF assms]
  show "unat (snd ow) < 65536" "unat (snd gr) < 65536" by (simp_all add: Q(1,2) sid)
  show "unat (snd sa) < 65536" "unat (snd da) < 65536" using acl [OF Q(7)] acl [OF Q(8)] by (simp_all add: Q(3,4))
qed

lemma unat_length_query:
  assumes "sd_ok m sd" "RtlpQuerySecurityDescriptor m sd = (ow, gr, sa, da)"
  shows "unat (RtlLengthSecurityDescriptor m sd) = 20 + unat (snd ow) + unat (snd gr) + unat (snd sa) + unat (snd da)"
proof -
  have "RtlLengthSecurityDescriptor m sd = of_nat (20 + unat (snd ow) + unat (snd gr) + unat (snd sa) + unat (snd da))"
    by (simp add: length_query [OF assms(2)])
  then show ?thesis using query_length_less [OF assms] by (simp add: unat_of_nat take_bit_nat_eq_self del: of_nat_add)
qed

lemma make_relative_view:
  assumes ok: "sd_ok m Abs" and len: "RtlLengthSecurityDescriptor m Abs \<le> len"
    and R: "R + unat (RtlLengthSecurityDescriptor m Abs) < 4294901760"
    and out: "sd_apart m Abs R (R + unat (RtlLengthSecurityDescriptor m Abs))"
    and eq: "RtlMakeSelfRelativeSD m Abs R len = (st, m', len')"
  shows "st = STATUS_SUCCESS" "len' = len" "sd_ok m' R" "sd_view m' R = sd_view m Abs"
    "sd_Control m' R = sd_Control m Abs OR SE_SELF_RELATIVE"
    "q < R \<or> R + unat (RtlLengthSecurityDescriptor m Abs) \<le> q \<Longrightarrow> m' q = m q"
proof -
  obtain ow gr sa da where q: "RtlpQuerySecurityDescriptor m Abs = (ow, gr, sa, da)" by (metis prod_cases4)
  note Q = sd_query [OF ok q]
  define n where "n = unat (snd ow) + unat (snd gr) + unat (snd sa) + unat (snd da)"
  have L: "unat (RtlLengthSecurityDescriptor m Abs) = 20 + n" using unat_length_query [OF ok q] by (simp add: n_def)
  have ne: "snd ow = 0 \<longleftrightarrow> fst ow = 0" "snd gr = 0 \<longleftrightarrow> fst gr = 0" "snd sa = 0 \<longleftrightarrow> fst sa = 0" "snd da = 0 \<longleftrightarrow> fst da = 0"
    using part_nonempty(1) [OF _ Q(5,1)] part_nonempty(1) [OF _ Q(6,2)] part_nonempty(2) [OF _ Q(7,3)]
      part_nonempty(2) [OF _ Q(8,4)] Q(1-4) by (metis (full_types))+
  let ?sd = "20 + unat (snd sa)" let ?so = "?sd + unat (snd da)" let ?sg = "?so + unat (snd ow)"
  let ?H = "sd_header (m Abs) (m (Abs + 1)) (sd_Control m Abs OR 0x8000) (part_offset (snd ow) ?so)
        (part_offset (snd gr) ?sg) (part_offset (snd sa) 20) (part_offset (snd da) ?sd)"
  let ?S = "part_bytes m sa" and ?D = "part_bytes m da" and ?O = "part_bytes m ow" and ?G = "part_bytes m gr"
  have res: "st = STATUS_SUCCESS" "len' = len" and m': "m' = put_bytes m R (?H @ ?S @ ?D @ ?O @ ?G)"
    using make_relative_bytes [OF q n_def, of R len] R len out eq
    by (simp_all add: L word_le_nat_alt sd_apart_def q split_beta add.assoc)
  show "st = STATUS_SUCCESS" "len' = len" by (fact res)+
  have all: "holds m' R (?H @ ?S @ ?D @ ?O @ ?G)" by (simp add: m' holds_put_bytes)
  have H: "holds m' R ?H" "holds m' (R + 20) ?S" "holds m' (R + ?sd) ?D" "holds m' (R + ?so) ?O" "holds m' (R + ?sg) ?G"
    using holds_mid [of m' R "[]" ?H] holds_mid [of m' R ?H ?S] holds_mid [of m' R "?H @ ?S" ?D]
      holds_mid [of m' R "?H @ ?S @ ?D" ?O] holds_mid [of m' R "?H @ ?S @ ?D @ ?O" ?G "[]"] all by (simp_all add: add_ac)
  have P: "RtlpQuerySecurityDescriptorPointers m' R = (if fst ow = 0 then 0 else R + ?so, if fst gr = 0 then 0 else R + ?sg,
      if fst sa = 0 then 0 else R + 20, if fst da = 0 then 0 else R + ?sd)"
    using relative_pointers [OF H(1), of "21 + n"] R Q(9,10) unfolding ne L by (simp add: n_def)
  have b: "R + ?so + unat (snd ow) < 4294901760" "R + ?sg + unat (snd gr) < 4294901760"
    "R + 20 + unat (snd sa) < 4294901760" "R + ?sd + unat (snd da) < 4294901760"
    using R unfolding L n_def by simp_all
  note O = sid_part_moved [OF H(4) Q(5,1) outside_above _ b(1) refl] and G = sid_part_moved [OF H(5) Q(6,2) outside_above _ b(2) refl]
  note S = acl_part_moved [OF H(2) Q(7,3) outside_above _ b(3) refl] and D = acl_part_moved [OF H(3) Q(8,4) outside_above _ b(4) refl]
  show "sd_ok m' R" using O(1) G(1) S(1) D(1) header_fields(1) [OF H(1)] by (simp add: sd_ok_def P Q(11))
  show "sd_view m' R = sd_view m Abs"
    using O(2) G(2) S(2) D(2) unfolding sd_view_def RtlpQuerySecurityDescriptor_def P q [unfolded RtlpQuerySecurityDescriptor_def]
    by simp
  show "sd_Control m' R = sd_Control m Abs OR SE_SELF_RELATIVE" by (rule header_fields(2) [OF H(1)])
  show "m' q = m q" if "q < R \<or> R + unat (RtlLengthSecurityDescriptor m Abs) \<le> q" for q
    unfolding m' using that L by (intro put_bytes_other) (auto simp: n_def)
qed

text \<open>Two ranges of addresses that do not meet.\<close>

definition apart :: "nat \<times> ULONG \<Rightarrow> nat \<times> ULONG \<Rightarrow> bool" where
  "apart P Q \<longleftrightarrow> outside (fst P) (unat (snd P)) (fst Q) (fst Q + unat (snd Q))"

definition all_apart :: "(nat \<times> ULONG) list \<Rightarrow> bool" where
  "all_apart = sorted_wrt apart"

text \<open>The buffers a caller passes for the parts of a descriptor.\<close>

definition part_buffer :: "nat \<Rightarrow> ULONG \<Rightarrow> bool" where
  "part_buffer p n \<longleftrightarrow> 0 < p \<and> p + unat n < 4294901760"

definition absolute_header :: "bytes \<Rightarrow> nat \<Rightarrow> nat \<Rightarrow> nat \<Rightarrow> nat \<Rightarrow> nat \<Rightarrow> nat \<Rightarrow> bytes" where
  "absolute_header m Rel Abs ow gr da sa =
     (let m = m(Abs := m Rel);
          m = m(Abs + 1 := m (Rel + 1));
          m = set_Control m Abs (sd_Control m Rel AND NOT SE_SELF_RELATIVE);
          m = set_Owner m Abs ow;
          m = set_Group m Abs gr;
          m = set_Dacl m Abs da
      in set_Sacl m Abs sa)"

lemma absolute_header_fields:
  assumes "outside Rel 20 Abs (Abs + 20)" "ow < 4294967296" "gr < 4294967296" "sa < 4294967296" "da < 4294967296"
  shows "absolute_header m Rel Abs ow gr da sa Abs = m Rel"
    "sd_Control (absolute_header m Rel Abs ow gr da sa) Abs = sd_Control m Rel AND NOT 0x8000"
    "sd_Owner (absolute_header m Rel Abs ow gr da sa) Abs = ow" "sd_Group (absolute_header m Rel Abs ow gr da sa) Abs = gr"
    "sd_Sacl (absolute_header m Rel Abs ow gr da sa) Abs = sa" "sd_Dacl (absolute_header m Rel Abs ow gr da sa) Abs = da"
    "q < Abs \<or> Abs + 20 \<le> q \<Longrightarrow> absolute_header m Rel Abs ow gr da sa q = m q"
proof -
  have "sd_Control (m(Abs := x, Abs + 1 := y)) Rel = sd_Control m Rel" for x y
    unfolding sd_Control_def by (rule read_USHORT_cong) (use assms(1) in \<open>auto simp: outside_def\<close>)
  then show "sd_Control (absolute_header m Rel Abs ow gr da sa) Abs = sd_Control m Rel AND NOT 0x8000"
    by (simp add: absolute_header_def Let_def)
  show "absolute_header m Rel Abs ow gr da sa Abs = m Rel"
    by (simp add: absolute_header_def Let_def set_field_other)
  show "sd_Owner (absolute_header m Rel Abs ow gr da sa) Abs = ow" "sd_Group (absolute_header m Rel Abs ow gr da sa) Abs = gr"
    "sd_Sacl (absolute_header m Rel Abs ow gr da sa) Abs = sa" "sd_Dacl (absolute_header m Rel Abs ow gr da sa) Abs = da"
    using assms(2-) by (simp_all add: absolute_header_def Let_def)
  show "q < Abs \<or> Abs + 20 \<le> q \<Longrightarrow> absolute_header m Rel Abs ow gr da sa q = m q"
    by (auto simp: absolute_header_def Let_def set_field_other)
qed

lemma put_part: "apart P (p, snd P') \<Longrightarrow> part_bytes (put_bytes m p (part_bytes m' P')) P = part_bytes m P"
  unfolding part_bytes_def by (rule bytes_at_put_bytes) (auto simp: apart_def outside_def)

lemma holds_part:
  "apart (q, snd Q) (p, snd P) \<Longrightarrow> holds (put_bytes m p (part_bytes m' P)) q (part_bytes m'' Q) = holds m q (part_bytes m'' Q)"
  by (rule holds_put_bytes_other) (auto simp: apart_def outside_def)

lemma to_absolute_view:
  assumes ok: "sd_ok m Rel" and rel: "sd_Control m Rel AND SE_SELF_RELATIVE \<noteq> 0"
    and q: "RtlpQuerySecurityDescriptor m Rel = (ow, gr, sa, da)"
    and pres: "fst ow \<noteq> 0" "fst gr \<noteq> 0" "fst sa \<noteq> 0" "fst da \<noteq> 0"
    and fit: "snd ow \<le> os" "snd gr \<le> gs" "snd sa \<le> ss" "snd da \<le> ds"
    and buf: "part_buffer O' (snd ow)" "part_buffer G' (snd gr)" "part_buffer S' (snd sa)" "part_buffer D' (snd da)"
    and src: "list_all (\<lambda>P. sd_apart m Rel (fst P) (fst P + unat (snd P)))
        [(O', snd ow), (G', snd gr), (D', snd da), (S', snd sa), (Abs, 20)]"
    and apart: "all_apart [(O', snd ow), (G', snd gr), (D', snd da), (S', snd sa), (Abs, 20)]"
    and eq: "RtlSelfRelativeToAbsoluteSD m Rel Abs D' S' O' G' (os, gs, ss, ds) = (st, m', sz)"
  shows "st = STATUS_SUCCESS" "sd_ok m' Abs" "sd_Control m' Abs = sd_Control m Rel AND NOT SE_SELF_RELATIVE" 
    "sd_view m' Abs = sd_view m Rel"
proof -
  note Q = sd_query [OF ok q]
  have A: "apart P R" if "P \<in> {ow, gr, sa, da, (Rel, 20)}"
      "R \<in> {(O', snd ow), (G', snd gr), (D', snd da), (S', snd sa), (Abs, 20)}" for P R
    using src that by (auto simp: sd_apart_def apart_def q)
  note B = apart [unfolded all_apart_def, simplified]
  let ?m1 = "put_bytes m O' (part_bytes m ow)"
  let ?m2 = "put_bytes ?m1 G' (part_bytes m gr)"
  let ?m3 = "put_bytes ?m2 D' (part_bytes m da)"
  let ?m4 = "put_bytes ?m3 S' (part_bytes m sa)"
  have P: "part_bytes ?m1 gr = part_bytes m gr" "part_bytes ?m2 da = part_bytes m da" "part_bytes ?m3 sa = part_bytes m sa"
    using A by (simp_all add: put_part)
  have nf: "\<not> os < snd ow" "\<not> gs < snd gr" "\<not> ss < snd sa" "\<not> ds < snd da" using fit by (simp_all add: not_less)
  have m': "m' = absolute_header ?m4 Rel Abs O' G' D' S'" and st: "st = STATUS_SUCCESS"
    using eq rel nf Q(11) unfolding RtlSelfRelativeToAbsoluteSD_def q
    by (simp_all add: split_beta memcpy_eq_put P [unfolded part_bytes_def] part_bytes_def absolute_header_def)
      (auto simp: Let_def P [unfolded part_bytes_def])
  show "st = STATUS_SUCCESS" by (fact st)
  have off: "x < p \<or> p + unat (snd P) \<le> x" if "apart (Rel, 20) (p, snd P)" "Rel \<le> x" "x < Rel + 20" for x p and P :: "nat \<times> ULONG"
    using that by (auto simp: apart_def outside_def)
  have same: "?m4 x = m x" if "Rel \<le> x" "x < Rel + 20" for x
    using off [OF A that, of O' ow] off [OF A that, of G' gr] off [OF A that, of D' da] off [OF A that, of S' sa]
    by (simp add: put_bytes_other)
  then have ctl: "sd_Control ?m4 Rel = sd_Control m Rel" unfolding sd_Control_def by (intro read_USHORT_cong) simp_all
  have "outside Rel 20 Abs (Abs + 20)" using A [of "(Rel, 20)" "(Abs, 20)"] by (simp add: apart_def)
  note f = absolute_header_fields [OF this, where m = ?m4 and ow = O' and gr = G' and sa = S' and da = D', folded m']
  have b: "O' < 4294967296" "G' < 4294967296" "S' < 4294967296" "D' < 4294967296" "0 < O'" "0 < G'" "0 < S'" "0 < D'"
    "O' + unat (snd ow) < 4294901760" "G' + unat (snd gr) < 4294901760" "S' + unat (snd sa) < 4294901760" "D' + unat (snd da) < 4294901760"
    using buf by (simp_all add: part_buffer_def)
  have h4: "holds ?m4 O' (part_bytes m ow)" "holds ?m4 G' (part_bytes m gr)" "holds ?m4 D' (part_bytes m da)" "holds ?m4 S' (part_bytes m sa)"
    using B by (simp_all add: holds_part holds_put_bytes)
  have hdr: "holds m' p (part_bytes m P)" if "holds ?m4 p (part_bytes m P)" "apart (p, snd P) (Abs, 20)" for p P
    by (rule holds_cong [OF _ that(1)], rule f(7) [OF b(1-4)]) (use that(2) in \<open>auto simp: apart_def outside_def\<close>)
  have out: "outside O' (unat (snd ow)) Abs (Abs + 20)" "outside G' (unat (snd gr)) Abs (Abs + 20)"
    "outside S' (unat (snd sa)) Abs (Abs + 20)" "outside D' (unat (snd da)) Abs (Abs + 20)"
    using B by (simp_all add: apart_def)
  show "sd_Control m' Abs = sd_Control m Rel AND NOT SE_SELF_RELATIVE" using f(2) [OF b(1-4)] ctl by simp
  have PP: "RtlpQuerySecurityDescriptorPointers m' Abs = (O', G', S', D')"
    using f [OF b(1-4)] Q(9,10) pres ctl by (simp add: pointers_absolute control_bits)
  have "holds m' O' (part_bytes m ow)" "holds m' G' (part_bytes m gr)" "holds m' S' (part_bytes m sa)" "holds m' D' (part_bytes m da)"
    using h4 B by (blast intro: hdr)+
  note ow = sid_part_moved [OF this(1) Q(5,1) out(1) b(5) b(9), of O'] and gr = sid_part_moved [OF this(2) Q(6,2) out(2) b(6) b(10), of G']
    and sa = acl_part_moved [OF this(3) Q(7,3) out(3) b(7) b(11), of S'] and da = acl_part_moved [OF this(4) Q(8,4) out(4) b(8) b(12), of D']
  have rev: "m' Abs = 1" using f(1) [OF b(1-4)] same [of Rel] Q(11) by simp
  show "sd_ok m' Abs" using ow(1) gr(1) sa(1) da(1) pres rev by (simp add: sd_ok_def PP)
  show "sd_view m' Abs = sd_view m Rel"
    using ow(2) gr(2) sa(2) da(2) pres b(5-8) unfolding sd_view_def RtlpQuerySecurityDescriptor_def PP
      q [unfolded RtlpQuerySecurityDescriptor_def] by simp
qed

lemma RtlCreateSecurityDescriptor_ok:
  "RtlCreateSecurityDescriptor m sd 1 = (st, m') \<Longrightarrow> st = STATUS_SUCCESS \<and> sd_ok m' sd \<and> sd_Control m' sd = 0"
proof -
  assume "RtlCreateSecurityDescriptor m sd 1 = (st, m')"
  then have m': "m' = set_Dacl (set_Sacl (set_Group (set_Owner (set_Control (m(sd := 1, sd + 1 := 0)) sd 0) sd 0) sd 0) sd 0) sd 0"
    and st: "st = STATUS_SUCCESS" by (auto simp: RtlCreateSecurityDescriptor_def Let_def)
  have c: "sd_Control m' sd = 0" "sd_Owner m' sd = 0" "sd_Group m' sd = 0" by (simp_all add: m')
  have "m' sd = 1" by (simp add: m' set_field_other)
  with c st show ?thesis by (simp add: sd_ok_def pointers_absolute sid_part_def acl_part_def)
qed

definition sd_example :: "USHORT \<Rightarrow> ULONG \<Rightarrow> bytes" where
  "sd_example c b = put_bytes (\<lambda>_. 0) 0x1000 (sd_header 1 0 c (b + 20) (b + 32) (b + 44) (b + 52) @
     [1, 1, 0, 0, 0, 0, 0, 5, 18, 0, 0, 0] @ [1, 1, 0, 0, 0, 0, 0, 5, 18, 0, 0, 0] @
     [2, 0, 8, 0, 0, 0, 0, 0] @ [2, 0, 8, 0, 0, 0, 0, 0])"

lemma holds_Cons: "holds m p (x # xs) \<longleftrightarrow> m p = x \<and> holds m (p + 1) xs"
  using holds_append [of m p "[x]" xs] by (simp add: holds_iff)

lemma empty_acl_holds:
  assumes "holds m p [2, 0, 8, 0, 0, 0, 0, 0]" "0 < p" "p + 8 < 4294901760"
  shows "acl_holds m p []" "AclSize m p = 8"
proof -
  have "m p = 2" "m (p + 2) = 8" "m (p + 2 + 1) = 0" "m (p + 4) = 0" "m (p + 4 + 1) = 0"
    using assms(1) by (simp_all add: holds_Cons numeral_eq_Suc)
  then show "AclSize m p = 8" "acl_holds m p []" using assms(2,3)
    by (simp_all add: acl_holds_def AclSize_def AceCount_def read_USHORT_def del: add_2_eq_Suc add_2_eq_Suc' add_Suc_right add_Suc)
qed

lemma system_sid_holds:
  assumes "holds m p [1, 1, 0, 0, 0, 0, 0, 5, 18, 0, 0, 0]"
  shows "RtlValidSid m p" "RtlLengthSid m p = 12"
proof -
  have "m p = 1" "m (p + 1) = 1" using assms by (simp_all add: holds_Cons)
  then show "RtlValidSid m p" "RtlLengthSid m p = 12" by (simp_all add: RtlValidSid_def RtlLengthSid_def)
qed

lemma sd_example_holds:
  "holds (sd_example c b) 0x1000 (sd_header 1 0 c (b + 20) (b + 32) (b + 44) (b + 52))"
  "RtlValidSid (sd_example c b) 0x1014" "RtlLengthSid (sd_example c b) 0x1014 = 12"
  "RtlValidSid (sd_example c b) 0x1020" "RtlLengthSid (sd_example c b) 0x1020 = 12"
  "acl_holds (sd_example c b) 0x102C []" "AclSize (sd_example c b) 0x102C = 8"
  "acl_holds (sd_example c b) 0x1034 []" "AclSize (sd_example c b) 0x1034 = 8"
proof -
  let ?h = "sd_header 1 0 c (b + 20) (b + 32) (b + 44) (b + 52)"
  have all: "holds (sd_example c b) 0x1000 (?h @ [1, 1, 0, 0, 0, 0, 0, 5, 18, 0, 0, 0] @ [1, 1, 0, 0, 0, 0, 0, 5, 18, 0, 0, 0] @
     [2, 0, 8, 0, 0, 0, 0, 0] @ [2, 0, 8, 0, 0, 0, 0, 0])"
    unfolding sd_example_def by (rule holds_put_bytes)
  note [simp del] = append.simps append_assoc
  have h: "holds (sd_example c b) 0x1000 ?h" "holds (sd_example c b) 0x1014 [1, 1, 0, 0, 0, 0, 0, 5, 18, 0, 0, 0]"
    "holds (sd_example c b) 0x1020 [1, 1, 0, 0, 0, 0, 0, 5, 18, 0, 0, 0]"
    "holds (sd_example c b) 0x102C [2, 0, 8, 0, 0, 0, 0, 0]" "holds (sd_example c b) 0x1034 [2, 0, 8, 0, 0, 0, 0, 0]"
    using all by (simp_all add: holds_append)
  show "holds (sd_example c b) 0x1000 ?h" by (fact h(1))
  show "RtlValidSid (sd_example c b) 0x1014" "RtlLengthSid (sd_example c b) 0x1014 = 12"
    "RtlValidSid (sd_example c b) 0x1020" "RtlLengthSid (sd_example c b) 0x1020 = 12"
    by (fact system_sid_holds [OF h(2)] system_sid_holds [OF h(3)])+
  show "acl_holds (sd_example c b) 0x102C []" "AclSize (sd_example c b) 0x102C = 8"
    using empty_acl_holds [OF h(4)] by simp_all
  show "acl_holds (sd_example c b) 0x1034 []" "AclSize (sd_example c b) 0x1034 = 8"
    using empty_acl_holds [OF h(5)] by simp_all
qed

lemma sd_example_query:
  assumes "c = 0x14 \<and> b = 0x1000 \<or> c = 0x8014 \<and> b = 0"
  shows "RtlpQuerySecurityDescriptor (sd_example c b) 0x1000 = ((0x1014, 12), (0x1020, 12), (0x102C, 8), (0x1034, 8))"
    "sd_ok (sd_example c b) 0x1000" "sd_Control (sd_example c b) 0x1000 = c"
    "RtlLengthSecurityDescriptor (sd_example c b) 0x1000 = 60"
proof -
  note E = sd_example_holds [of c b]
  note f = header_fields [OF E(1)]
  have P: "RtlpQuerySecurityDescriptorPointers (sd_example c b) 0x1000 = (0x1014, 0x1020, 0x102C, 0x1034)"
    using assms unfolding RtlpQuerySecurityDescriptorPointers_def f by (auto simp: ptr_add_def)
  show "RtlpQuerySecurityDescriptor (sd_example c b) 0x1000 = ((0x1014, 12), (0x1020, 12), (0x102C, 8), (0x1034, 8))"
    by (simp add: RtlpQuerySecurityDescriptor_def P E ROUND_UP4_def)
  then show "RtlLengthSecurityDescriptor (sd_example c b) 0x1000 = 60" by (simp add: length_query)
  show "sd_Control (sd_example c b) 0x1000 = c" by (rule f)
  show "sd_ok (sd_example c b) 0x1000"
    by (auto simp: sd_ok_def P f E sid_part_def acl_part_def outside_def intro: exI [of _ "[]"])
qed

lemma get_acl_present:
  "(case RtlGetDaclSecurityDescriptor m sd of (st, _, r) \<Rightarrow> (st, r)) = (st', Some x) \<longleftrightarrow>
     RtlGetDaclSecurityDescriptor m sd = (st', Some True, Some x)"
  "(case RtlGetSaclSecurityDescriptor m sd of (st, _, r) \<Rightarrow> (st, r)) = (st', Some x) \<longleftrightarrow>
     RtlGetSaclSecurityDescriptor m sd = (st', Some True, Some x)"
  by (auto simp: RtlGetDaclSecurityDescriptor_def RtlGetSaclSecurityDescriptor_def split: prod.splits if_splits)

section \<open>Properties\<close>

text \<open>
  C28: the setters keep an absolute descriptor well formed. On a descriptor that is valid
  part by part, setting the owner, the group, the DACL or the SACL to a valid object (or to
  \<open>NULL\<close>) succeeds, leaves a descriptor that is again valid part by part and absolute, and
  the matching getter returns the object and the defaulted flag that were set.
\<close>

theorem sd_setters_keep_type:
  assumes "sd_ok m sd" and "sd_Control m sd AND SE_SELF_RELATIVE = 0" and "sid_part m sd Sid" and "acl_part m sd Acl"
  shows "(\<exists>m'. RtlSetOwnerSecurityDescriptor m sd Sid d = (STATUS_SUCCESS, m') \<and> sd_ok m' sd \<and>
      sd_Control m' sd AND SE_SELF_RELATIVE = 0 \<and> RtlGetOwnerSecurityDescriptor m' sd = (STATUS_SUCCESS, Some (Sid, d))) \<and>
    (\<exists>m'. RtlSetGroupSecurityDescriptor m sd Sid d = (STATUS_SUCCESS, m') \<and> sd_ok m' sd \<and>
      sd_Control m' sd AND SE_SELF_RELATIVE = 0 \<and> RtlGetGroupSecurityDescriptor m' sd = (STATUS_SUCCESS, Some (Sid, d))) \<and>
    (\<exists>m'. RtlSetDaclSecurityDescriptor m sd True Acl d = (STATUS_SUCCESS, m') \<and> sd_ok m' sd \<and>
      sd_Control m' sd AND SE_SELF_RELATIVE = 0 \<and>
      RtlGetDaclSecurityDescriptor m' sd = (STATUS_SUCCESS, Some True, Some (Acl, d))) \<and>
    (\<exists>m'. RtlSetSaclSecurityDescriptor m sd True Acl d = (STATUS_SUCCESS, m') \<and> sd_ok m' sd \<and>
      sd_Control m' sd AND SE_SELF_RELATIVE = 0 \<and>
      RtlGetSaclSecurityDescriptor m' sd = (STATUS_SUCCESS, Some True, Some (Acl, d)))"
  using owner.set_part_ok [OF assms(1-3), of d] group.set_part_ok [OF assms(1-3), of d]
    dacl.set_part_ok [OF assms(1,2,4), of d] sacl.set_part_ok [OF assms(1,2,4), of d]
  unfolding get_acl_present by (intro conjI; blast)

theorem sd_setters_keep_type_witness:
  "(\<exists>m'. RtlSetOwnerSecurityDescriptor (sd_example 0x14 0x1000) 0x1000 0x1020 True = (STATUS_SUCCESS, m') \<and>
      RtlGetOwnerSecurityDescriptor m' 0x1000 = (STATUS_SUCCESS, Some (0x1020, True))) \<and>
   (\<exists>m'. RtlSetDaclSecurityDescriptor (sd_example 0x14 0x1000) 0x1000 True 0x102C False = (STATUS_SUCCESS, m') \<and>
      RtlGetDaclSecurityDescriptor m' 0x1000 = (STATUS_SUCCESS, Some True, Some (0x102C, False)))"
proof -
  note E = sd_example_query [of "0x14" "0x1000", simplified] and H = sd_example_holds [of "0x14" "0x1000"]
  have "sid_part (sd_example 0x14 0x1000) 0x1000 0x1020" "acl_part (sd_example 0x14 0x1000) 0x1000 0x102C"
    by (auto simp: sid_part_def acl_part_def H outside_def intro: exI [of _ "[]"])
  from sd_setters_keep_type [OF E(2) _ this, of True] sd_setters_keep_type [OF E(2) _ this, of False]
  show ?thesis by (auto simp: E(3))
qed

text \<open>
  C5: \<open>RtlMakeSelfRelativeSD\<close> refines the identity on what a descriptor says. For a
  descriptor that is valid part by part, absolute or not, and a buffer of at least
  \<open>RtlLengthSecurityDescriptor\<close> bytes that meets none of its parts, the call succeeds; the
  buffer then holds a descriptor that is valid part by part, is marked self-relative, keeps
  the other control bits, and whose owner, group, SACL and DACL have the bytes they had
  (absent parts stay absent). No byte outside the measured length changes.
\<close>

theorem RtlMakeSelfRelativeSD_view:
  assumes "sd_ok m Abs" and "RtlLengthSecurityDescriptor m Abs \<le> BufferLength"
    and "Rel + unat (RtlLengthSecurityDescriptor m Abs) < 4294901760"
    and "sd_apart m Abs Rel (Rel + unat (RtlLengthSecurityDescriptor m Abs))"
  shows "\<exists>m'. RtlMakeSelfRelativeSD m Abs Rel BufferLength = (STATUS_SUCCESS, m', BufferLength) \<and> sd_ok m' Rel \<and>
    sd_view m' Rel = sd_view m Abs \<and> sd_Control m' Rel = sd_Control m Abs OR SE_SELF_RELATIVE \<and>
    (\<forall>q. q < Rel \<or> Rel + unat (RtlLengthSecurityDescriptor m Abs) \<le> q \<longrightarrow> m' q = m q)"
proof -
  obtain st m' len' where eq: "RtlMakeSelfRelativeSD m Abs Rel BufferLength = (st, m', len')" by (metis prod_cases3)
  from make_relative_view [OF assms eq] eq show ?thesis by blast
qed

theorem RtlMakeSelfRelativeSD_view_witness:
  "\<exists>m'. RtlMakeSelfRelativeSD (sd_example 0x14 0x1000) 0x1000 0x2000 60 = (STATUS_SUCCESS, m', 60) \<and> sd_ok m' 0x2000 \<and>
    sd_view m' 0x2000 = sd_view (sd_example 0x14 0x1000) 0x1000 \<and> sd_Control m' 0x2000 = 0x8014"
proof -
  note E = sd_example_query [of "0x14" "0x1000", simplified]
  have "sd_apart (sd_example 0x14 0x1000) 0x1000 0x2000 (0x2000 + 60)" by (simp add: sd_apart_def E outside_def)
  with RtlMakeSelfRelativeSD_view [OF E(2), of 60 "0x2000"] E(3,4) show ?thesis by auto
qed

text \<open>
  C19: \<open>RtlSelfRelativeToAbsoluteSD\<close> undoes it. For a valid self-relative descriptor that has
  its four parts, and buffers that are large enough and meet neither each other nor the
  descriptor, the call succeeds, the header at \<open>Abs\<close> is a valid absolute descriptor with the
  other control bits kept, and it says what the self-relative one says.
\<close>

theorem RtlSelfRelativeToAbsoluteSD_view:
  assumes "sd_ok m Rel" and "sd_Control m Rel AND SE_SELF_RELATIVE \<noteq> 0"
    and "RtlpQuerySecurityDescriptor m Rel = (ow, gr, sa, da)"
    and "fst ow \<noteq> 0" "fst gr \<noteq> 0" "fst sa \<noteq> 0" "fst da \<noteq> 0"
    and "snd ow \<le> OwnerSize" "snd gr \<le> GroupSize" "snd sa \<le> SaclSize" "snd da \<le> DaclSize"
    and "part_buffer Owner (snd ow)" "part_buffer Group (snd gr)" "part_buffer Sacl (snd sa)" "part_buffer Dacl (snd da)"
    and "list_all (\<lambda>P. sd_apart m Rel (fst P) (fst P + unat (snd P)))
        [(Owner, snd ow), (Group, snd gr), (Dacl, snd da), (Sacl, snd sa), (Abs, 20)]"
    and "all_apart [(Owner, snd ow), (Group, snd gr), (Dacl, snd da), (Sacl, snd sa), (Abs, 20)]"
  shows "\<exists>m' sizes. RtlSelfRelativeToAbsoluteSD m Rel Abs Dacl Sacl Owner Group (OwnerSize, GroupSize, SaclSize, DaclSize) =
      (STATUS_SUCCESS, m', sizes) \<and> sd_ok m' Abs \<and> sd_Control m' Abs = sd_Control m Rel AND NOT SE_SELF_RELATIVE \<and>
    sd_view m' Abs = sd_view m Rel"
proof -
  obtain st m' sizes where eq: "RtlSelfRelativeToAbsoluteSD m Rel Abs Dacl Sacl Owner Group
      (OwnerSize, GroupSize, SaclSize, DaclSize) = (st, m', sizes)" by (metis prod_cases3)
  from to_absolute_view [OF assms eq] eq show ?thesis by blast
qed

theorem RtlSelfRelativeToAbsoluteSD_view_witness:
  "\<exists>m' sizes. RtlSelfRelativeToAbsoluteSD (sd_example 0x8014 0) 0x1000 0x2000 0x3000 0x4000 0x5000 0x6000 (12, 12, 8, 8) =
      (STATUS_SUCCESS, m', sizes) \<and> sd_view m' 0x2000 = sd_view (sd_example 0x8014 0) 0x1000"
proof -
  note E = sd_example_query [of "0x8014" 0, simplified]
  from RtlSelfRelativeToAbsoluteSD_view [OF E(2) _ E(1), of 12 12 8 8 "0x5000" "0x6000" "0x4000" "0x3000" "0x2000"]
  show ?thesis by (auto simp: E(3) part_buffer_def sd_apart_def E(1) all_apart_def apart_def outside_def)
qed

end
