(* ===== verification/Se_Access.thy ===== *)
theory Se_Access
  imports Rtl_Sd
begin

text \<open>
  The access check of the security reference monitor, \<open>ntoskrnl/se/semgr.c\<close>, the privilege
  check it uses, \<open>ntoskrnl/se/priv.c\<close>, and the access masks of \<open>lib/rtl/access.c\<close>. Descriptors,
  ACLs and SIDs are those of the theories on the runtime library, in the same memory.
  The debug counter \<open>SidInTokenCalls\<close> and the locks of the subject context are left out.
\<close>

section \<open>Access masks\<close>

abbreviation (input) READ_CONTROL :: ACCESS_MASK where "READ_CONTROL \<equiv> 0x00020000"
abbreviation (input) WRITE_DAC :: ACCESS_MASK where "WRITE_DAC \<equiv> 0x00040000"
abbreviation (input) WRITE_OWNER :: ACCESS_MASK where "WRITE_OWNER \<equiv> 0x00080000"
abbreviation (input) ACCESS_SYSTEM_SECURITY :: ACCESS_MASK where "ACCESS_SYSTEM_SECURITY \<equiv> 0x01000000"
abbreviation (input) MAXIMUM_ALLOWED :: ACCESS_MASK where "MAXIMUM_ALLOWED \<equiv> 0x02000000"
abbreviation (input) GENERIC_ALL :: ACCESS_MASK where "GENERIC_ALL \<equiv> 0x10000000"
abbreviation (input) GENERIC_EXECUTE :: ACCESS_MASK where "GENERIC_EXECUTE \<equiv> 0x20000000"
abbreviation (input) GENERIC_WRITE :: ACCESS_MASK where "GENERIC_WRITE \<equiv> 0x40000000"
abbreviation (input) GENERIC_READ :: ACCESS_MASK where "GENERIC_READ \<equiv> 0x80000000"

record GENERIC_MAPPING =
  GenericRead :: ACCESS_MASK
  GenericWrite :: ACCESS_MASK
  GenericExecute :: ACCESS_MASK
  GenericAll :: ACCESS_MASK

definition RtlAreAllAccessesGranted :: "ACCESS_MASK \<Rightarrow> ACCESS_MASK \<Rightarrow> bool" where
  "RtlAreAllAccessesGranted Granted Desired \<longleftrightarrow> Granted AND Desired = Desired"

definition RtlAreAnyAccessesGranted :: "ACCESS_MASK \<Rightarrow> ACCESS_MASK \<Rightarrow> bool" where
  "RtlAreAnyAccessesGranted Granted Desired \<longleftrightarrow> Granted AND Desired \<noteq> 0"

definition RtlMapGenericMask :: "GENERIC_MAPPING \<Rightarrow> ACCESS_MASK \<Rightarrow> ACCESS_MASK" where
  "RtlMapGenericMask gm AccessMask =
     (let AccessMask = (if AccessMask AND GENERIC_READ \<noteq> 0 then AccessMask OR GenericRead gm else AccessMask);
          AccessMask = (if AccessMask AND GENERIC_WRITE \<noteq> 0 then AccessMask OR GenericWrite gm else AccessMask);
          AccessMask = (if AccessMask AND GENERIC_EXECUTE \<noteq> 0 then AccessMask OR GenericExecute gm else AccessMask);
          AccessMask = (if AccessMask AND GENERIC_ALL \<noteq> 0 then AccessMask OR GenericAll gm else AccessMask)
      in AccessMask AND NOT (GENERIC_READ OR GENERIC_WRITE OR GENERIC_EXECUTE OR GENERIC_ALL))"

definition SeQuerySecurityAccessMask :: "ULONG \<Rightarrow> ACCESS_MASK" where
  "SeQuerySecurityAccessMask SecurityInformation =
     (let DesiredAccess = 0;
          DesiredAccess = (if SecurityInformation AND (OWNER_SECURITY_INFORMATION OR GROUP_SECURITY_INFORMATION OR
              DACL_SECURITY_INFORMATION) \<noteq> 0 then DesiredAccess OR READ_CONTROL else DesiredAccess)
      in if SecurityInformation AND SACL_SECURITY_INFORMATION \<noteq> 0 then DesiredAccess OR ACCESS_SYSTEM_SECURITY
         else DesiredAccess)"

definition SeSetSecurityAccessMask :: "ULONG \<Rightarrow> ACCESS_MASK" where
  "SeSetSecurityAccessMask SecurityInformation =
     (let DesiredAccess = 0;
          DesiredAccess = (if SecurityInformation AND (OWNER_SECURITY_INFORMATION OR GROUP_SECURITY_INFORMATION) \<noteq> 0
            then DesiredAccess OR WRITE_OWNER else DesiredAccess);
          DesiredAccess = (if SecurityInformation AND DACL_SECURITY_INFORMATION \<noteq> 0 then DesiredAccess OR WRITE_DAC
            else DesiredAccess)
      in if SecurityInformation AND SACL_SECURITY_INFORMATION \<noteq> 0 then DesiredAccess OR ACCESS_SYSTEM_SECURITY
         else DesiredAccess)"

section \<open>Tokens and privileges\<close>

datatype KPROCESSOR_MODE = KernelMode | UserMode

datatype TOKEN_TYPE = TokenPrimary | TokenImpersonation

datatype SECURITY_IMPERSONATION_LEVEL =
  SecurityAnonymous | SecurityIdentification | SecurityImpersonation | SecurityDelegation

primrec level :: "SECURITY_IMPERSONATION_LEVEL \<Rightarrow> nat" where
  "level SecurityAnonymous = 0"
| "level SecurityIdentification = 1"
| "level SecurityImpersonation = 2"
| "level SecurityDelegation = 3"

abbreviation (input) SE_GROUP_ENABLED :: ULONG where "SE_GROUP_ENABLED \<equiv> 4"
abbreviation (input) SE_PRIVILEGE_ENABLED :: ULONG where "SE_PRIVILEGE_ENABLED \<equiv> 2"
abbreviation (input) SE_PRIVILEGE_USED_FOR_ACCESS :: ULONG where "SE_PRIVILEGE_USED_FOR_ACCESS \<equiv> 0x80000000"
abbreviation (input) PRIVILEGE_SET_ALL_NECESSARY :: ULONG where "PRIVILEGE_SET_ALL_NECESSARY \<equiv> 1"

record LUID =
  LowPart :: ULONG
  HighPart :: ULONG

record LUID_AND_ATTRIBUTES =
  Luid :: LUID
  PrivilegeAttributes :: ULONG

text \<open>The fields of \<open>TOKEN\<close> that the checks read; each array is a list with its count.\<close>

record TOKEN =
  UserAndGroups :: "SID_AND_ATTRIBUTES list"
  TokenPrivileges :: "LUID_AND_ATTRIBUTES list"
  TokenType :: TOKEN_TYPE
  TokenImpersonationLevel :: SECURITY_IMPERSONATION_LEVEL

text \<open>\<open>PrimaryToken\<close> is only read when \<open>ClientToken\<close> is \<open>NULL\<close>, and is not \<open>NULL\<close> then.\<close>

record SECURITY_SUBJECT_CONTEXT =
  ClientToken :: "TOKEN option"
  ImpersonationLevel :: SECURITY_IMPERSONATION_LEVEL
  PrimaryToken :: "TOKEN option"

definition SeSecurityPrivilege :: LUID where
  "SeSecurityPrivilege = \<lparr>LowPart = 8, HighPart = 0\<rparr>"

definition SeTakeOwnershipPrivilege :: LUID where
  "SeTakeOwnershipPrivilege = \<lparr>LowPart = 9, HighPart = 0\<rparr>"

text \<open>The inner loop: the attributes of the first privilege of the token with the LUID.\<close>

fun find_privilege :: "LUID_AND_ATTRIBUTES list \<Rightarrow> LUID \<Rightarrow> ULONG option" where
  "find_privilege [] luid = None"
| "find_privilege (t # ts) luid =
     (if LowPart (Luid t) = LowPart luid \<and> HighPart (Luid t) = HighPart luid then Some (PrivilegeAttributes t)
      else find_privilege ts luid)"

text \<open>The outer loop, over the requested privileges; it returns what is still required.\<close>

fun privilege_loop :: "TOKEN \<Rightarrow> LUID_AND_ATTRIBUTES list \<Rightarrow> ULONG \<Rightarrow> ULONG \<times> LUID_AND_ATTRIBUTES list" where
  "privilege_loop Token [] Required = (Required, [])"
| "privilege_loop Token (p # ps) Required =
     (if \<not> Required > 0 then (Required, p # ps)
      else
        let (p, Required) = (case find_privilege (TokenPrivileges Token) (Luid p) of
               None \<Rightarrow> (p, Required)
             | Some attrs \<Rightarrow>
                 if attrs AND SE_PRIVILEGE_ENABLED \<noteq> 0 then
                   (p\<lparr>PrivilegeAttributes := PrivilegeAttributes p OR SE_PRIVILEGE_USED_FOR_ACCESS\<rparr>, Required - 1)
                 else (p, Required));
            (Required, ps) = privilege_loop Token ps Required
        in (Required, p # ps))"

definition SepPrivilegeCheck :: "TOKEN \<Rightarrow> LUID_AND_ATTRIBUTES list \<Rightarrow> ULONG \<Rightarrow> KPROCESSOR_MODE \<Rightarrow>
    bool \<times> LUID_AND_ATTRIBUTES list" where
  "SepPrivilegeCheck Token Privileges PrivilegeControl PreviousMode =
     (if PreviousMode = KernelMode then (True, Privileges)
      else
        let Required = (if PrivilegeControl AND PRIVILEGE_SET_ALL_NECESSARY \<noteq> 0 then of_nat (length Privileges) else 1);
            (Required, Privileges) = privilege_loop Token Privileges Required
        in (Required = 0, Privileges))"

definition single_privilege :: "LUID \<Rightarrow> LUID_AND_ATTRIBUTES list" where
  "single_privilege luid = [\<lparr>Luid = luid, PrivilegeAttributes = SE_PRIVILEGE_ENABLED\<rparr>]"

definition SePrivilegeCheck :: "LUID_AND_ATTRIBUTES list \<Rightarrow> ULONG \<Rightarrow> SECURITY_SUBJECT_CONTEXT \<Rightarrow> KPROCESSOR_MODE \<Rightarrow>
    bool \<times> LUID_AND_ATTRIBUTES list" where
  "SePrivilegeCheck Privileges Control SubjectContext PreviousMode =
     (case ClientToken SubjectContext of
        None \<Rightarrow> SepPrivilegeCheck (the (PrimaryToken SubjectContext)) Privileges Control PreviousMode
      | Some Token \<Rightarrow>
          if level (ImpersonationLevel SubjectContext) < 2 then (False, Privileges)
          else SepPrivilegeCheck Token Privileges Control PreviousMode)"

text \<open>\<open>SubjectContext\<close> is what \<open>SeCaptureSubjectContext\<close> captures.\<close>

definition SeSinglePrivilegeCheck :: "SECURITY_SUBJECT_CONTEXT \<Rightarrow> LUID \<Rightarrow> KPROCESSOR_MODE \<Rightarrow> bool" where
  "SeSinglePrivilegeCheck SubjectContext PrivilegeValue PreviousMode =
     fst (SePrivilegeCheck (single_privilege PrivilegeValue) PRIVILEGE_SET_ALL_NECESSARY SubjectContext PreviousMode)"

section \<open>Access checks\<close>

fun sid_in_token_loop :: "bytes \<Rightarrow> nat \<Rightarrow> nat \<Rightarrow> SID_AND_ATTRIBUTES list \<Rightarrow> bool" where
  "sid_in_token_loop m Sid i [] = False"
| "sid_in_token_loop m Sid i (g # gs) =
     (if RtlEqualSid m Sid (EntrySid g) then i = 0 \<or> Attributes g AND SE_GROUP_ENABLED \<noteq> 0
      else sid_in_token_loop m Sid (Suc i) gs)"

definition SepSidInToken :: "bytes \<Rightarrow> TOKEN \<Rightarrow> nat \<Rightarrow> bool" where
  "SepSidInToken m Token Sid = sid_in_token_loop m Sid 0 (UserAndGroups Token)"

definition SepTokenIsOwner :: "bytes \<Rightarrow> TOKEN \<Rightarrow> nat \<Rightarrow> bool" where
  "SepTokenIsOwner m Token sd =
     (case RtlGetOwnerSecurityDescriptor m sd of
        (Status, Some (Sid, _)) \<Rightarrow> NT_SUCCESS Status \<and> Sid \<noteq> 0 \<and> SepSidInToken m Token Sid
      | (_, None) \<Rightarrow> False)"

abbreviation (input) INHERIT_ONLY_ACE :: UCHAR where "INHERIT_ONLY_ACE \<equiv> 8"

text \<open>
  The two loops over the DACL. The first collects the rights that are granted and denied
  to a caller that asks for \<open>MAXIMUM_ALLOWED\<close>; the second, as built with
  \<open>OLD_ACCESS_CHECK\<close>, is \<open>None\<close> where the routine denies access.
\<close>

fun max_allowed_loop :: "bytes \<Rightarrow> TOKEN \<Rightarrow> GENERIC_MAPPING \<Rightarrow> nat \<Rightarrow> nat \<Rightarrow> ACCESS_MASK \<Rightarrow> ACCESS_MASK \<Rightarrow>
    ACCESS_MASK \<times> ACCESS_MASK" where
  "max_allowed_loop m Token gm 0 CurrentAce TempGrantedAccess TempDeniedAccess = (TempGrantedAccess, TempDeniedAccess)"
| "max_allowed_loop m Token gm (Suc left) CurrentAce TempGrantedAccess TempDeniedAccess =
     (let Sid = CurrentAce + 8;
          TempAccess = RtlMapGenericMask gm (read_ULONG m (CurrentAce + 4));
          (TempGrantedAccess, TempDeniedAccess) =
            (if m (CurrentAce + 1) AND INHERIT_ONLY_ACE = 0 then
               (if m CurrentAce = ucast ACCESS_DENIED_ACE_TYPE then
                  (if SepSidInToken m Token Sid then
                     (TempGrantedAccess, TempDeniedAccess OR (TempAccess AND NOT TempGrantedAccess))
                   else (TempGrantedAccess, TempDeniedAccess))
                else if m CurrentAce = ucast ACCESS_ALLOWED_ACE_TYPE then
                  (if SepSidInToken m Token Sid then
                     (TempGrantedAccess OR (TempAccess AND NOT TempDeniedAccess), TempDeniedAccess)
                   else (TempGrantedAccess, TempDeniedAccess))
                else (TempGrantedAccess, TempDeniedAccess))
             else (TempGrantedAccess, TempDeniedAccess))
      in max_allowed_loop m Token gm left (next_ace m CurrentAce) TempGrantedAccess TempDeniedAccess)"

fun dacl_loop :: "bytes \<Rightarrow> TOKEN \<Rightarrow> GENERIC_MAPPING \<Rightarrow> nat \<Rightarrow> nat \<Rightarrow> ACCESS_MASK \<Rightarrow> ACCESS_MASK option" where
  "dacl_loop m Token gm 0 CurrentAce CurrentAccess = Some CurrentAccess"
| "dacl_loop m Token gm (Suc left) CurrentAce CurrentAccess =
     (let Sid = CurrentAce + 8
      in if m (CurrentAce + 1) AND INHERIT_ONLY_ACE = 0 \<and> m CurrentAce = ucast ACCESS_DENIED_ACE_TYPE \<and>
            SepSidInToken m Token Sid then None
         else
           let CurrentAccess =
             (if m (CurrentAce + 1) AND INHERIT_ONLY_ACE = 0 \<and> m CurrentAce = ucast ACCESS_ALLOWED_ACE_TYPE \<and>
                 SepSidInToken m Token Sid
              then CurrentAccess OR RtlMapGenericMask gm (read_ULONG m (CurrentAce + 4)) else CurrentAccess)
           in dacl_loop m Token gm left (next_ace m CurrentAce) CurrentAccess)"

text \<open>
  The outcome of a check: the result, \<open>*GrantedAccess\<close> (\<open>None\<close> where it is not written),
  and \<open>*AccessStatus\<close>. \<open>*Privileges\<close> is set to \<open>NULL\<close> on one path and not written on the
  others; \<open>PrivilegesCleared\<close> records which.
\<close>

record ACCESS_RESULT =
  Allowed :: bool
  GrantedAccess :: "ACCESS_MASK option"
  AccessStatus :: NTSTATUS
  PrivilegesCleared :: bool

definition grant :: "ACCESS_MASK \<Rightarrow> ACCESS_RESULT" where
  "grant a = \<lparr>Allowed = True, GrantedAccess = Some a, AccessStatus = STATUS_SUCCESS, PrivilegesCleared = False\<rparr>"

definition deny :: "ACCESS_MASK option \<Rightarrow> NTSTATUS \<Rightarrow> ACCESS_RESULT" where
  "deny a st = \<lparr>Allowed = False, GrantedAccess = a, AccessStatus = st, PrivilegesCleared = False\<rparr>"

definition subject_token :: "SECURITY_SUBJECT_CONTEXT \<Rightarrow> TOKEN" where
  "subject_token Subject = (case ClientToken Subject of Some t \<Rightarrow> t | None \<Rightarrow> the (PrimaryToken Subject))"

definition privilege_held :: "TOKEN \<Rightarrow> LUID \<Rightarrow> KPROCESSOR_MODE \<Rightarrow> bool" where
  "privilege_held Token luid AccessMode =
     fst (SepPrivilegeCheck Token (single_privilege luid) PRIVILEGE_SET_ALL_NECESSARY AccessMode)"

text \<open>The part of \<open>SepAccessCheck\<close> that decides by the ACEs of a DACL.\<close>

definition check_dacl :: "bytes \<Rightarrow> TOKEN \<Rightarrow> GENERIC_MAPPING \<Rightarrow> nat \<Rightarrow> ACCESS_MASK \<Rightarrow> ACCESS_MASK \<Rightarrow> ACCESS_MASK \<Rightarrow>
    ACCESS_MASK \<Rightarrow> ACCESS_RESULT" where
  "check_dacl m Token gm Dacl DesiredAccess RemainingAccess PreviouslyGrantedAccess CurrentAccess =
     (if DesiredAccess AND MAXIMUM_ALLOWED \<noteq> 0 then
        (let TempGrantedAccess = fst (max_allowed_loop m Token gm (unat (AceCount m Dacl)) (Dacl + 8) 0 0);
             RemainingAccess = RemainingAccess AND NOT (MAXIMUM_ALLOWED OR TempGrantedAccess)
         in if RemainingAccess \<noteq> 0 then deny (Some 0) STATUS_ACCESS_DENIED
            else
              let Granted = TempGrantedAccess OR PreviouslyGrantedAccess
              in if Granted \<noteq> 0 then grant Granted else deny (Some Granted) STATUS_ACCESS_DENIED)
      else case dacl_loop m Token gm (unat (AceCount m Dacl)) (Dacl + 8) CurrentAccess of
        None \<Rightarrow> deny (Some 0) STATUS_ACCESS_DENIED
      | Some CurrentAccess \<Rightarrow>
          (let Granted = CurrentAccess AND DesiredAccess
           in if Granted AND NOT VALID_INHERIT_FLAGS = DesiredAccess AND NOT VALID_INHERIT_FLAGS
              then grant Granted
              else grant Granted))"

definition SepAccessCheck :: "bytes \<Rightarrow> nat \<Rightarrow> SECURITY_SUBJECT_CONTEXT \<Rightarrow> ACCESS_MASK \<Rightarrow> ACCESS_MASK \<Rightarrow>
    GENERIC_MAPPING \<Rightarrow> KPROCESSOR_MODE \<Rightarrow> ACCESS_RESULT" where
  "SepAccessCheck m sd Subject DesiredAccess PreviouslyGrantedAccess gm AccessMode =
     (if DesiredAccess = 0 then
        (if PreviouslyGrantedAccess = 0 then deny None STATUS_ACCESS_DENIED
         else (grant PreviouslyGrantedAccess)\<lparr>PrivilegesCleared := True\<rparr>)
      else
        let DesiredAccess = RtlMapGenericMask gm DesiredAccess;
            PreviouslyGrantedAccess =
              (if PreviouslyGrantedAccess \<noteq> 0 then RtlMapGenericMask gm PreviouslyGrantedAccess else PreviouslyGrantedAccess);
            RemainingAccess = DesiredAccess;
            Token = subject_token Subject;
            security = (RemainingAccess AND ACCESS_SYSTEM_SECURITY \<noteq> 0)
        in if security \<and> \<not> privilege_held Token SeSecurityPrivilege AccessMode then deny None STATUS_PRIVILEGE_NOT_HELD
           else
             let RemainingAccess = (if security then RemainingAccess AND NOT ACCESS_SYSTEM_SECURITY else RemainingAccess);
                 PreviouslyGrantedAccess =
                   (if security then PreviouslyGrantedAccess OR ACCESS_SYSTEM_SECURITY else PreviouslyGrantedAccess)
             in if security \<and> RemainingAccess = 0 then grant PreviouslyGrantedAccess
                else case RtlGetDaclSecurityDescriptor m sd of
                  (Status, Present, DaclDefaulted) \<Rightarrow>
                    if \<not> NT_SUCCESS Status then deny None Status
                    else if Present = Some False \<or> DaclDefaulted = None \<or> fst (the DaclDefaulted) = 0 then
                      (if DesiredAccess AND MAXIMUM_ALLOWED \<noteq> 0
                       then grant (GenericAll gm OR (DesiredAccess AND NOT MAXIMUM_ALLOWED))
                       else grant (DesiredAccess OR PreviouslyGrantedAccess))
                    else
                      let Dacl = fst (the DaclDefaulted);
                          CurrentAccess = PreviouslyGrantedAccess;
                          take = (DesiredAccess AND WRITE_OWNER \<noteq> 0 \<and>
                                  privilege_held Token SeTakeOwnershipPrivilege AccessMode);
                          RemainingAccess = (if take then RemainingAccess AND NOT WRITE_OWNER else RemainingAccess);
                          PreviouslyGrantedAccess =
                            (if take then PreviouslyGrantedAccess OR WRITE_OWNER else PreviouslyGrantedAccess);
                          CurrentAccess = (if take then CurrentAccess OR WRITE_OWNER else CurrentAccess)
                      in if take \<and> RemainingAccess = 0 then grant PreviouslyGrantedAccess
                         else if AceCount m Dacl = 0 then
                           (if RemainingAccess = MAXIMUM_ALLOWED \<and> PreviouslyGrantedAccess \<noteq> 0
                            then grant PreviouslyGrantedAccess else deny (Some 0) STATUS_ACCESS_DENIED)
                         else check_dacl m Token gm Dacl DesiredAccess RemainingAccess PreviouslyGrantedAccess
                                CurrentAccess)"

text \<open>The rights of the owner: what is taken out of the desired access and granted before the check.\<close>

definition owner_rights :: "bytes \<Rightarrow> TOKEN \<Rightarrow> nat \<Rightarrow> ACCESS_MASK \<Rightarrow> ACCESS_MASK \<Rightarrow> ACCESS_MASK \<times> ACCESS_MASK" where
  "owner_rights m Token sd DesiredAccess PreviouslyGrantedAccess =
     (if DesiredAccess AND (WRITE_DAC OR READ_CONTROL OR MAXIMUM_ALLOWED) \<noteq> 0 \<and> SepTokenIsOwner m Token sd then
        (DesiredAccess AND NOT (WRITE_DAC OR READ_CONTROL),
         PreviouslyGrantedAccess OR (if DesiredAccess AND MAXIMUM_ALLOWED \<noteq> 0 then WRITE_DAC OR READ_CONTROL
                                     else DesiredAccess AND (WRITE_DAC OR READ_CONTROL)))
      else (DesiredAccess, PreviouslyGrantedAccess))"

definition SeAccessCheck :: "bytes \<Rightarrow> nat \<Rightarrow> SECURITY_SUBJECT_CONTEXT \<Rightarrow> ACCESS_MASK \<Rightarrow> ACCESS_MASK \<Rightarrow>
    GENERIC_MAPPING \<Rightarrow> KPROCESSOR_MODE \<Rightarrow> ACCESS_RESULT" where
  "SeAccessCheck m sd Subject DesiredAccess PreviouslyGrantedAccess gm AccessMode =
     (if AccessMode = KernelMode then
        grant (if DesiredAccess AND MAXIMUM_ALLOWED \<noteq> 0
               then GenericAll gm OR (DesiredAccess AND NOT MAXIMUM_ALLOWED) OR PreviouslyGrantedAccess
               else DesiredAccess OR PreviouslyGrantedAccess)
      else if sd = 0 then deny None STATUS_ACCESS_DENIED
      else if ClientToken Subject \<noteq> None \<and> level (ImpersonationLevel Subject) < level SecurityImpersonation
      then deny None STATUS_BAD_IMPERSONATION_LEVEL
      else case owner_rights m (subject_token Subject) sd DesiredAccess PreviouslyGrantedAccess of
        (DesiredAccess, PreviouslyGrantedAccess) \<Rightarrow>
          if DesiredAccess = 0 then grant PreviouslyGrantedAccess
          else SepAccessCheck m sd Subject DesiredAccess PreviouslyGrantedAccess gm AccessMode)"

definition SepGetSDOwner :: "bytes \<Rightarrow> nat \<Rightarrow> nat" where
  "SepGetSDOwner m sd = (if sd_Control m sd AND SE_SELF_RELATIVE \<noteq> 0 then ptr_add sd (sd_Owner m sd) else sd_Owner m sd)"

definition SepGetSDGroup :: "bytes \<Rightarrow> nat \<Rightarrow> nat" where
  "SepGetSDGroup m sd = (if sd_Control m sd AND SE_SELF_RELATIVE \<noteq> 0 then ptr_add sd (sd_Group m sd) else sd_Group m sd)"

text \<open>
  The system call, with what its environment answers: \<open>Probe\<close> the exception code of a probe
  that fails, \<open>Reference\<close> the token the handle stands for or the status of
  \<open>ObReferenceObjectByHandle\<close>, \<open>Capture\<close> the status of \<open>SeCaptureSecurityDescriptor\<close> and the
  address it captured to. The second component is what is written to \<open>GrantedAccess\<close> and
  \<open>AccessStatus\<close>; \<open>None\<close> where nothing is written.
\<close>

definition NtAccessCheck :: "bytes \<Rightarrow> KPROCESSOR_MODE \<Rightarrow> NTSTATUS option \<Rightarrow> NTSTATUS + TOKEN \<Rightarrow> NTSTATUS \<times> nat \<Rightarrow>
    nat \<Rightarrow> ACCESS_MASK \<Rightarrow> GENERIC_MAPPING \<Rightarrow> NTSTATUS \<times> ACCESS_RESULT option" where
  "NtAccessCheck m PreviousMode Probe Reference Capture sd DesiredAccess gm =
     (if PreviousMode = KernelMode then
        (STATUS_SUCCESS, Some (grant (if DesiredAccess AND MAXIMUM_ALLOWED \<noteq> 0
          then GenericAll gm OR (DesiredAccess AND NOT MAXIMUM_ALLOWED) else DesiredAccess)))
      else case Probe of Some Code \<Rightarrow> (Code, None)
      | None \<Rightarrow>
          if DesiredAccess AND (GENERIC_READ OR GENERIC_WRITE OR GENERIC_EXECUTE OR GENERIC_ALL) \<noteq> 0
          then (STATUS_GENERIC_NOT_MAPPED, None)
          else case Reference of Inl Status \<Rightarrow> (Status, None)
          | Inr Token \<Rightarrow>
              if TokenType Token \<noteq> TokenImpersonation then (STATUS_NO_IMPERSONATION_TOKEN, None)
              else if level (TokenImpersonationLevel Token) < level SecurityIdentification
              then (STATUS_BAD_IMPERSONATION_LEVEL, None)
              else if \<not> NT_SUCCESS (fst Capture) then (fst Capture, None)
              else if snd Capture = 0 then (STATUS_INVALID_SECURITY_DESCR, None)
              else if SepGetSDOwner m sd = 0 \<or> SepGetSDGroup m sd = 0 then (STATUS_INVALID_SECURITY_DESCR, None)
              else
                let Subject = \<lparr>ClientToken = Some Token, ImpersonationLevel = TokenImpersonationLevel Token,
                               PrimaryToken = None\<rparr>;
                    (DesiredAccess, PreviouslyGrantedAccess) = owner_rights m Token sd DesiredAccess 0
                in (STATUS_SUCCESS,
                    Some (if DesiredAccess = 0 then grant PreviouslyGrantedAccess
                          else SepAccessCheck m sd Subject DesiredAccess PreviouslyGrantedAccess gm PreviousMode)))"

section \<open>Arrays of privileges in memory\<close>

text \<open>A \<open>LUID_AND_ATTRIBUTES\<close> takes 12 bytes; the array of a \<open>PRIVILEGE_SET\<close> starts at offset 8.\<close>

definition read_luid :: "bytes \<Rightarrow> nat \<Rightarrow> LUID_AND_ATTRIBUTES" where
  "read_luid m p = \<lparr>Luid = \<lparr>LowPart = read_ULONG m p, HighPart = read_ULONG m (p + 4)\<rparr>,
                    PrivilegeAttributes = read_ULONG m (p + 8)\<rparr>"

definition read_luids :: "bytes \<Rightarrow> nat \<Rightarrow> nat \<Rightarrow> LUID_AND_ATTRIBUTES list" where
  "read_luids m p n = map (\<lambda>i. read_luid m (p + 12 * i)) [0..<n]"

fun write_attributes :: "bytes \<Rightarrow> nat \<Rightarrow> LUID_AND_ATTRIBUTES list \<Rightarrow> bytes" where
  "write_attributes m p [] = m"
| "write_attributes m p (a # as) = write_attributes (write_ULONG m (p + 8) (PrivilegeAttributes a)) (p + 12) as"

text \<open>
  \<open>Probe\<close> and \<open>Fault\<close> are the exception codes of the probe and of the copy, \<open>Pool\<close> what
  \<open>ExAllocatePool\<close> returns. The result is the status, the memory, \<open>*Dest\<close> and \<open>*Length\<close>
  (\<open>None\<close> where they are not written) and the block that is freed again, if any.
\<close>

definition SeCaptureLuidAndAttributesArray :: "bytes \<Rightarrow> NTSTATUS option \<Rightarrow> NTSTATUS option \<Rightarrow> nat \<Rightarrow> nat \<Rightarrow> ULONG \<Rightarrow>
    KPROCESSOR_MODE \<Rightarrow> nat \<Rightarrow> ULONG \<Rightarrow> bool \<Rightarrow> NTSTATUS \<times> bytes \<times> nat option \<times> ULONG option \<times> nat option" where
  "SeCaptureLuidAndAttributesArray m Probe Fault Pool Src PrivilegeCount PreviousMode AllocatedMem AllocatedLength
      CaptureIfKernel =
     (if PrivilegeCount = 0 then (STATUS_SUCCESS, m, Some 0, Some 0, None)
      else if PreviousMode = KernelMode \<and> \<not> CaptureIfKernel then (STATUS_SUCCESS, m, Some Src, None, None)
      else
        let BufferSize = PrivilegeCount * 12;
            Len = Some (ROUND_UP4 BufferSize)
        in if PreviousMode \<noteq> KernelMode \<and> Probe \<noteq> None then (the Probe, m, None, Len, None)
           else if AllocatedMem \<noteq> 0 \<and> AllocatedLength < BufferSize then (STATUS_BUFFER_TOO_SMALL, m, None, Len, None)
           else
             let Dest = (if AllocatedMem \<noteq> 0 then AllocatedMem else Pool)
             in if Dest = 0 then (STATUS_INSUFFICIENT_RESOURCES, m, Some 0, Len, None)
                else case Fault of
                  None \<Rightarrow> (STATUS_SUCCESS, memcpy m Dest Src (unat BufferSize), Some Dest, Len, None)
                | Some Code \<Rightarrow> (Code, m, Some Dest, Len, if AllocatedMem = 0 then Some Dest else None))"

text \<open>The block that is freed, if any.\<close>

definition SeReleaseLuidAndAttributesArray :: "nat \<Rightarrow> KPROCESSOR_MODE \<Rightarrow> bool \<Rightarrow> nat option" where
  "SeReleaseLuidAndAttributesArray Privilege PreviousMode CaptureIfKernel =
     (if Privilege \<noteq> 0 \<and> (PreviousMode \<noteq> KernelMode \<or> CaptureIfKernel) then Some Privilege else None)"

text \<open>
  The system call. \<open>Probe1\<close>, \<open>Probe2\<close> are the exception codes of the first probe and of the
  later ones, \<open>Capture\<close> the answers of the environment to the capture and \<open>Fault\<close> the exception
  code of the copy back. The second component is \<open>*Result\<close>, \<open>None\<close> where it is not written.
\<close>

definition NtPrivilegeCheck :: "bytes \<Rightarrow> KPROCESSOR_MODE \<Rightarrow> NTSTATUS option \<Rightarrow> NTSTATUS option \<Rightarrow> NTSTATUS + TOKEN \<Rightarrow>
    NTSTATUS option \<times> NTSTATUS option \<times> nat \<Rightarrow> NTSTATUS option \<Rightarrow> nat \<Rightarrow> NTSTATUS \<times> bool option \<times> bytes" where
  "NtPrivilegeCheck m PreviousMode Probe1 Probe2 Reference Capture Fault RequiredPrivileges =
     (let PrivilegeCount = read_ULONG m RequiredPrivileges;
          PrivilegeControl = read_ULONG m (RequiredPrivileges + 4);
          Src = RequiredPrivileges + 8
      in if PreviousMode \<noteq> KernelMode \<and> Probe1 \<noteq> None then (the Probe1, None, m)
         else if PreviousMode \<noteq> KernelMode \<and> (8 + 12 * PrivilegeCount) div 12 \<noteq> PrivilegeCount
         then (STATUS_INVALID_PARAMETER, None, m)
         else if PreviousMode \<noteq> KernelMode \<and> Probe2 \<noteq> None then (the Probe2, None, m)
         else case Reference of Inl Status \<Rightarrow> (Status, None, m)
         | Inr Token \<Rightarrow>
             if TokenType Token = TokenImpersonation \<and>
                level (TokenImpersonationLevel Token) < level SecurityIdentification
             then (STATUS_BAD_IMPERSONATION_LEVEL, None, m)
             else case Capture of (Probe, CopyFault, Pool) \<Rightarrow>
               (case SeCaptureLuidAndAttributesArray m Probe CopyFault Pool Src PrivilegeCount PreviousMode 0 0 True of
                  (Status, m, Dest, _) \<Rightarrow>
                    if \<not> NT_SUCCESS Status then (Status, None, m)
                    else
                      let Privileges = the Dest;
                          (CheckResult, ps) = SepPrivilegeCheck Token (read_luids m Privileges (unat PrivilegeCount))
                             PrivilegeControl PreviousMode;
                          m = write_attributes m Privileges ps
                      in case Fault of
                           Some Code \<Rightarrow> (Code, None, m)
                         | None \<Rightarrow> (STATUS_SUCCESS, Some CheckResult,
                                     memcpy m Src Privileges (unat (PrivilegeCount * 12)))))"

section \<open>The privileges of an access state\<close>

text \<open>
  The privilege set of an access state: the initial one inside it, or an allocated one. The
  count of a set is the length of its list. \<open>allocated\<close> says whether \<open>ExAllocatePool\<close> succeeds.
\<close>

record ACCESS_STATE =
  PrivilegesAllocated :: bool
  PrivilegeSet :: "LUID_AND_ATTRIBUTES list"

definition INITIAL_PRIVILEGE_COUNT :: nat where "INITIAL_PRIVILEGE_COUNT = 3"

definition SeAppendPrivileges :: "bool \<Rightarrow> ACCESS_STATE \<Rightarrow> LUID_AND_ATTRIBUTES list \<Rightarrow> NTSTATUS \<times> ACCESS_STATE" where
  "SeAppendPrivileges allocated AccessState Privileges =
     (if length (PrivilegeSet AccessState) + length Privileges > INITIAL_PRIVILEGE_COUNT then
        (if \<not> allocated then (STATUS_INSUFFICIENT_RESOURCES, AccessState)
         else (STATUS_SUCCESS, AccessState\<lparr>PrivilegesAllocated := True,
                                           PrivilegeSet := PrivilegeSet AccessState @ Privileges\<rparr>))
      else (STATUS_SUCCESS, AccessState\<lparr>PrivilegeSet := PrivilegeSet AccessState @ Privileges\<rparr>))"

section \<open>Generic rights\<close>

lemma and_not_disjoint: "a AND c = 0 \<Longrightarrow> a AND NOT c = a" for a c :: ACCESS_MASK
  by (rule bit_word_eqI) (auto simp: bit_eq_iff bit_simps)

lemma map_generic_id: "a AND 0xF0000000 = 0 \<Longrightarrow> RtlMapGenericMask gm a = a"
proof -
  assume *: "a AND 0xF0000000 = 0"
  have "a AND 0x80000000 = 0" "a AND 0x40000000 = 0" "a AND 0x20000000 = 0" "a AND 0x10000000 = 0"
    using arg_cong [OF *, of "\<lambda>x. x AND 0x80000000"] arg_cong [OF *, of "\<lambda>x. x AND 0x40000000"]
      arg_cong [OF *, of "\<lambda>x. x AND 0x20000000"] arg_cong [OF *, of "\<lambda>x. x AND 0x10000000"] by (simp_all add: and.assoc)
  moreover have "a AND NOT 0xF0000000 = a"
    by (rule and_not_disjoint [OF *])
  ultimately show ?thesis by (simp add: RtlMapGenericMask_def Let_def)
qed

lemma map_generic_no_generic: "RtlMapGenericMask gm a AND 0xF0000000 = 0"
  by (simp add: RtlMapGenericMask_def Let_def and.assoc)

lemma map_generic_idem: "RtlMapGenericMask gm (RtlMapGenericMask gm a) = RtlMapGenericMask gm a"
  by (rule map_generic_id) (rule map_generic_no_generic)

section \<open>Walking a DACL\<close>

definition ace_at :: "nat \<Rightarrow> UCHAR list list \<Rightarrow> nat \<Rightarrow> nat" where
  "ace_at Acl xs k = Acl + 8 + length (concat (take k xs))"

definition aces_at :: "nat \<Rightarrow> UCHAR list list \<Rightarrow> nat list" where
  "aces_at Acl xs = map (ace_at Acl xs) [0..<length xs]"

lemma RtlGetAce_ace_at:
  assumes "acl_holds m Acl xs" "k < length xs"
  shows "RtlGetAce m Acl (of_nat k) = (STATUS_SUCCESS, Some (ace_at Acl xs k))"
proof -
  have "unat (AceCount m Acl) = length xs" using assms(1) by (simp add: acl_holds_def)
  with unat_USHORT_less [of "AceCount m Acl"] assms(2) have "unat (of_nat k :: ULONG) = k"
    by (simp add: unat_of_nat take_bit_nat_eq_self)
  with RtlGetAce_holds [OF assms(1), of "of_nat k"] assms(2) show ?thesis by (simp add: ace_at_def)
qed

text \<open>
  A loop that visits the ACEs of an ACL one after the other. What it computes is a fold
  of its step over the addresses that \<open>RtlGetAce\<close> returns.
\<close>

locale ace_walk =
  fixes walk :: "bytes \<Rightarrow> nat \<Rightarrow> nat \<Rightarrow> 's \<Rightarrow> 's" and step :: "bytes \<Rightarrow> nat \<Rightarrow> 's \<Rightarrow> 's"
  assumes walk_0: "walk m 0 p s = s"
    and walk_Suc: "walk m (Suc n) p s = walk m n (next_ace m p) (step m p s)"
begin

lemma walk_fold:
  assumes "holds m p (concat xs)" "list_all (ace_ok r) xs" "p + length (concat xs) < 4294967296"
  shows "walk m (length xs) p s = fold (step m) (map (\<lambda>k. p + length (concat (take k xs))) [0..<length xs]) s"
  using assms
proof (induction xs arbitrary: p s)
  case (Cons x xs)
  have x: "ace_ok r x" "holds m p x" "holds m (p + length x) (concat xs)" using Cons.prems by (auto simp: holds_append)
  then have "next_ace m p = p + length x"
    using Cons.prems(3) by (simp add: next_ace_def AceSize_holds [OF x(2,1)] ptr_add_eq)
  then have "walk m (length (x # xs)) p s =
      fold (step m) (map (\<lambda>k. p + length x + length (concat (take k xs))) [0..<length xs]) (step m p s)"
    using Cons x by (simp add: walk_Suc)
  moreover have "map (\<lambda>k. p + length (concat (take k (x # xs)))) [0..<length (x # xs)] =
      p # map (\<lambda>k. p + length x + length (concat (take k xs))) [0..<length xs]"
    by (simp add: upt_conv_Cons map_Suc_upt [symmetric] add.assoc del: upt_Suc)
  ultimately show ?case by simp
qed (simp add: walk_0)

lemma walk_acl:
  assumes "acl_holds m Acl xs"
  shows "walk m (unat (AceCount m Acl)) (Acl + 8) s = fold (step m) (aces_at Acl xs) s"
proof -
  have "walk m (length xs) (Acl + 8) s = fold (step m) (map (\<lambda>k. Acl + 8 + length (concat (take k xs))) [0..<length xs]) s"
    by (rule walk_fold [of m _ xs "m Acl"]) (use assms in \<open>auto simp: acl_holds_def\<close>)
  then show ?thesis using assms by (simp add: acl_holds_def aces_at_def ace_at_def [abs_def])
qed

end

text \<open>What one ACE gives to and takes from a token.\<close>

definition ace_applies :: "bytes \<Rightarrow> TOKEN \<Rightarrow> ULONG \<Rightarrow> nat \<Rightarrow> bool" where
  "ace_applies m Token Type Ace \<longleftrightarrow>
     m (Ace + 1) AND INHERIT_ONLY_ACE = 0 \<and> m Ace = ucast Type \<and> SepSidInToken m Token (Ace + 8)"

definition ace_rights :: "bytes \<Rightarrow> TOKEN \<Rightarrow> GENERIC_MAPPING \<Rightarrow> ULONG \<Rightarrow> nat \<Rightarrow> ACCESS_MASK" where
  "ace_rights m Token gm Type Ace =
     (if ace_applies m Token Type Ace then RtlMapGenericMask gm (read_ULONG m (Ace + 4)) else 0)"

definition max_allowed_step :: "TOKEN \<Rightarrow> GENERIC_MAPPING \<Rightarrow> bytes \<Rightarrow> nat \<Rightarrow> ACCESS_MASK \<times> ACCESS_MASK \<Rightarrow> ACCESS_MASK \<times> ACCESS_MASK" where
  "max_allowed_step Token gm m Ace = (\<lambda>(g, d).
     (g OR (ace_rights m Token gm ACCESS_ALLOWED_ACE_TYPE Ace AND NOT d),
      d OR (ace_rights m Token gm ACCESS_DENIED_ACE_TYPE Ace AND NOT g)))"

definition dacl_step :: "TOKEN \<Rightarrow> GENERIC_MAPPING \<Rightarrow> bytes \<Rightarrow> nat \<Rightarrow> ACCESS_MASK option \<Rightarrow> ACCESS_MASK option" where
  "dacl_step Token gm m Ace s =
     (if ace_applies m Token ACCESS_DENIED_ACE_TYPE Ace then None
      else map_option (\<lambda>c. c OR ace_rights m Token gm ACCESS_ALLOWED_ACE_TYPE Ace) s)"

interpretation max_allowed: ace_walk "\<lambda>m n p (g, d). max_allowed_loop m Token gm n p g d" "max_allowed_step Token gm"
  by unfold_locales (auto simp: max_allowed_step_def ace_rights_def ace_applies_def Let_def split: prod.splits)

interpretation dacl_rights: ace_walk "\<lambda>m n p s. Option.bind s (dacl_loop m Token gm n p)" "dacl_step Token gm"
proof
  fix m n p and s :: "ACCESS_MASK option"
  show "Option.bind s (dacl_loop m Token gm (Suc n) p) = Option.bind (dacl_step Token gm m p s) (dacl_loop m Token gm n (next_ace m p))"
    by (cases s) (auto simp: dacl_step_def ace_rights_def ace_applies_def Let_def)
next
  fix m p and s :: "ACCESS_MASK option"
  show "Option.bind s (dacl_loop m Token gm 0 p) = s" by (cases s) simp_all
qed

text \<open>The first ACE that mentions a right decides.\<close>

fun first_match :: "(nat \<Rightarrow> bool) \<Rightarrow> (nat \<Rightarrow> bool) \<Rightarrow> nat list \<Rightarrow> bool option" where
  "first_match allows denies [] = None"
| "first_match allows denies (a # as) =
     (if allows a then Some True else if denies a then Some False else first_match allows denies as)"

lemma first_match_iff:
  assumes "\<And>a. \<not> (allows a \<and> denies a)"
  shows "first_match allows denies as = Some True \<longleftrightarrow> (\<exists>k<length as. allows (as ! k) \<and> (\<forall>j<k. \<not> denies (as ! j)))"
proof (induction as)
  case (Cons a as)
  then show ?case using assms [of a] by (auto simp: Ex_less_Suc2 All_less_Suc2)
qed simp

lemma ace_rights_disjoint: "\<not> (bit (ace_rights m Token gm 0 a) i \<and> bit (ace_rights m Token gm 1 a) i)"
  by (auto simp: ace_rights_def ace_applies_def)

lemma max_allowed_fold:
  "i < 32 \<Longrightarrow> (bit (fst (fold (max_allowed_step Token gm m) as (g, d))) i \<longleftrightarrow>
     bit g i \<or> (\<not> bit d i \<and> first_match (\<lambda>a. bit (ace_rights m Token gm 0 a) i) (\<lambda>a. bit (ace_rights m Token gm 1 a) i) as = Some True))"
proof (induction as arbitrary: g d)
  case (Cons a as)
  then show ?case using ace_rights_disjoint [of m Token gm a i] by (auto simp: max_allowed_step_def bit_simps)
qed simp

lemma dacl_fold_None: "fold (dacl_step Token gm m) as None = None"
  by (induction as) (simp_all add: dacl_step_def)

lemma dacl_fold:
  "fold (dacl_step Token gm m) as (Some c) =
     (if \<exists>a\<in>set as. ace_applies m Token 1 a then None
      else Some (fold (\<lambda>a c. c OR ace_rights m Token gm 0 a) as c))"
  by (induction as arbitrary: c) (simp_all add: dacl_step_def dacl_fold_None)

lemma bit_or_fold: "bit (fold (\<lambda>a c. c OR f a) as c) i \<longleftrightarrow> bit c i \<or> (\<exists>a\<in>set as. bit (f a) i)" for c :: ACCESS_MASK
  by (induction as arbitrary: c) (auto simp: bit_simps)

section \<open>Privileges\<close>

definition holds_privilege :: "TOKEN \<Rightarrow> LUID_AND_ATTRIBUTES \<Rightarrow> bool" where
  "holds_privilege Token p \<longleftrightarrow>
     (case find_privilege (TokenPrivileges Token) (Luid p) of None \<Rightarrow> False | Some a \<Rightarrow> a AND SE_PRIVILEGE_ENABLED \<noteq> 0)"

definition mark_used :: "LUID_AND_ATTRIBUTES \<Rightarrow> LUID_AND_ATTRIBUTES" where
  "mark_used p = p\<lparr>PrivilegeAttributes := PrivilegeAttributes p OR SE_PRIVILEGE_USED_FOR_ACCESS\<rparr>"

text \<open>The first \<open>k\<close> privileges that the token holds are marked.\<close>

fun mark_held :: "TOKEN \<Rightarrow> nat \<Rightarrow> LUID_AND_ATTRIBUTES list \<Rightarrow> LUID_AND_ATTRIBUTES list" where
  "mark_held Token k [] = []"
| "mark_held Token k (p # ps) =
     (if k = 0 then p # ps
      else if holds_privilege Token p then mark_used p # mark_held Token (k - 1) ps
      else p # mark_held Token k ps)"

lemma privilege_loop_eq:
  "unat R = k \<Longrightarrow> privilege_loop Token ps R =
     (of_nat (k - length (filter (holds_privilege Token) ps)), mark_held Token k ps)"
proof (induction ps arbitrary: R k)
  case (Cons p ps)
  show ?case
  proof (cases "R = 0")
    case False
    then have k: "0 < k" "unat (R - 1) = k - 1" using Cons.prems by (auto simp: unat_gt_0 unat_minus_one)
    show ?thesis
    proof (cases "holds_privilege Token p")
      case True
      then obtain a where "find_privilege (TokenPrivileges Token) (Luid p) = Some a" "a AND 2 \<noteq> 0"
        by (auto simp: holds_privilege_def split: option.splits)
      with True k False Cons.IH [OF k(2)] show ?thesis by (simp add: mark_used_def word_gt_0)
    next
      case no: False
      then have "privilege_loop Token (p # ps) R = (let (R, ps) = privilege_loop Token ps R in (R, p # ps))"
        using False by (auto simp: holds_privilege_def word_gt_0 split: option.splits)
      with no k Cons.IH [OF Cons.prems] show ?thesis by simp
    qed
  qed (use Cons.prems in auto)
qed auto

lemma mark_held_all: "length (filter (holds_privilege Token) ps) \<le> k \<Longrightarrow>
    mark_held Token k ps = map (\<lambda>p. if holds_privilege Token p then mark_used p else p) ps"
proof (induction ps arbitrary: k)
  case (Cons p ps)
  show ?case
  proof (cases "k = 0")
    case True
    with Cons.prems have "\<forall>q\<in>set (p # ps). \<not> holds_privilege Token q"
      by (auto simp: filter_empty_conv split: if_splits)
    then show ?thesis using True by (auto intro: map_idI [symmetric])
  qed (use Cons in \<open>auto split: if_splits\<close>)
qed simp

lemma mark_held_one:
  "i < length ps \<Longrightarrow> mark_held Token 1 ps ! i =
     (if holds_privilege Token (ps ! i) \<and> (\<forall>j<i. \<not> holds_privilege Token (ps ! j)) then mark_used (ps ! i) else ps ! i)"
proof (induction ps arbitrary: i)
  case (Cons p ps)
  have none: "mark_held Token 0 qs = qs" for qs by (cases qs) simp_all
  show ?case using Cons by (cases i) (auto simp: none All_less_Suc2)
qed simp

lemma length_mark_held [simp]: "length (mark_held Token k ps) = length ps"
  by (induction ps arbitrary: k) simp_all

lemma privilege_check_exact:
  assumes "length ps < 4294967296" "SepPrivilegeCheck Token ps ctl UserMode = (b, ps')"
  shows "b \<longleftrightarrow> (if ctl AND 1 \<noteq> 0 then (\<forall>p\<in>set ps. holds_privilege Token p) else (\<exists>p\<in>set ps. holds_privilege Token p))"
    "length ps' = length ps"
    "i < length ps \<Longrightarrow> ps' ! i = (if holds_privilege Token (ps ! i) \<and>
       (ctl AND 1 \<noteq> 0 \<or> (\<forall>j<i. \<not> holds_privilege Token (ps ! j))) then mark_used (ps ! i) else ps ! i)"
proof -
  let ?h = "holds_privilege Token" and ?k = "if ctl AND 1 \<noteq> 0 then length ps else 1"
  let ?R = "if ctl AND 1 \<noteq> 0 then of_nat (length ps) else (1 :: ULONG)"
  have "unat ?R = ?k" using assms(1) by (simp add: unat_of_nat take_bit_nat_eq_self)
  from privilege_loop_eq [OF this, of Token ps] assms(2)
  have b: "b \<longleftrightarrow> (of_nat (?k - length (filter ?h ps)) :: ULONG) = 0" and ps': "ps' = mark_held Token ?k ps"
    by (auto simp: SepPrivilegeCheck_def Let_def split: prod.splits if_splits)
  have "?k < 4294967296" using assms(1) by simp
  then have "(of_nat (?k - length (filter ?h ps)) :: ULONG) = 0 \<longleftrightarrow> ?k \<le> length (filter ?h ps)"
    by (subst word_unat_eq_iff) (simp add: unat_of_nat take_bit_nat_eq_self)
  moreover have "length ps \<le> length (filter ?h ps) \<longleftrightarrow> (\<forall>p\<in>set ps. ?h p)"
    by (metis filter_id_conv le_antisym length_filter_le length_filter_less not_less)
  moreover have "1 \<le> length (filter ?h ps) \<longleftrightarrow> (\<exists>p\<in>set ps. ?h p)"
    by (metis One_nat_def Suc_le_eq filter_empty_conv length_greater_0_conv)
  ultimately show "b \<longleftrightarrow> (if ctl AND 1 \<noteq> 0 then (\<forall>p\<in>set ps. ?h p) else (\<exists>p\<in>set ps. ?h p))" using b by simp
  show "length ps' = length ps" by (simp add: ps')
  show "i < length ps \<Longrightarrow> ps' ! i = (if ?h (ps ! i) \<and> (ctl AND 1 \<noteq> 0 \<or> (\<forall>j<i. \<not> ?h (ps ! j))) then mark_used (ps ! i) else ps ! i)"
    using mark_held_one [of i ps Token] by (auto simp: ps' mark_held_all)
qed

section \<open>The outcome of a check against a DACL\<close>

text \<open>
  The addresses of the ACEs of a DACL, and the rights the first-match rule gives.
\<close>

definition first_match_allows :: "bytes \<Rightarrow> TOKEN \<Rightarrow> GENERIC_MAPPING \<Rightarrow> nat \<Rightarrow> UCHAR list list \<Rightarrow> nat \<Rightarrow> bool" where
  "first_match_allows m Token gm Dacl xs i \<longleftrightarrow>
     (\<exists>k<length xs. bit (ace_rights m Token gm ACCESS_ALLOWED_ACE_TYPE (ace_at Dacl xs k)) i \<and>
        (\<forall>j<k. \<not> bit (ace_rights m Token gm ACCESS_DENIED_ACE_TYPE (ace_at Dacl xs j)) i))"

definition max_allowed :: "bytes \<Rightarrow> TOKEN \<Rightarrow> GENERIC_MAPPING \<Rightarrow> nat \<Rightarrow> ACCESS_MASK" where
  "max_allowed m Token gm Dacl = fst (max_allowed_loop m Token gm (unat (AceCount m Dacl)) (Dacl + 8) 0 0)"

lemma max_allowed_first_match:
  assumes "acl_holds m Dacl xs" "i < 32"
  shows "bit (max_allowed m Token gm Dacl) i \<longleftrightarrow> first_match_allows m Token gm Dacl xs i"
proof -
  have len: "length (aces_at Dacl xs) = length xs" "k < length xs \<Longrightarrow> aces_at Dacl xs ! k = ace_at Dacl xs k" for k
    by (simp_all add: aces_at_def)
  have "max_allowed m Token gm Dacl = fst (fold (max_allowed_step Token gm m) (aces_at Dacl xs) (0, 0))"
    using max_allowed.walk_acl [OF assms(1), of Token gm "(0, 0)"] by (simp add: max_allowed_def)
  also have "bit \<dots> i \<longleftrightarrow> first_match (\<lambda>a. bit (ace_rights m Token gm 0 a) i) (\<lambda>a. bit (ace_rights m Token gm 1 a) i)
      (aces_at Dacl xs) = Some True"
    using max_allowed_fold [OF assms(2), of Token gm m "aces_at Dacl xs" 0 0] by simp
  also have "\<dots> \<longleftrightarrow> first_match_allows m Token gm Dacl xs i"
    unfolding first_match_allows_def by (subst first_match_iff [OF ace_rights_disjoint]) (auto simp: len)
  finally show ?thesis .
qed

definition dacl_denies :: "bytes \<Rightarrow> TOKEN \<Rightarrow> nat \<Rightarrow> UCHAR list list \<Rightarrow> bool" where
  "dacl_denies m Token Dacl xs \<longleftrightarrow> (\<exists>k<length xs. ace_applies m Token ACCESS_DENIED_ACE_TYPE (ace_at Dacl xs k))"

lemma dacl_loop_rights:
  assumes "acl_holds m Dacl xs"
  shows "dacl_denies m Token Dacl xs \<Longrightarrow> dacl_loop m Token gm (unat (AceCount m Dacl)) (Dacl + 8) c = None"
    "\<not> dacl_denies m Token Dacl xs \<Longrightarrow> \<exists>G. dacl_loop m Token gm (unat (AceCount m Dacl)) (Dacl + 8) c = Some G \<and>
      (\<forall>i. bit G i \<longleftrightarrow> bit c i \<or> (\<exists>k<length xs. bit (ace_rights m Token gm ACCESS_ALLOWED_ACE_TYPE (ace_at Dacl xs k)) i))"
proof -
  have s: "set (aces_at Dacl xs) = ace_at Dacl xs ` {..<length xs}" by (auto simp: aces_at_def)
  have d: "(\<exists>a\<in>set (aces_at Dacl xs). ace_applies m Token 1 a) \<longleftrightarrow> dacl_denies m Token Dacl xs"
    by (auto simp: dacl_denies_def s)
  have eq: "dacl_loop m Token gm (unat (AceCount m Dacl)) (Dacl + 8) c =
      (if dacl_denies m Token Dacl xs then None else Some (fold (\<lambda>a c. c OR ace_rights m Token gm 0 a) (aces_at Dacl xs) c))"
    using dacl_rights.walk_acl [OF assms, of "Some c" Token gm] by (simp add: dacl_fold d)
  show "dacl_denies m Token Dacl xs \<Longrightarrow> dacl_loop m Token gm (unat (AceCount m Dacl)) (Dacl + 8) c = None"
    by (simp add: eq)
  show "\<not> dacl_denies m Token Dacl xs \<Longrightarrow> \<exists>G. dacl_loop m Token gm (unat (AceCount m Dacl)) (Dacl + 8) c = Some G \<and>
      (\<forall>i. bit G i \<longleftrightarrow> bit c i \<or> (\<exists>k<length xs. bit (ace_rights m Token gm ACCESS_ALLOWED_ACE_TYPE (ace_at Dacl xs k)) i))"
    by (auto simp: eq bit_or_fold s)
qed

text \<open>
  The case of \<open>SepAccessCheck\<close> where no privilege is asked for: a DACL with ACEs is present,
  and neither \<open>ACCESS_SYSTEM_SECURITY\<close> nor \<open>WRITE_OWNER\<close> is desired.
\<close>

definition plain_check :: "bytes \<Rightarrow> nat \<Rightarrow> GENERIC_MAPPING \<Rightarrow> ACCESS_MASK \<Rightarrow> nat \<Rightarrow> UCHAR list list \<Rightarrow> bool" where
  "plain_check m sd gm DesiredAccess Dacl xs \<longleftrightarrow> DesiredAccess \<noteq> 0 \<and>
     RtlMapGenericMask gm DesiredAccess AND (ACCESS_SYSTEM_SECURITY OR WRITE_OWNER) = 0 \<and>
     (\<exists>d. RtlGetDaclSecurityDescriptor m sd = (STATUS_SUCCESS, Some True, Some (Dacl, d))) \<and> acl_holds m Dacl xs \<and> xs \<noteq> []"

lemma SepAccessCheck_plain:
  assumes "plain_check m sd gm DesiredAccess Dacl xs"
  shows "SepAccessCheck m sd Subject DesiredAccess Previous gm AccessMode =
    check_dacl m (subject_token Subject) gm Dacl (RtlMapGenericMask gm DesiredAccess) (RtlMapGenericMask gm DesiredAccess)
      (RtlMapGenericMask gm Previous) (RtlMapGenericMask gm Previous)"
proof -
  let ?D = "RtlMapGenericMask gm DesiredAccess"
  have D: "DesiredAccess \<noteq> 0" and *: "?D AND (0x1000000 OR 0x80000) = 0" and acl: "acl_holds m Dacl xs" "xs \<noteq> []"
    using assms by (simp_all add: plain_check_def)
  have bits: "?D AND 0x1000000 = 0" "?D AND 0x80000 = 0"
    using arg_cong [OF *, of "\<lambda>x. x AND 0x1000000"] arg_cong [OF *, of "\<lambda>x. x AND 0x80000"] by (simp_all add: and.assoc)
  have "0 < Dacl" "AceCount m Dacl \<noteq> 0" using acl by (auto simp: acl_holds_def)
  moreover have "(if Previous \<noteq> 0 then RtlMapGenericMask gm Previous else Previous) = RtlMapGenericMask gm Previous"
    by (simp add: map_generic_id)
  moreover obtain d where "RtlGetDaclSecurityDescriptor m sd = (STATUS_SUCCESS, Some True, Some (Dacl, d))"
    using assms by (auto simp: plain_check_def)
  ultimately show ?thesis using D bits by (simp add: SepAccessCheck_def Let_def)
qed

text \<open>
  The general case without \<open>MAXIMUM_ALLOWED\<close>: the descriptor has a DACL, which may be
  empty, and the rights that privileges give are asked for or not.
\<close>

definition protected_by :: "bytes \<Rightarrow> nat \<Rightarrow> nat \<Rightarrow> UCHAR list list \<Rightarrow> bool" where
  "protected_by m sd Dacl xs \<longleftrightarrow>
     (\<exists>d. RtlGetDaclSecurityDescriptor m sd = (STATUS_SUCCESS, Some True, Some (Dacl, d))) \<and> acl_holds m Dacl xs"

definition rights_by_privilege :: "TOKEN \<Rightarrow> KPROCESSOR_MODE \<Rightarrow> ACCESS_MASK \<Rightarrow> ACCESS_MASK" where
  "rights_by_privilege Token AccessMode D =
     (D AND ACCESS_SYSTEM_SECURITY) OR
     (if privilege_held Token SeTakeOwnershipPrivilege AccessMode then D AND WRITE_OWNER else 0)"

lemma and_one_bit: "(a :: ACCESS_MASK) AND 2 ^ n \<noteq> 0 \<Longrightarrow> a AND 2 ^ n = 2 ^ n"
  by (rule bit_word_eqI) (auto simp: and_exp_eq_0_iff_not_bit bit_and_iff bit_exp_iff)

lemmas and_privilege_bits = and_one_bit [of _ 24, simplified] and_one_bit [of _ 19, simplified]

lemma SepAccessCheck_protected:
  fixes Subject :: SECURITY_SUBJECT_CONTEXT and Previous :: ACCESS_MASK and AccessMode :: KPROCESSOR_MODE
  assumes "protected_by m sd Dacl xs" and "DesiredAccess \<noteq> 0"
    and "RtlMapGenericMask gm DesiredAccess AND MAXIMUM_ALLOWED = 0"
  defines "T \<equiv> subject_token Subject" and "D \<equiv> RtlMapGenericMask gm DesiredAccess"
    and "P \<equiv> RtlMapGenericMask gm Previous"
    and "V \<equiv> rights_by_privilege (subject_token Subject) AccessMode (RtlMapGenericMask gm DesiredAccess)"
  shows "SepAccessCheck m sd Subject DesiredAccess Previous gm AccessMode =
    (if D AND ACCESS_SYSTEM_SECURITY \<noteq> 0 \<and> \<not> privilege_held T SeSecurityPrivilege AccessMode
     then deny None STATUS_PRIVILEGE_NOT_HELD
     else if V \<noteq> 0 \<and> D AND NOT V = 0 then grant (P OR V)
     else if xs = [] then deny (Some 0) STATUS_ACCESS_DENIED
     else case dacl_loop m T gm (unat (AceCount m Dacl)) (Dacl + 8) (P OR V) of
       None \<Rightarrow> deny (Some 0) STATUS_ACCESS_DENIED
     | Some c \<Rightarrow> grant (c AND D))"
proof -
  obtain d where dacl: "RtlGetDaclSecurityDescriptor m sd = (STATUS_SUCCESS, Some True, Some (Dacl, d))"
    and acl: "acl_holds m Dacl xs"
    using assms(1) by (auto simp: protected_by_def)
  have nz: "0 < Dacl" "AceCount m Dacl = 0 \<longleftrightarrow> xs = []"
    using acl unat_eq_zero [of "AceCount m Dacl"] by (auto simp: acl_holds_def)
  have P: "(if Previous \<noteq> 0 then P else Previous) = P"
    by (simp add: P_def map_generic_id)
  have M: "D AND 0x2000000 = 0" using assms(3) by (simp add: D_def)
  have R: "D AND NOT W \<noteq> 0x2000000" for W
  proof
    assume "D AND NOT W = 0x2000000"
    then have "(D AND 0x2000000) AND NOT W = 0x2000000" by (metis and.assoc and.commute and.idem)
    with M show False by simp
  qed
  define tk where "tk \<longleftrightarrow> D AND 0x80000 \<noteq> 0 \<and> privilege_held T SeTakeOwnershipPrivilege AccessMode"
  have V: "V = (D AND 0x1000000) OR (if tk then 0x80000 else 0)"
    using and_privilege_bits(2) [of D] by (auto simp: V_def rights_by_privilege_def D_def T_def tk_def)
  have eq: "SepAccessCheck m sd Subject DesiredAccess Previous gm AccessMode =
      (if D AND 0x1000000 \<noteq> 0 \<and> \<not> privilege_held T SeSecurityPrivilege AccessMode then deny None STATUS_PRIVILEGE_NOT_HELD
       else
         let sec = (D AND 0x1000000 \<noteq> 0);
             R1 = (if sec then D AND NOT 0x1000000 else D);
             P1 = (if sec then P OR 0x1000000 else P);
             R2 = (if tk then R1 AND NOT 0x80000 else R1);
             P2 = (if tk then P1 OR 0x80000 else P1)
         in if sec \<and> R1 = 0 then grant P1
            else if tk \<and> R2 = 0 then grant P2
            else if xs = [] then
              (if R2 = 0x2000000 \<and> P2 \<noteq> 0 then grant P2 else deny (Some 0) STATUS_ACCESS_DENIED)
            else check_dacl m T gm Dacl D R2 P2 P2)"
    using assms(2) nz unfolding SepAccessCheck_def Let_def dacl prod.case D_def [symmetric] T_def [symmetric] P_def [symmetric] P
    by (simp add: tk_def)
  have cd: "check_dacl m T gm Dacl D R2 P2 P2 =
      (case dacl_loop m T gm (unat (AceCount m Dacl)) (Dacl + 8) P2 of
         None \<Rightarrow> deny (Some 0) STATUS_ACCESS_DENIED | Some c \<Rightarrow> grant (c AND D))" for R2 P2
    using M by (simp add: check_dacl_def Let_def split: option.split)
  show ?thesis
  proof (cases "D AND 0x1000000 = 0")
    case True
    then show ?thesis unfolding eq Let_def cd using R [of 0] R [of "0x80000"] by (simp add: V)
  next
    case sec: False
    note b = and_privilege_bits(1) [OF sec]
    have N: "(D AND - 16777217) AND - 524289 = D AND - 17301505" by (simp add: and.assoc)
    have "D AND NOT 0x1000000 \<noteq> 0" if tk
    proof
      assume z: "D AND NOT 0x1000000 = 0"
      have "D AND 0x80000 = (D AND NOT 0x1000000) AND 0x80000" by (simp add: and.assoc)
      with z that show False by (simp add: tk_def)
    qed
    with sec show ?thesis unfolding eq Let_def cd using R [of "0x1000000"] R [of "0x1000000 OR 0x80000"]
      by (simp add: V b N or.assoc)
  qed
qed

section \<open>No right that was not asked for\<close>

definition rights :: "ACCESS_MASK \<Rightarrow> nat set" where
  "rights a = {i. i < 32 \<and> bit a i}"

lemma rights_simps [simp]:
  "rights (a OR b) = rights a \<union> rights b" "rights (a AND b) = rights a \<inter> rights b"
  "rights (a AND NOT b) = rights a - rights b" "rights 0 = {}"
  by (auto simp: rights_def bit_simps)

lemma rights_inter: "a AND b = 0 \<longleftrightarrow> rights a \<inter> rights b = {}"
  by (auto simp: rights_def bit_eq_iff bit_simps)

lemma rights_bit: "n < 32 \<Longrightarrow> rights (2 ^ n) = {n}"
  by (auto simp: rights_def bit_exp_iff)

lemmas rights_bits = rights_bit [of 17, simplified] rights_bit [of 18, simplified] rights_bit [of 19, simplified]
  rights_bit [of 24, simplified] rights_bit [of 25, simplified]

lemma map_generic_mono: "rights a \<subseteq> rights b \<Longrightarrow> rights (RtlMapGenericMask gm a) \<subseteq> rights (RtlMapGenericMask gm b)"
proof -
  have step: "rights (if a AND c \<noteq> 0 then a OR g else a) \<subseteq> rights (if b AND c \<noteq> 0 then b OR g else b)"
    if "rights a \<subseteq> rights b" for a b c g :: ACCESS_MASK
    using that rights_inter [of a c] rights_inter [of b c] by auto
  assume sub: "rights a \<subseteq> rights b"
  show ?thesis unfolding RtlMapGenericMask_def Let_def rights_simps(3) by (intro Diff_mono order_refl step sub)
qed

lemma grant_deny_simps [simp]: "Allowed (grant a)" "GrantedAccess (grant a) = Some a" "\<not> Allowed (deny b st)"
  "Allowed (r\<lparr>PrivilegesCleared := c\<rparr>) = Allowed r" "GrantedAccess (r\<lparr>PrivilegesCleared := c\<rparr>) = GrantedAccess r"
  by (simp_all add: grant_def deny_def)

lemma check_dacl_safe:
  assumes "D AND MAXIMUM_ALLOWED = 0" "Allowed (check_dacl m Token gm Dacl D R P C)"
  shows "\<exists>g. GrantedAccess (check_dacl m Token gm Dacl D R P C) = Some g \<and> rights g \<subseteq> rights D"
  using assms by (auto simp: check_dacl_def Let_def split: option.splits)

lemma SepAccessCheck_safe:
  assumes "RtlMapGenericMask gm D AND MAXIMUM_ALLOWED = 0" "Allowed (SepAccessCheck m sd Subject D P gm AccessMode)"
  shows "\<exists>g. GrantedAccess (SepAccessCheck m sd Subject D P gm AccessMode) = Some g \<and>
    rights g \<subseteq> rights (RtlMapGenericMask gm D) \<union> rights P \<union> rights (RtlMapGenericMask gm P)"
proof (cases "D = 0")
  case True
  then show ?thesis using assms(2) by (auto simp: SepAccessCheck_def)
next
  case False
  let ?D = "RtlMapGenericMask gm D" and ?P = "RtlMapGenericMask gm P" and ?Token = "subject_token Subject"
  let ?S = "rights ?D \<union> rights P \<union> rights ?P"
  define P0 where "P0 = (if P \<noteq> 0 then ?P else P)"
  define sec where "sec \<longleftrightarrow> ?D AND 0x1000000 \<noteq> 0"
  define P1 where "P1 = (if sec then P0 OR 0x1000000 else P0)"
  define R1 where "R1 = (if sec then ?D AND NOT 0x1000000 else ?D)"
  define tk where "tk \<longleftrightarrow> ?D AND 0x80000 \<noteq> 0 \<and> privilege_held ?Token SeTakeOwnershipPrivilege AccessMode"
  define P2 where "P2 = (if tk then P1 OR 0x80000 else P1)"
  define R2 where "R2 = (if tk then R1 AND NOT 0x80000 else R1)"
  have "sec \<Longrightarrow> rights 0x1000000 \<subseteq> rights ?D" "tk \<Longrightarrow> rights 0x80000 \<subseteq> rights ?D"
    using rights_inter [of ?D "0x1000000"] rights_inter [of ?D "0x80000"] by (auto simp: sec_def tk_def rights_bits)
  then have P: "rights P1 \<subseteq> ?S" "rights P2 \<subseteq> ?S" by (auto simp: P1_def P2_def P0_def)
  obtain st pr dd where dacl: "RtlGetDaclSecurityDescriptor m sd = (st, pr, dd)" by (metis prod_cases3)
  have eq: "SepAccessCheck m sd Subject D P gm AccessMode =
      (if sec \<and> \<not> privilege_held ?Token SeSecurityPrivilege AccessMode then deny None STATUS_PRIVILEGE_NOT_HELD
       else if sec \<and> R1 = 0 then grant P1
       else if \<not> NT_SUCCESS st then deny None st
       else if pr = Some False \<or> dd = None \<or> fst (the dd) = 0 then grant (?D OR P1)
       else if tk \<and> R2 = 0 then grant P2
       else if AceCount m (fst (the dd)) = 0 then
         (if R2 = 0x2000000 \<and> P2 \<noteq> 0 then grant P2 else deny (Some 0) STATUS_ACCESS_DENIED)
       else check_dacl m ?Token gm (fst (the dd)) ?D R2 P2 P2)"
    using False assms(1) unfolding SepAccessCheck_def Let_def dacl prod.case
    by (simp add: P0_def sec_def P1_def R1_def tk_def P2_def R2_def)
  have cd: "Allowed (check_dacl m ?Token gm x ?D R' P' P') \<Longrightarrow>
      \<exists>g. GrantedAccess (check_dacl m ?Token gm x ?D R' P' P') = Some g \<and> rights g \<subseteq> ?S" for x R' P'
    using check_dacl_safe [OF assms(1), of m ?Token gm x R' P' P'] by auto
  show ?thesis using assms(2) P unfolding eq by (auto intro: cd split: if_splits)
qed

lemma map_generic_or:
  assumes "x AND 0xF0000000 = 0"
  shows "RtlMapGenericMask gm (a OR x) = RtlMapGenericMask gm a OR x"
proof -
  have x: "x AND 0x80000000 = 0" "x AND 0x40000000 = 0" "x AND 0x20000000 = 0" "x AND 0x10000000 = 0"
    using arg_cong [OF assms, of "\<lambda>x. x AND 0x80000000"] arg_cong [OF assms, of "\<lambda>x. x AND 0x40000000"]
      arg_cong [OF assms, of "\<lambda>x. x AND 0x20000000"] arg_cong [OF assms, of "\<lambda>x. x AND 0x10000000"] by (simp_all add: and.assoc)
  have step: "(if (b OR x) AND c \<noteq> 0 then (b OR x) OR g else b OR x) = (if b AND c \<noteq> 0 then b OR g else b) OR x"
    if "x AND c = 0" for b c g :: ACCESS_MASK
  proof -
    have "(b OR x) AND c = b AND c" using that by (simp add: bit.conj_disj_distrib2)
    then show ?thesis by (simp add: or.assoc or.commute [of x])
  qed
  have "(b OR x) AND NOT 0xF0000000 = b AND NOT 0xF0000000 OR x" for b
    using and_not_disjoint [OF assms] by (simp add: bit.conj_disj_distrib2)
  then show ?thesis unfolding RtlMapGenericMask_def Let_def step [OF x(1)] step [OF x(2)] step [OF x(3)] step [OF x(4)] by simp
qed

lemma map_generic_keeps: "rights a - {28, 29, 30, 31} \<subseteq> rights (RtlMapGenericMask gm a)"
proof -
  have step: "rights a \<subseteq> rights b \<Longrightarrow> rights a \<subseteq> rights (if b AND c \<noteq> 0 then b OR g else b)" for b c g :: ACCESS_MASK
    by auto
  have "rights a - rights (0x80000000 OR 0x40000000 OR 0x20000000 OR 0x10000000) \<subseteq> rights (RtlMapGenericMask gm a)"
    unfolding RtlMapGenericMask_def Let_def rights_simps(3) by (intro Diff_mono order_refl step)
  moreover have "rights (0x80000000 OR 0x40000000 OR 0x20000000 OR 0x10000000) = {28, 29, 30, 31}"
    unfolding rights_simps(1) using rights_bit [of 28] rights_bit [of 29] rights_bit [of 30] rights_bit [of 31] by auto
  ultimately show ?thesis by simp
qed

lemma SeAccessCheck_safe:
  assumes "RtlMapGenericMask gm D AND MAXIMUM_ALLOWED = 0"
    and "Allowed (SeAccessCheck m sd Subject D P gm AccessMode)"
  shows "\<exists>g. GrantedAccess (SeAccessCheck m sd Subject D P gm AccessMode) = Some g \<and>
    rights g \<subseteq> rights D \<union> rights (RtlMapGenericMask gm D) \<union> rights P \<union> rights (RtlMapGenericMask gm P)"
proof -
  let ?S = "rights D \<union> rights (RtlMapGenericMask gm D) \<union> rights P \<union> rights (RtlMapGenericMask gm P)"
  obtain D' P' where o: "owner_rights m (subject_token Subject) sd D P = (D', P')" by fastforce
  have max: "D AND 0x2000000 = 0"
    using assms(1) map_generic_keeps [of D gm] unfolding rights_inter rights_bits by auto
  obtain x where x: "x AND 0xF0000000 = 0" "rights x \<subseteq> rights D" "P' = P OR x"
  proof (cases "P' = P")
    case True
    then show ?thesis using that [of 0] by simp
  next
    case False
    then have "P' = P OR (D AND 0x60000)" using o max by (auto simp: owner_rights_def split: if_splits)
    then show ?thesis using that [of "D AND 0x60000"] by (simp add: and.assoc)
  qed
  have D': "rights D' \<subseteq> rights D" using o by (auto simp: owner_rights_def split: if_splits)
  note mono = map_generic_mono [OF D', of gm]
  have D0: "RtlMapGenericMask gm D' AND 0x2000000 = 0" using assms(1) mono unfolding rights_inter by blast
  have eq: "SeAccessCheck m sd Subject D P gm AccessMode = (if AccessMode = KernelMode then grant (D OR P)
      else if sd = 0 then deny None STATUS_ACCESS_DENIED
      else if ClientToken Subject \<noteq> None \<and> level (ImpersonationLevel Subject) < 2 then deny None STATUS_BAD_IMPERSONATION_LEVEL
      else if D' = 0 then grant P' else SepAccessCheck m sd Subject D' P' gm AccessMode)"
    using max by (simp add: SeAccessCheck_def o)
  have sep: "Allowed (SepAccessCheck m sd Subject D' P' gm AccessMode) \<Longrightarrow>
      \<exists>g. GrantedAccess (SepAccessCheck m sd Subject D' P' gm AccessMode) = Some g \<and> rights g \<subseteq> ?S"
    using SepAccessCheck_safe [OF D0, of m sd Subject P' AccessMode] mono x(2) by (auto simp: x(3) map_generic_or [OF x(1)])
  show ?thesis using assms(2) x(2) unfolding eq by (auto intro: sep [unfolded x(3)] simp: x(3) split: if_splits)
qed

lemma rights_empty: "rights a = {} \<longleftrightarrow> a = 0"
  using rights_inter [of a "- 1"] by (auto simp: rights_def)

section \<open>An example\<close>

text \<open>
  A descriptor whose DACL denies the right 2 and then allows the rights 1 and 2, both to
  the local system, and a token of that user with one privilege.
\<close>

definition system_sid :: "UCHAR list" where
  "system_sid = [1, 1, 0, 0, 0, 0, 0, 5, 18, 0, 0, 0]"

definition example_aces :: "UCHAR list list" where
  "example_aces = [[1, 0, 20, 0] @ ULONG_bytes 2 @ system_sid, [0, 0, 20, 0] @ ULONG_bytes 3 @ system_sid]"

definition check_example :: bytes where
  "check_example = put_bytes (\<lambda>_. 0) 0x1000 (sd_header 1 0 4 0x1014 0x1014 0 0x1020 @ system_sid @
     [2, 0, 48, 0, 2, 0, 0, 0] @ concat example_aces)"

definition example_token :: TOKEN where
  "example_token = \<lparr>UserAndGroups = [\<lparr>EntrySid = 0x1014, Attributes = 0\<rparr>],
     TokenPrivileges = [\<lparr>Luid = SeSecurityPrivilege, PrivilegeAttributes = 2\<rparr>],
     TokenType = TokenPrimary, TokenImpersonationLevel = SecurityAnonymous\<rparr>"

definition example_subject :: SECURITY_SUBJECT_CONTEXT where
  "example_subject = \<lparr>ClientToken = None, ImpersonationLevel = SecurityAnonymous, PrimaryToken = Some example_token\<rparr>"

definition example_mapping :: GENERIC_MAPPING where
  "example_mapping = \<lparr>GenericRead = 1, GenericWrite = 2, GenericExecute = 0, GenericAll = 3\<rparr>"

lemma length_system_sid [simp]: "length system_sid = 12"
  by (simp add: system_sid_def)

lemma check_example_holds:
  "holds check_example 0x1000 (sd_header 1 0 4 0x1014 0x1014 0 0x1020)" "holds check_example 0x1014 system_sid"
  "holds check_example 0x1020 [2, 0, 48, 0, 2, 0, 0, 0]" "holds check_example 0x1028 (concat example_aces)"
proof -
  let ?h = "sd_header 1 0 4 0x1014 0x1014 0 0x1020"
  have "holds check_example 0x1000 (?h @ system_sid @ [2, 0, 48, 0, 2, 0, 0, 0] @ concat example_aces)"
    unfolding check_example_def by (rule holds_put_bytes)
  note all = this
  note [simp del] = append.simps append_assoc
  show "holds check_example 0x1000 ?h" "holds check_example 0x1014 system_sid"
    "holds check_example 0x1020 [2, 0, 48, 0, 2, 0, 0, 0]" "holds check_example 0x1028 (concat example_aces)"
    using all by (simp_all add: holds_append)
qed

lemma check_example_acl: "acl_holds check_example 0x1020 example_aces"
proof -
  have m: "check_example 0x1020 = 2" "check_example 0x1022 = 48" "check_example 0x1023 = 0" "check_example 0x1024 = 2" "check_example 0x1025 = 0"
    using check_example_holds(3) by (simp_all add: holds_Cons)
  have "list_all (ace_ok 2) example_aces"
    by (simp add: example_aces_def ace_ok_def ace_bytes_size_def)
  moreover have "length (concat example_aces) = 40" "length example_aces = 2" by (simp_all add: example_aces_def)
  ultimately show ?thesis using check_example_holds(4) m
    by (simp add: acl_holds_def AclSize_def AceCount_def read_USHORT_def)
qed

lemma check_example_aces:
  "ace_at 0x1020 example_aces 0 = 0x1028" "ace_at 0x1020 example_aces 1 = 0x103C"
  by (simp_all add: ace_at_def example_aces_def)

lemma check_example_ace_bytes:
  "holds check_example 0x1028 [1, 0, 20, 0]" "holds check_example 0x102C (ULONG_bytes 2)" "holds check_example 0x1030 system_sid"
  "holds check_example 0x103C [0, 0, 20, 0]" "holds check_example 0x1040 (ULONG_bytes 3)" "holds check_example 0x1044 system_sid"
proof -
  note [simp del] = append.simps append_assoc
  show "holds check_example 0x1028 [1, 0, 20, 0]" "holds check_example 0x102C (ULONG_bytes 2)" "holds check_example 0x1030 system_sid"
    "holds check_example 0x103C [0, 0, 20, 0]" "holds check_example 0x1040 (ULONG_bytes 3)" "holds check_example 0x1044 system_sid"
    using check_example_holds(4) by (simp_all add: example_aces_def holds_append)
qed

lemma equal_system_sid: "holds m p system_sid \<Longrightarrow> holds m q system_sid \<Longrightarrow> RtlEqualSid m p q"
proof -
  assume h: "holds m p system_sid" "holds m q system_sid"
  then have "m (p + 1) = system_sid ! 1" by (simp add: holds_iff del: One_nat_def add_Suc_right)
  then have "m (p + 1) = 1" by (simp add: system_sid_def)
  with h show "RtlEqualSid m p q" unfolding RtlEqualSid_iff by (auto simp: holds_iff)
qed

lemma check_example_token:
  "SepSidInToken check_example example_token 0x1030" "SepSidInToken check_example example_token 0x1044"
  using equal_system_sid [OF check_example_ace_bytes(3) check_example_holds(2)]
    equal_system_sid [OF check_example_ace_bytes(6) check_example_holds(2)]
  by (simp_all add: SepSidInToken_def example_token_def)

lemma check_example_rights:
  "ace_applies check_example example_token 1 0x1028" "ace_rights check_example example_token example_mapping 1 0x1028 = 2"
  "ace_rights check_example example_token example_mapping 0 0x1028 = 0" "ace_rights check_example example_token example_mapping 0 0x103C = 3"
  using check_example_ace_bytes(1,4) holds_ULONG_bytes [OF check_example_ace_bytes(2)] holds_ULONG_bytes [OF check_example_ace_bytes(5)]
  by (auto simp: ace_rights_def ace_applies_def holds_Cons check_example_token map_generic_id)

lemma check_example_dacl: "RtlGetDaclSecurityDescriptor check_example 0x1000 = (STATUS_SUCCESS, Some True, Some (0x1020, False))"
  using header_fields [OF check_example_holds(1)] by (simp add: RtlGetDaclSecurityDescriptor_def pointers_absolute)

lemma check_example_plain: "D \<noteq> 0 \<Longrightarrow> RtlMapGenericMask gm D AND 0x1080000 = 0 \<Longrightarrow> plain_check check_example 0x1000 gm D 0x1020 example_aces"
  using check_example_acl by (simp add: plain_check_def check_example_dacl) (auto simp: example_aces_def)

section \<open>Properties\<close>

text \<open>
  C2: with \<open>MAXIMUM_ALLOWED\<close> the DACL is read by the first-match rule, right by right. The
  rights \<open>G\<close> that are found are those that some ACE allows to the token and that no earlier ACE
  denies to it, after generic mapping and with inherit-only ACEs left out. Access is denied
  when another desired right is missing from \<open>G\<close> or when nothing is granted; otherwise \<open>G\<close> and
  the rights granted before are granted.
\<close>

theorem SepAccessCheck_max_allowed:
  assumes "plain_check m sd gm DesiredAccess Dacl xs" and "RtlMapGenericMask gm DesiredAccess AND MAXIMUM_ALLOWED \<noteq> 0"
  shows "\<exists>G. (\<forall>i. bit G i \<longleftrightarrow> i < 32 \<and> first_match_allows m (subject_token Subject) gm Dacl xs i) \<and>
    SepAccessCheck m sd Subject DesiredAccess Previous gm AccessMode =
      (if RtlMapGenericMask gm DesiredAccess AND NOT (MAXIMUM_ALLOWED OR G) \<noteq> 0 \<or> G OR RtlMapGenericMask gm Previous = 0
       then deny (Some 0) STATUS_ACCESS_DENIED else grant (G OR RtlMapGenericMask gm Previous))"
proof -
  let ?G = "max_allowed m (subject_token Subject) gm Dacl"
  have acl: "acl_holds m Dacl xs" using assms(1) by (simp add: plain_check_def)
  have "bit ?G i \<longleftrightarrow> i < 32 \<and> first_match_allows m (subject_token Subject) gm Dacl xs i" for i
    using max_allowed_first_match [OF acl, of i "subject_token Subject" gm] bit_imp_le_length [of ?G i] by auto
  moreover have "SepAccessCheck m sd Subject DesiredAccess Previous gm AccessMode =
      (if RtlMapGenericMask gm DesiredAccess AND NOT (MAXIMUM_ALLOWED OR ?G) \<noteq> 0 \<or> ?G OR RtlMapGenericMask gm Previous = 0
       then deny (Some 0) STATUS_ACCESS_DENIED else grant (?G OR RtlMapGenericMask gm Previous))"
    using assms(2) by (simp add: SepAccessCheck_plain [OF assms(1)] check_dacl_def Let_def max_allowed_def)
  ultimately show ?thesis by blast
qed

theorem SepAccessCheck_max_allowed_witness:
  "\<exists>G. \<not> bit G 1 \<and> bit G 0 \<and>
    SepAccessCheck check_example 0x1000 example_subject MAXIMUM_ALLOWED 0 example_mapping UserMode = grant G"
proof -
  have id: "RtlMapGenericMask example_mapping 0x2000000 = 0x2000000" "RtlMapGenericMask example_mapping 0 = 0"
    by (simp_all add: map_generic_id)
  have tok: "subject_token example_subject = example_token" by (simp add: subject_token_def example_subject_def)
  obtain G where G: "\<And>i. bit G i \<longleftrightarrow> i < 32 \<and> first_match_allows check_example example_token example_mapping 0x1020 example_aces i"
    and eq: "SepAccessCheck check_example 0x1000 example_subject 0x2000000 0 example_mapping UserMode =
      (if 0x2000000 AND NOT (0x2000000 OR G) \<noteq> 0 \<or> G = 0 then deny (Some 0) STATUS_ACCESS_DENIED else grant G)"
    using SepAccessCheck_max_allowed [OF check_example_plain [of "0x2000000" example_mapping], of example_subject 0 UserMode]
    unfolding id tok or.right_neutral by auto
  have n: "length example_aces = 2" by (simp add: example_aces_def)
  have "first_match_allows check_example example_token example_mapping 0x1020 example_aces 0"
    "\<not> first_match_allows check_example example_token example_mapping 0x1020 example_aces 1"
    unfolding first_match_allows_def n using check_example_rights check_example_aces
    by (auto simp: numeral_2_eq_2 Ex_less_Suc2 All_less_Suc2 bit_1_iff)
  then have "bit G 0" "\<not> bit G 1" by (simp_all add: G)
  moreover from this have "G \<noteq> 0" by auto
  moreover have "0x2000000 AND NOT (0x2000000 OR G) = 0" by (rule bit_word_eqI) (auto simp: bit_simps)
  ultimately show ?thesis using eq by auto
qed

text \<open>
  C38: the check against a DACL, without \<open>MAXIMUM_ALLOWED\<close>, on every path. A request for
  \<open>ACCESS_SYSTEM_SECURITY\<close> without the privilege fails. Rights that privileges give need no
  ACE, and when they are all that is desired they are granted. An empty DACL denies what
  is left. Otherwise the DACL can only deny through a deny ACE: if any deny ACE applies to
  the token, whatever rights it names, access is denied; if none does, the check succeeds
  with the desired rights that were granted before, that a privilege gives or that some ACE
  allows. It succeeds even when desired rights are missing, and even when none is granted.
\<close>

theorem SepAccessCheck_by_rights:
  assumes "protected_by m sd Dacl xs" and "DesiredAccess \<noteq> 0"
    and "RtlMapGenericMask gm DesiredAccess AND MAXIMUM_ALLOWED = 0"
  shows "let T = subject_token Subject; D = RtlMapGenericMask gm DesiredAccess; P = RtlMapGenericMask gm Previous;
      V = rights_by_privilege T AccessMode D;
      result = SepAccessCheck m sd Subject DesiredAccess Previous gm AccessMode
    in if D AND ACCESS_SYSTEM_SECURITY \<noteq> 0 \<and> \<not> privilege_held T SeSecurityPrivilege AccessMode
       then result = deny None STATUS_PRIVILEGE_NOT_HELD
       else if V \<noteq> 0 \<and> D AND NOT V = 0 then result = grant (P OR V)
       else if xs = [] \<or> dacl_denies m T Dacl xs then result = deny (Some 0) STATUS_ACCESS_DENIED
       else \<exists>G. result = grant G \<and> (\<forall>i. bit G i \<longleftrightarrow> bit D i \<and> (bit P i \<or> bit V i \<or>
         (\<exists>k<length xs. bit (ace_rights m T gm ACCESS_ALLOWED_ACE_TYPE (ace_at Dacl xs k)) i)))"
proof -
  let ?T = "subject_token Subject" and ?D = "RtlMapGenericMask gm DesiredAccess" and ?P = "RtlMapGenericMask gm Previous"
  let ?V = "rights_by_privilege ?T AccessMode ?D"
  have acl: "acl_holds m Dacl xs" using assms(1) by (simp add: protected_by_def)
  note loop = dacl_loop_rights [OF acl, of ?T gm "?P OR ?V"]
  note eq = SepAccessCheck_protected [OF assms, where Subject = Subject and Previous = Previous and AccessMode = AccessMode]
  show ?thesis
  proof (cases "dacl_denies m ?T Dacl xs")
    case True
    then show ?thesis unfolding Let_def eq loop(1) [OF True] option.case by simp
  next
    case False
    obtain G where G: "dacl_loop m ?T gm (unat (AceCount m Dacl)) (Dacl + 8) (?P OR ?V) = Some G"
      "\<And>i. bit G i \<longleftrightarrow> bit (?P OR ?V) i \<or> (\<exists>k<length xs. bit (ace_rights m ?T gm 0 (ace_at Dacl xs k)) i)"
      using loop(2) [OF False] by blast
    have "bit (G AND ?D) i \<longleftrightarrow> bit ?D i \<and> (bit ?P i \<or> bit ?V i \<or>
        (\<exists>k<length xs. bit (ace_rights m ?T gm ACCESS_ALLOWED_ACE_TYPE (ace_at Dacl xs k)) i))" for i
      by (auto simp: bit_simps G(2))
    then have "\<exists>Ga. grant (G AND ?D) = grant Ga \<and> (\<forall>i. bit Ga i \<longleftrightarrow> bit ?D i \<and> (bit ?P i \<or> bit ?V i \<or>
        (\<exists>k<length xs. bit (ace_rights m ?T gm ACCESS_ALLOWED_ACE_TYPE (ace_at Dacl xs k)) i)))" by blast
    then show ?thesis unfolding Let_def eq G(1) option.case using False by presburger
  qed
qed

theorem SepAccessCheck_by_rights_witness:
  "SepAccessCheck check_example 0x1000 example_subject 1 0 example_mapping UserMode = deny (Some 0) STATUS_ACCESS_DENIED"
proof -
  have "subject_token example_subject = example_token" by (simp add: subject_token_def example_subject_def)
  moreover have "dacl_denies check_example example_token 0x1020 example_aces"
    using check_example_rights(1) check_example_aces unfolding dacl_denies_def
    by (intro exI [of _ 0]) (simp add: example_aces_def)
  moreover have "protected_by check_example 0x1000 0x1020 example_aces"
    using check_example_acl unfolding protected_by_def check_example_dacl by blast
  ultimately show ?thesis
    using SepAccessCheck_by_rights [of check_example "0x1000" "0x1020" example_aces 1 example_mapping example_subject 0 UserMode]
    by (simp add: map_generic_id Let_def rights_by_privilege_def)
qed

text \<open>
  C12: a check without \<open>MAXIMUM_ALLOWED\<close> never grants a right beyond the request. Whatever the
  descriptor, the token, the privileges and the processor mode, every right that
  \<open>SeAccessCheck\<close> grants is one of the desired rights or of the rights granted before, each
  taken as given or after generic mapping.
\<close>

theorem SeAccessCheck_grants_no_more:
  assumes "RtlMapGenericMask gm DesiredAccess AND MAXIMUM_ALLOWED = 0"
    and "Allowed (SeAccessCheck m sd Subject DesiredAccess Previous gm AccessMode)"
  shows "\<exists>g. GrantedAccess (SeAccessCheck m sd Subject DesiredAccess Previous gm AccessMode) = Some g \<and>
    g AND NOT (DesiredAccess OR RtlMapGenericMask gm DesiredAccess OR Previous OR RtlMapGenericMask gm Previous) = 0"
proof -
  let ?S = "DesiredAccess OR RtlMapGenericMask gm DesiredAccess OR Previous OR RtlMapGenericMask gm Previous"
  obtain g where "GrantedAccess (SeAccessCheck m sd Subject DesiredAccess Previous gm AccessMode) = Some g"
    "rights g \<subseteq> rights DesiredAccess \<union> rights (RtlMapGenericMask gm DesiredAccess) \<union> rights Previous \<union>
      rights (RtlMapGenericMask gm Previous)"
    using SeAccessCheck_safe [OF assms] by blast
  moreover from this(2) have "rights g - rights ?S = {}" unfolding rights_simps(1) by blast
  ultimately show ?thesis by (simp only: rights_simps(3) [symmetric] rights_empty) blast
qed

theorem SeAccessCheck_grants_no_more_witness:
  "\<exists>g. GrantedAccess (SeAccessCheck check_example 0x1000 example_subject READ_CONTROL 0 example_mapping UserMode) = Some g \<and>
    g AND NOT READ_CONTROL = 0"
proof -
  have "SepSidInToken check_example example_token 0x1014"
    using equal_system_sid [OF check_example_holds(2) check_example_holds(2)] by (simp add: SepSidInToken_def example_token_def)
  moreover have "RtlGetOwnerSecurityDescriptor check_example 0x1000 = (STATUS_SUCCESS, Some (0x1014, False))"
    using header_fields [OF check_example_holds(1)] by (simp add: RtlGetOwnerSecurityDescriptor_def pointers_absolute)
  ultimately have "SepTokenIsOwner check_example example_token 0x1000" by (simp add: SepTokenIsOwner_def)
  then have "Allowed (SeAccessCheck check_example 0x1000 example_subject READ_CONTROL 0 example_mapping UserMode)"
    by (simp add: SeAccessCheck_def owner_rights_def subject_token_def example_subject_def)
  from SeAccessCheck_grants_no_more [OF _ this] show ?thesis by (auto simp: map_generic_id)
qed

text \<open>
  C20: \<open>SepPrivilegeCheck\<close> for user mode is exact. With \<open>PRIVILEGE_SET_ALL_NECESSARY\<close> it
  succeeds if and only if the token holds every requested privilege, enabled; without, if
  and only if it holds one of them. The requested privileges that are marked as used are,
  respectively, all that the token holds and the first that it holds; nothing else changes.
\<close>

theorem SepPrivilegeCheck_exact:
  assumes "length Privileges < 4294967296" and "SepPrivilegeCheck Token Privileges Control UserMode = (r, Privileges')"
  shows "(r \<longleftrightarrow> (if Control AND PRIVILEGE_SET_ALL_NECESSARY \<noteq> 0 then (\<forall>p\<in>set Privileges. holds_privilege Token p)
      else (\<exists>p\<in>set Privileges. holds_privilege Token p))) \<and>
    length Privileges' = length Privileges \<and>
    (\<forall>i<length Privileges. Privileges' ! i =
      (if holds_privilege Token (Privileges ! i) \<and>
          (Control AND PRIVILEGE_SET_ALL_NECESSARY \<noteq> 0 \<or> (\<forall>j<i. \<not> holds_privilege Token (Privileges ! j)))
       then mark_used (Privileges ! i) else Privileges ! i))"
  using privilege_check_exact [OF assms] by simp

theorem SepPrivilegeCheck_exact_witness:
  "SepPrivilegeCheck example_token (single_privilege SeSecurityPrivilege) PRIVILEGE_SET_ALL_NECESSARY UserMode =
     (True, map mark_used (single_privilege SeSecurityPrivilege)) \<and>
   fst (SepPrivilegeCheck example_token (single_privilege SeTakeOwnershipPrivilege) PRIVILEGE_SET_ALL_NECESSARY UserMode) = False"
proof -
  have "holds_privilege example_token (hd (single_privilege SeSecurityPrivilege))"
    "\<not> holds_privilege example_token (hd (single_privilege SeTakeOwnershipPrivilege))"
    by (simp_all add: holds_privilege_def example_token_def single_privilege_def SeSecurityPrivilege_def SeTakeOwnershipPrivilege_def)
  moreover obtain r ps where "SepPrivilegeCheck example_token (single_privilege SeSecurityPrivilege) 1 UserMode = (r, ps)" by fastforce
  moreover obtain r' ps' where "SepPrivilegeCheck example_token (single_privilege SeTakeOwnershipPrivilege) 1 UserMode = (r', ps')" by fastforce
  ultimately show ?thesis
    using SepPrivilegeCheck_exact [of "single_privilege SeSecurityPrivilege" example_token 1 r ps]
      SepPrivilegeCheck_exact [of "single_privilege SeTakeOwnershipPrivilege" example_token 1 r' ps']
    by (auto simp: single_privilege_def length_Suc_conv)
qed

end
