(* ===== verification/Spec2Isabelle.thy ===== *)
theory Spec2Isabelle
  imports Rtl_Bitmap_Search Rtl_RangeList Rtl_AvlTable Ex_Rundown Rtl_Time Se_Access
begin

text \<open>
  A verification of core components of the NasuTek Odyssey kernel, \<open>ntoskrnl\<close>, and of the runtime
  library it shares with user mode, \<open>lib/rtl\<close>. Paths are relative to \<open>src\<close>; the build is the
  32-bit i386 one. Definitions carry the names of the C routines and types they translate.

  \<^bold>\<open>The parts and how they interact.\<close> The security part is a chain. SIDs are laid out in
  memory by \<open>sid.c\<close>; ACLs are built from ACEs that contain SIDs by \<open>acl.c\<close>; security descriptors
  refer to an owner, a group and two ACLs (\<open>sd.c\<close>); and the reference monitor decides a
  request from a descriptor and a token (\<open>semgr.c\<close>, with privileges from \<open>priv.c\<close>). All of it
  runs on one byte memory, moved about by the routines of \<open>mem.c\<close>. The other parts stand
  alone: bitmaps, range lists (used by the resource arbiters), generic tables over AVL trees,
  the calendar, and run-down protection, which delays the destruction of an object until
  all references to it are gone.

  \<^bold>\<open>The theories.\<close>
  \<^item> \<open>Odyssey_Prelude\<close>: machine integers as words, status codes, lemmas on words and lists,
    and the locale \<open>invariant_rule\<close> for reachable states.
  \<^item> \<open>Rtl_Memory\<close> and \<open>Byte_Memory\<close>: \<open>lib/rtl/mem.c\<close> and the copy loops of
    \<open>lib/sdk/crt/mem\<close>. The copy loops, upwards or downwards, are simultaneous copies.
  \<^item> \<open>Rtl_Bitmap\<close>: \<open>lib/rtl/bitmap.c\<close>, routine by routine. \<open>Rtl_Bitmap_Search\<close>: what its searches
    promise. The locales \<open>run_scanner\<close>, \<open>run_search\<close> and \<open>two_pass_search\<close> state the contract of
    measuring a run and of a search with a hint; they are interpreted for set and for clear
    bits. Searches return, what they return is a run inside the bitmap, and when they find
    none there is none; setting and clearing are set union and difference.
  \<^item> \<open>Rtl_RangeList\<close>: \<open>lib/rtl/rangelist.c\<close>. A list is well formed when its ranges are sorted and
    disjoint and \<open>Count\<close> is their number. Adding keeps that; inverting and merging are adding in
    a loop and share the locale \<open>range_adder\<close>; what a search returns is free.
  \<^item> \<open>Rtl_Links\<close>: the link macros of \<open>include/xdk/rtlfuncs.h\<close> and the walks of \<open>lib/rtl/splaytree.c\<close> on a
    heap of nodes with parent links, the tree that a heap holds, a cursor into it, rotations,
    and the locale \<open>table_search\<close>. \<open>Rtl_Avl\<close>: \<open>lib/rtl/avlsupp.c\<close> and \<open>rtlavl.h\<close>; the loops that run
    up from an insertion or a deletion restore the balance and the depth. \<open>Rtl_AvlTable\<close>:
    \<open>lib/rtl/avltable.c\<close>; a table is the ascending list of its elements, on which insertion,
    deletion, lookup and enumeration are the expected operations, for every table that a
    sequence of calls can build.
  \<^item> \<open>Ex_Rundown\<close>: \<open>ntoskrnl/ex/rundown.c\<close> and the fast paths of \<open>ntoskrnl/include/internal/ex.h\<close>. Each
    routine is cut at its interlocked operations, and the step relation \<open>rundown_step\<close>
    interleaves any number of threads. The waiter passes only when no reference is left, none
    is taken afterwards, and the wake-up is not lost.
  \<^item> \<open>Rtl_Time\<close>: \<open>lib/rtl/time.c\<close>. Times and calendar fields convert back and forth without loss
    where they are in range, and the fields follow the Gregorian calendar day by day.
  \<^item> \<open>Rtl_Sid\<close>, \<open>Rtl_Acl\<close>, \<open>Rtl_Sd\<close>: \<open>lib/rtl/sid.c\<close>, \<open>acl.c\<close> and \<open>sd.c\<close>. \<open>acl_holds m Acl xs\<close> says that the
    ACL at an address holds the list \<open>xs\<close> of ACEs; every routine that changes an ACL is shown
    to change that list as intended and nothing outside. The locale \<open>ace_adder\<close> carries the
    eight routines that add a known ACE, \<open>sd_part\<close> the setters and getters of the four parts of
    a descriptor. The conversions between the two forms of a descriptor keep its content.
  \<^item> \<open>Se_Access\<close>: \<open>ntoskrnl/se/semgr.c\<close>, \<open>ntoskrnl/se/priv.c\<close> and \<open>lib/rtl/access.c\<close>. The two loops over a DACL
    share the locale \<open>ace_walk\<close>. The outcome of a check is characterised with and without
    \<open>MAXIMUM_ALLOWED\<close>, and no check grants more than was asked for.
  \<^item> This theory: the chain from adding an ACE to the decision that it causes.

  \<^bold>\<open>State and effects.\<close> A routine takes the state it reads and returns the state it leaves,
  with its status: a byte memory, a bitmap, a range list, a table with the heap of its nodes.
  Results that come from elsewhere are arguments: whether an allocation succeeds and what it
  returns, whether a user address can be probed, what a handle stands for, what a comparison
  routine answers. A result \<open>None\<close> stands for a loop that does not end, an access violation, or
  behaviour that C leaves undefined; where it can occur the condition is an argument:
  \<open>intact\<close> for the use of a freed entry in \<open>RtlDeleteOwnersRanges\<close>, \<open>spare\<close> for the eight bytes that
  \<open>RtlCopyRangeList\<close> copies too many, \<open>ok\<close> for the bytes that \<open>RtlDeleteAce\<close> may touch.

  \<^bold>\<open>Loops and bounds.\<close> Loops that may run forever are \<open>partial_function (option)\<close>, and the claims
  that they return are proved as such: bitmap searches for bitmaps below \<open>2 ^ 31\<close> bits, whose
  indices do not wrap; the walks and loops of the trees on well-formed trees; \<open>RtlAddAce\<close> on ACEs
  of non-zero size, with a theorem that it does not return on one of size zero. The merge
  of range lists counts down the length of the second list, which bounds its iterator.
  Reachability in \<open>Ex_Rundown\<close> is over steps that keep fewer than \<open>2 ^ 31\<close> references, the
  capacity of the counter. ACLs lie below the last 64 KB of the address space, so that the
  end of an ACL and of its ACEs does not wrap; the counts of lists and tables stay below
  their 32-bit limits.

  \<^bold>\<open>Not modelled.\<close> Of the modelled files: \<open>RtlFreeSid\<close> and \<open>SeFreePrivileges\<close>, which only free their
  argument; locks, debug counters and output; \<open>RtlSplay\<close> and the deletions of \<open>splaytree.c\<close>, and the
  tables over splay trees (\<open>generictable.c\<close>). Of the kernel: the dispatcher, memory manager,
  I/O, object and configuration managers, which depend on hardware state, page tables and
  each other, and tokens beyond the fields that the checks read. Of the runtime library:
  the heap (its results are arguments), strings and code pages beyond the conversion of SIDs,
  synchronisation through system calls, and images. Drivers, the boot loader, user-mode
  libraries and programs are input and output or third-party code.
\<close>

section \<open>From an ACE to a decision\<close>

text \<open>
  A client that protects an object: it adds an ACE to an ACL, makes a descriptor at \<open>sd\<close> and
  sets the ACL as its DACL. The descriptor does not overlap the ACL and the SID.
\<close>

definition protect :: "bytes \<Rightarrow> nat \<Rightarrow> nat \<Rightarrow> bytes" where
  "protect m sd Acl = snd (RtlSetDaclSecurityDescriptor (snd (RtlCreateSecurityDescriptor m sd 1)) sd True Acl False)"

lemma protect_dacl:
  assumes "acl_holds m Acl xs" "outside Acl (unat (AclSize m Acl)) sd (sd + 20)"
  shows "RtlGetDaclSecurityDescriptor (protect m sd Acl) sd = (STATUS_SUCCESS, Some True, Some (Acl, False))"
    "acl_holds (protect m sd Acl) Acl xs" "q < sd \<or> sd + 20 \<le> q \<Longrightarrow> protect m sd Acl q = m q"
proof -
  obtain st m1 where m1: "RtlCreateSecurityDescriptor m sd 1 = (st, m1)" by fastforce
  have ok: "sd_ok m1 sd" "sd_Control m1 sd AND 0x8000 = 0" using RtlCreateSecurityDescriptor_ok [OF m1] by auto
  have same: "m1 q = m q" if "q < sd \<or> sd + 20 \<le> q" for q
    using m1 that by (auto simp: RtlCreateSecurityDescriptor_def Let_def set_field_other)
  have in_acl: "m1 q = m q" if "Acl \<le> q" "q < Acl + unat (AclSize m Acl)" for q
    using assms(2) that by (intro same) (auto simp: outside_def)
  note acl1 = acl_holds_cong [OF assms(1) in_acl]
  have "acl_part m1 sd Acl" using acl1 assms by (auto simp: acl_part_def acl_holds_def)
  from dacl.set_part_ok [OF ok this, of False] obtain m2 where m2: "RtlSetDaclSecurityDescriptor m1 sd True Acl False = (STATUS_SUCCESS, m2)"
    "RtlGetDaclSecurityDescriptor m2 sd = (STATUS_SUCCESS, Some True, Some (Acl, False))" "\<And>q. q < sd \<or> sd + 20 \<le> q \<Longrightarrow> m2 q = m1 q"
    unfolding get_acl_present by blast
  have eq: "protect m sd Acl = m2" by (simp add: protect_def m1 m2)
  show "RtlGetDaclSecurityDescriptor (protect m sd Acl) sd = (STATUS_SUCCESS, Some True, Some (Acl, False))" by (simp add: eq m2)
  show "q < sd \<or> sd + 20 \<le> q \<Longrightarrow> protect m sd Acl q = m q" by (simp add: eq m2(3) same)
  have "m2 q = m q" if "Acl \<le> q" "q < Acl + unat (AclSize m Acl)" for q
    using assms(2) that m2(3) same by (auto simp: outside_def)
  then show "acl_holds (protect m sd Acl) Acl xs" unfolding eq by (rule acl_holds_cong(1) [OF assms(1)])
qed

lemma RtlEqualSid_same: "RtlEqualSid m a b \<Longrightarrow> SepSidInToken m Token a = SepSidInToken m Token b"
proof -
  assume "RtlEqualSid m a b"
  then have "RtlEqualSid m a c \<longleftrightarrow> RtlEqualSid m b c" for c unfolding sid_string_iff_RtlEqualSid [symmetric] by simp
  then have "sid_in_token_loop m a i gs = sid_in_token_loop m b i gs" for i gs by (induction gs arbitrary: i) simp_all
  then show ?thesis by (simp add: SepSidInToken_def)
qed

lemma known_ace_applies:
  assumes "holds m' p (known_ace m 0 am None None s t)" "bytes_at m' s (unat (RtlLengthSid m s)) = bytes_at m s (unat (RtlLengthSid m s))"
    and "SepSidInToken m' Token s"
  shows "ace_applies m' Token t p" "ace_rights m' Token gm t p = RtlMapGenericMask gm am"
proof -
  note f = known_ace_fields [OF assms(1,2)]
  show "ace_applies m' Token t p" using f RtlEqualSid_same [OF f(4)] assms(3) by (simp add: ace_applies_def)
  then show "ace_rights m' Token gm t p = RtlMapGenericMask gm am" using f by (simp add: ace_rights_def)
qed

lemma ace_at_append: "k < length xs \<Longrightarrow> ace_at Acl (xs @ ys) k = ace_at Acl xs k"
  by (simp add: ace_at_def)

lemma first_match_append:
  "first_match_allows m Token gm Acl (xs @ [x]) i \<longleftrightarrow> first_match_allows m Token gm Acl xs i \<or>
     bit (ace_rights m Token gm ACCESS_ALLOWED_ACE_TYPE (ace_at Acl (xs @ [x]) (length xs))) i \<and>
     (\<forall>k<length xs. \<not> bit (ace_rights m Token gm ACCESS_DENIED_ACE_TYPE (ace_at Acl xs k)) i)"
  unfolding first_match_allows_def by (auto simp: less_Suc_eq ace_at_append)

text \<open>A subject whose user is the administrators' SID of the example ACL.\<close>

definition admin_subject :: SECURITY_SUBJECT_CONTEXT where
  "admin_subject = \<lparr>ClientToken = None, ImpersonationLevel = SecurityAnonymous,
     PrimaryToken = Some (example_token\<lparr>UserAndGroups := [\<lparr>EntrySid = 0x1000, Attributes = 0\<rparr>]\<rparr>)\<rparr>"

lemma admin_in_token: "SepSidInToken m (subject_token admin_subject) 0x1000"
  by (simp add: SepSidInToken_def subject_token_def admin_subject_def RtlEqualSid_iff)

text \<open>The new ACE in the memory the client leaves, for the two kinds of ACE.\<close>

lemma protected_ace:
  assumes acl: "acl_holds m1 Acl (xs @ [known_ace m 0 am None None Sid t])"
    and frame: "\<And>q. Sid \<le> q \<Longrightarrow> q < Sid + unat (RtlLengthSid m Sid) \<Longrightarrow> m1 q = m q"
    and out: "outside Acl (unat (AclSize m1 Acl)) sd (sd + 20)" "outside Sid (unat (RtlLengthSid m Sid)) sd (sd + 20)"
    and tok: "SepSidInToken (protect m1 sd Acl) Token Sid"
  shows "ace_applies (protect m1 sd Acl) Token t (ace_at Acl (xs @ [known_ace m 0 am None None Sid t]) (length xs))"
    "ace_rights (protect m1 sd Acl) Token gm t (ace_at Acl (xs @ [known_ace m 0 am None None Sid t]) (length xs)) = RtlMapGenericMask gm am"
proof -
  let ?x = "known_ace m 0 am None None Sid t" and ?m = "protect m1 sd Acl"
  note p = protect_dacl [OF acl out(1)]
  have "holds ?m (ace_at Acl (xs @ [?x]) (length xs)) ?x" using p(2) by (simp add: acl_holds_def holds_append ace_at_def)
  moreover have "bytes_at ?m Sid (unat (RtlLengthSid m Sid)) = bytes_at m Sid (unat (RtlLengthSid m Sid))"
    by (rule bytes_at_cong) (use out(2) p(3) frame in \<open>auto simp: outside_def\<close>)
  ultimately show "ace_applies ?m Token t (ace_at Acl (xs @ [?x]) (length xs))"
    "ace_rights ?m Token gm t (ace_at Acl (xs @ [?x]) (length xs)) = RtlMapGenericMask gm am"
    by (rule known_ace_applies [OF _ _ tok])+
qed

text \<open>A check for \<open>MAXIMUM_ALLOWED\<close> alone.\<close>

lemma max_allowed_check:
  assumes "protected_by m sd Acl xs" "xs \<noteq> []"
  shows "bit (max_allowed m (subject_token Subject) gm Acl) i \<longleftrightarrow> i < 32 \<and> first_match_allows m (subject_token Subject) gm Acl xs i"
    "SepAccessCheck m sd Subject MAXIMUM_ALLOWED 0 gm AccessMode =
      (if max_allowed m (subject_token Subject) gm Acl = 0 then deny (Some 0) STATUS_ACCESS_DENIED
       else grant (max_allowed m (subject_token Subject) gm Acl))"
proof -
  let ?T = "subject_token Subject" and ?G = "max_allowed m (subject_token Subject) gm Acl"
  have acl: "acl_holds m Acl xs" using assms(1) by (simp add: protected_by_def)
  show "bit ?G i \<longleftrightarrow> i < 32 \<and> first_match_allows m ?T gm Acl xs i"
    using max_allowed_first_match [OF acl, of i ?T gm] bit_imp_le_length [of ?G i] by auto
  have "plain_check m sd gm 0x2000000 Acl xs" using assms by (auto simp: plain_check_def protected_by_def map_generic_id)
  from SepAccessCheck_plain [OF this, of Subject 0 AccessMode]
  have "SepAccessCheck m sd Subject 0x2000000 0 gm AccessMode = check_dacl m ?T gm Acl 0x2000000 0x2000000 0 0"
    by (simp add: map_generic_id)
  moreover have "(0x2000000 :: ACCESS_MASK) AND - 0x2000001 AND NOT g = 0" for g by (simp add: and.assoc [symmetric])
  ultimately show "SepAccessCheck m sd Subject MAXIMUM_ALLOWED 0 gm AccessMode =
      (if ?G = 0 then deny (Some 0) STATUS_ACCESS_DENIED else grant ?G)"
    by (simp add: check_dacl_def Let_def max_allowed_def)
qed

text \<open>
  C6: an allow ACE decides. Let a client add an access-allowed ACE for a SID of the token to
  an ACL and protect an object with it. A check for \<open>MAXIMUM_ALLOWED\<close> then grants the rights
  the ACL allowed before and, beyond them, exactly those rights of the new ACE that no ACE of
  the ACL denies.
\<close>

theorem added_allow_ace_decides:
  assumes "acl_holds m Acl xs" and "sources_outside m Acl None None Sid"
    and "RtlAddAccessAllowedAce m Acl Revision AccessMask Sid = (STATUS_SUCCESS, m1)"
    and "outside Acl (unat (AclSize m1 Acl)) sd (sd + 20)" "outside Sid (unat (RtlLengthSid m Sid)) sd (sd + 20)"
    and "SepSidInToken (protect m1 sd Acl) (subject_token Subject) Sid"
  shows "\<exists>G. (\<forall>i. bit G i \<longleftrightarrow> i < 32 \<and> (first_match_allows (protect m1 sd Acl) (subject_token Subject) gm Acl xs i \<or>
        bit (RtlMapGenericMask gm AccessMask) i \<and> (\<forall>k<length xs.
          \<not> bit (ace_rights (protect m1 sd Acl) (subject_token Subject) gm ACCESS_DENIED_ACE_TYPE (ace_at Acl xs k)) i))) \<and>
    SepAccessCheck (protect m1 sd Acl) sd Subject MAXIMUM_ALLOWED 0 gm AccessMode =
      (if G = 0 then deny (Some 0) STATUS_ACCESS_DENIED else grant G)"
proof -
  let ?m = "protect m1 sd Acl" and ?T = "subject_token Subject" and ?x = "known_ace m 0 AccessMask None None Sid 0"
  let ?G = "max_allowed ?m ?T gm Acl"
  have acl: "acl_holds m1 Acl (xs @ [?x])" by (rule allowed.add_holds [OF assms(1-3)])
  have frame: "m1 q = m q" if "Sid \<le> q" "q < Sid + unat (RtlLengthSid m Sid)" for q
    using that assms(2) by (intro allowed.add_frame [OF assms(1-3)]) (auto simp: sources_outside_def outside_def)
  note p = protect_dacl [OF acl assms(4)] and new = protected_ace [OF acl frame assms(4-6)]
  have "protected_by ?m sd Acl (xs @ [?x])" "xs @ [?x] \<noteq> []" using p by (auto simp: protected_by_def)
  note check = max_allowed_check [OF this, of Subject gm]
  have "bit ?G i \<longleftrightarrow> i < 32 \<and> (first_match_allows ?m ?T gm Acl xs i \<or> bit (RtlMapGenericMask gm AccessMask) i \<and>
      (\<forall>k<length xs. \<not> bit (ace_rights ?m ?T gm 1 (ace_at Acl xs k)) i))" for i
    using check(1) [of i] new(2) [of gm] by (auto simp: first_match_append)
  with check(2) [of AccessMode] show ?thesis by blast
qed

theorem added_allow_ace_decides_witness:
  "\<exists>m1 G. RtlAddAccessAllowedAce (example_acl 80) 0x3000 2 1 0x1000 = (STATUS_SUCCESS, m1) \<and> bit G 0 \<and>
    SepAccessCheck (protect m1 0x500 0x3000) 0x500 admin_subject MAXIMUM_ALLOWED 0 example_mapping UserMode = grant G"
proof -
  obtain m1 where m1: "RtlAddAccessAllowedAce (example_acl 80) 0x3000 2 1 0x1000 = (STATUS_SUCCESS, m1)"
    using example_add [of 0] by (auto simp: RtlAddAccessAllowedAce_def)
  note pre = example_acl_holds(1) [of 80, simplified] example_sources m1
  note acl = allowed.add_holds [OF pre]
  have out: "outside 0x3000 n 0x500 (0x500 + 20)" "outside 0x1000 n 0x500 (0x500 + 20)" for n by (simp_all add: outside_def)
  obtain G where G: "\<And>i. bit G i \<longleftrightarrow> i < 32 \<and> (first_match_allows (protect m1 0x500 0x3000) (subject_token admin_subject) example_mapping 0x3000 [example_ace] i \<or>
      bit (RtlMapGenericMask example_mapping 1) i \<and> (\<forall>k<length [example_ace].
        \<not> bit (ace_rights (protect m1 0x500 0x3000) (subject_token admin_subject) example_mapping 1 (ace_at 0x3000 [example_ace] k)) i))"
    and eq: "SepAccessCheck (protect m1 0x500 0x3000) 0x500 admin_subject 0x2000000 0 example_mapping UserMode =
      (if G = 0 then deny (Some 0) STATUS_ACCESS_DENIED else grant G)"
    using added_allow_ace_decides [OF pre out admin_in_token, of example_mapping UserMode] by blast
  have "holds (protect m1 0x500 0x3000) 0x3008 example_ace"
    using protect_dacl(2) [OF acl out(1)] by (simp add: acl_holds_def holds_append)
  then have "protect m1 0x500 0x3000 0x3008 = 0"
    by (simp add: example_ace_def known_ace_def holds_Cons)
  then have "bit G 0" by (simp add: G map_generic_id ace_rights_def ace_applies_def ace_at_def)
  moreover from this have "G \<noteq> 0" by auto
  ultimately show ?thesis using m1 eq by auto
qed

text \<open>
  C21: what a deny ACE decides. Let a client add an access-denied ACE for a SID of the token
  and protect an object with the ACL. A check without \<open>MAXIMUM_ALLOWED\<close> is then refused,
  whatever rights the ACE names and whatever ACEs come before it, unless privileges give
  every desired right, which are then granted. A check for \<open>MAXIMUM_ALLOWED\<close> grants exactly
  what the ACL allowed before the ACE was added: coming last, it takes nothing away.
\<close>

theorem added_deny_ace_decides:
  assumes "acl_holds m Acl xs" and "sources_outside m Acl None None Sid"
    and "RtlAddAccessDeniedAce m Acl Revision AccessMask Sid = (STATUS_SUCCESS, m1)"
    and "outside Acl (unat (AclSize m1 Acl)) sd (sd + 20)" "outside Sid (unat (RtlLengthSid m Sid)) sd (sd + 20)"
    and "SepSidInToken (protect m1 sd Acl) (subject_token Subject) Sid"
    and "DesiredAccess \<noteq> 0" "RtlMapGenericMask gm DesiredAccess AND MAXIMUM_ALLOWED = 0"
  shows "(let T = subject_token Subject; D = RtlMapGenericMask gm DesiredAccess; V = rights_by_privilege T AccessMode D
      in SepAccessCheck (protect m1 sd Acl) sd Subject DesiredAccess Previous gm AccessMode =
        (if D AND ACCESS_SYSTEM_SECURITY \<noteq> 0 \<and> \<not> privilege_held T SeSecurityPrivilege AccessMode
         then deny None STATUS_PRIVILEGE_NOT_HELD
         else if V \<noteq> 0 \<and> D AND NOT V = 0 then grant (RtlMapGenericMask gm Previous OR V)
         else deny (Some 0) STATUS_ACCESS_DENIED)) \<and>
    (\<exists>G. (\<forall>i. bit G i \<longleftrightarrow> i < 32 \<and> first_match_allows (protect m1 sd Acl) (subject_token Subject) gm Acl xs i) \<and>
      SepAccessCheck (protect m1 sd Acl) sd Subject MAXIMUM_ALLOWED 0 gm AccessMode =
        (if G = 0 then deny (Some 0) STATUS_ACCESS_DENIED else grant G))"
proof -
  let ?m = "protect m1 sd Acl" and ?T = "subject_token Subject" and ?x = "known_ace m 0 AccessMask None None Sid 1"
  have acl: "acl_holds m1 Acl (xs @ [?x])" by (rule denied.add_holds [OF assms(1-3)])
  have frame: "m1 q = m q" if "Sid \<le> q" "q < Sid + unat (RtlLengthSid m Sid)" for q
    using that assms(2) by (intro denied.add_frame [OF assms(1-3)]) (auto simp: sources_outside_def outside_def)
  note p = protect_dacl [OF acl assms(4)] and new = protected_ace(1) [OF acl frame assms(4-6)]
  have prot: "protected_by ?m sd Acl (xs @ [?x])" "xs @ [?x] \<noteq> []" using p by (auto simp: protected_by_def)
  have "dacl_denies ?m ?T Acl (xs @ [?x])" using new unfolding dacl_denies_def by auto
  note loop = dacl_loop_rights(1) [OF p(2) this]
  have "ace_rights ?m ?T gm ACCESS_ALLOWED_ACE_TYPE (ace_at Acl (xs @ [?x]) (length xs)) = 0"
    using new by (simp add: ace_rights_def ace_applies_def)
  then have "bit (max_allowed ?m ?T gm Acl) i \<longleftrightarrow> i < 32 \<and> first_match_allows ?m ?T gm Acl xs i" for i
    using max_allowed_check(1) [OF prot, of Subject gm i] by (simp add: first_match_append)
  with max_allowed_check(2) [OF prot, of Subject gm AccessMode] prot(2) show ?thesis
    unfolding Let_def SepAccessCheck_protected [OF prot(1) assms(7,8)] loop option.case by auto
qed

theorem added_deny_ace_decides_witness:
  "\<exists>m1. RtlAddAccessDeniedAce (example_acl 80) 0x3000 2 1 0x1000 = (STATUS_SUCCESS, m1) \<and>
    SepAccessCheck (protect m1 0x500 0x3000) 0x500 admin_subject READ_CONTROL 0 example_mapping UserMode =
      deny (Some 0) STATUS_ACCESS_DENIED"
proof -
  obtain m1 where m1: "RtlAddAccessDeniedAce (example_acl 80) 0x3000 2 1 0x1000 = (STATUS_SUCCESS, m1)"
    using example_add [of 1] by (auto simp: RtlAddAccessDeniedAce_def)
  have out: "outside 0x3000 n 0x500 (0x500 + 20)" "outside 0x1000 n 0x500 (0x500 + 20)" for n by (simp_all add: outside_def)
  show ?thesis
    using added_deny_ace_decides [OF example_acl_holds(1) [of 80, simplified] example_sources m1 out admin_in_token,
        of READ_CONTROL example_mapping UserMode 0] m1 by (simp add: map_generic_id Let_def rights_by_privilege_def)
qed

end
